(* ===== verification/Watch_Prelude.thy ===== *)
theory Watch_Prelude
  imports Complex_Main
begin

text \<open>
  Shared vocabulary of the development: Python exceptions as values, aware and naive
  datetimes, time constants, and the generic lemmas on sorted lists, counting and
  association lists that the components use.  The collection \<open>unfold_code\<close> gathers the
  definitions that a concrete evaluation has to open.
\<close>

named_theorems unfold_code \<open>definitions that evaluation of a closed call opens\<close>

section \<open>Exceptions and results\<close>

text \<open>
  A raised exception is \<open>Inl\<close> of its class and message, a returned value is \<open>Inr\<close>.
  The classes are those that the modelled functions raise.
\<close>

datatype exn_class =
    ValueError
  | TypeError
  | AssertionError
  | RuntimeError
  | CandleParseError
  | CandleStoreError
  | UnknownCandleInstrumentError
  | CatalogStoreError
  | FundingStoreError
  | FundingConflictError
  | SelectionError
  | SelectionCleanupError
  | RecoveryStoreError
  | RecoveryVersionChanged
  | SelectedContractError
  | IndexError
  | KeyError
  | OverflowError
  | ZeroDivisionError
  | IntegrityError

datatype exn = Exn (exn_class: exn_class) (exn_message: string)

type_synonym 'a result = "exn + 'a"

definition raise_exn :: "exn_class \<Rightarrow> string \<Rightarrow> 'a result" where
  "raise_exn c m = Inl (Exn c m)"

definition is_ok :: "'e + 'a \<Rightarrow> bool" where
  "is_ok r \<longleftrightarrow> (case r of Inl _ \<Rightarrow> False | Inr _ \<Rightarrow> True)"

lemma raise_exn_simps [simp]:
  "raise_exn c m \<noteq> Inr x" "Inr x \<noteq> raise_exn c m"
  "raise_exn c m = Inl e \<longleftrightarrow> e = Exn c m"
  by (auto simp: raise_exn_def)

lemma is_ok_simps [simp]: "is_ok (Inr x)" "\<not> is_ok (Inl e)" "\<not> is_ok (raise_exn c m)"
  by (simp_all add: is_ok_def raise_exn_def)

lemma is_ok_iff: "is_ok r \<longleftrightarrow> (\<exists>x. r = Inr x)"
  by (cases r) auto

text \<open>Continue with the value of a call unless it raised.\<close>

definition and_then :: "'e + 'a \<Rightarrow> ('a \<Rightarrow> 'e + 'b) \<Rightarrow> 'e + 'b" where
  "and_then r f = (case r of Inl e \<Rightarrow> Inl e | Inr x \<Rightarrow> f x)"

lemma and_then_simps [simp]: "and_then (Inl e) f = Inl e" "and_then (Inr x) f = f x"
  by (simp_all add: and_then_def)

lemma and_then_Inr: "and_then r f = Inr y \<longleftrightarrow> (\<exists>x. r = Inr x \<and> f x = Inr y)"
  by (cases r) auto

text \<open>Run a fallible step over a list, stopping at the first exception.\<close>

fun try_fold :: "('a \<Rightarrow> 's \<Rightarrow> 'e + 's) \<Rightarrow> 'a list \<Rightarrow> 's \<Rightarrow> 'e + 's" where
  "try_fold f [] s = Inr s"
| "try_fold f (x # xs) s = (case f x s of Inl e \<Rightarrow> Inl e | Inr s' \<Rightarrow> try_fold f xs s')"

lemma try_fold_append:
  "try_fold f (xs @ ys) s =
     (case try_fold f xs s of Inl e \<Rightarrow> Inl e | Inr s' \<Rightarrow> try_fold f ys s')"
  by (induction xs arbitrary: s) (auto split: sum.splits)

text \<open>An invariant that every successful step keeps holds after the whole run.\<close>

lemma try_fold_invariant:
  assumes "try_fold f xs s = Inr t" and "I s"
    and "\<And>x s s'. x \<in> set xs \<Longrightarrow> I s \<Longrightarrow> f x s = Inr s' \<Longrightarrow> I s'"
  shows "I t"
  using assms
proof (induction xs arbitrary: s)
  case Nil
  then show ?case by simp
next
  case (Cons x xs)
  obtain s' where s': "f x s = Inr s'" and rest: "try_fold f xs s' = Inr t"
    using Cons.prems(1) by (auto split: sum.splits)
  have "I s'" using Cons.prems(2,3) s' by auto
  with rest show ?case using Cons.IH Cons.prems(3) by auto
qed

text \<open>A comprehension whose element expression may raise.\<close>

fun map_ok :: "('a \<Rightarrow> 'e + 'b) \<Rightarrow> 'a list \<Rightarrow> 'e + 'b list" where
  "map_ok f [] = Inr []"
| "map_ok f (x # xs) = and_then (f x) (\<lambda>y. and_then (map_ok f xs) (\<lambda>ys. Inr (y # ys)))"

lemma map_ok_Inr: "map_ok f xs = Inr ys \<longleftrightarrow> list_all2 (\<lambda>x y. f x = Inr y) xs ys"
  by (induction xs arbitrary: ys) (auto simp: and_then_Inr list_all2_Cons1)

lemma map_ok_total: "(\<And>x. x \<in> set xs \<Longrightarrow> f x = Inr (g x)) \<Longrightarrow> map_ok f xs = Inr (map g xs)"
  by (induction xs) auto

lemma map_ok_exists:
  assumes "\<And>x. x \<in> set xs \<Longrightarrow> \<exists>y. f x = Inr y \<and> Q x y"
  shows "\<exists>ys. map_ok f xs = Inr ys \<and> list_all2 Q xs ys"
  using assms
proof (induction xs)
  case (Cons x xs)
  obtain y where "f x = Inr y" "Q x y" using Cons.prems[of x] by auto
  moreover obtain ys where "map_ok f xs = Inr ys" "list_all2 Q xs ys" using Cons by auto
  ultimately show ?case by (intro exI[of _ "y # ys"]) simp
qed simp

lemma list_all2_partner: "list_all2 Q xs ys \<Longrightarrow> x \<in> set xs \<Longrightarrow> \<exists>y\<in>set ys. Q x y"
  by (induction xs ys rule: list_all2_induct) auto

lemma list_all2_source: "list_all2 Q xs ys \<Longrightarrow> y \<in> set ys \<Longrightarrow> \<exists>x\<in>set xs. Q x y"
  by (induction xs ys rule: list_all2_induct) auto

lemma map_ok_raises: "map_ok f xs = Inl e \<Longrightarrow> \<exists>x\<in>set xs. f x = Inl e"
proof (induction xs)
  case (Cons x xs)
  then show ?case by (cases "f x"; cases "map_ok f xs") auto
qed simp

text \<open>A sequence of guards: the first exception is the result.\<close>

fun first_error :: "unit result list \<Rightarrow> unit result" where
  "first_error [] = Inr ()"
| "first_error (r # rs) = (case r of Inl e \<Rightarrow> Inl e | Inr _ \<Rightarrow> first_error rs)"

declare first_error.simps(2) [simp del]

lemma first_error_Inr_all: "first_error rs = Inr () \<longleftrightarrow> list_all (\<lambda>r. r = Inr ()) rs"
  by (induction rs) (auto simp: first_error.simps(2) split: sum.splits)

section \<open>Datetimes\<close>

text \<open>
  A Python datetime is naive (no \<open>tzinfo\<close>) or aware.  An aware value is its UTC instant in
  microseconds since the epoch and its UTC offset in microseconds; comparison and subtraction
  of aware datetimes use the instant alone.  Functions that check awareness take \<open>pydt\<close>;
  past the check, and where the database returns timestamps, a time is its instant.
\<close>

datatype pydt = Naive int | Aware (instant: int) (utc_offset: int)

definition is_aware :: "pydt \<Rightarrow> bool" where
  "is_aware t = (case t of Naive _ \<Rightarrow> False | Aware _ _ \<Rightarrow> True)"

definition is_utc :: "pydt \<Rightarrow> bool" where
  "is_utc t = (case t of Naive _ \<Rightarrow> False | Aware _ off \<Rightarrow> off = 0)"

abbreviation utc :: "int \<Rightarrow> pydt" where
  "utc t \<equiv> Aware t 0"

lemma is_utc_simps [simp]: "is_utc (utc t)" "is_utc (Aware t off) \<longleftrightarrow> off = 0" "\<not> is_utc (Naive t)"
  by (simp_all add: is_utc_def)

lemma is_aware_simps [simp]: "is_aware (Aware t off)" "\<not> is_aware (Naive t)"
  by (simp_all add: is_aware_def)

lemma is_utc_cases: "is_utc d \<Longrightarrow> d = utc (instant d)"
  by (cases d) auto

definition second_us :: int where "second_us = 1000000"
definition minute_us :: int where "minute_us = 60 * second_us"
definition day_us :: int where "day_us = 1440 * minute_us"

lemmas time_units = day_us_def minute_us_def second_us_def
declare time_units [unfold_code]

lemma time_units_pos [simp]: "0 < second_us" "0 < minute_us" "0 < day_us"
  by (simp_all add: time_units)

section \<open>Sorted lists and counting\<close>

lemma sort_key_sorted: "sorted (map f xs) \<Longrightarrow> sort_key f xs = xs"
  by (induction xs) (auto intro: insort_is_Cons)

lemma sorted_map_filter: "sorted (map f xs) \<Longrightarrow> sorted (map f (filter P xs))"
  by (induction xs) auto

lemma distinct_map_filter_conj:
  "distinct (map f (filter P xs)) \<Longrightarrow> distinct (map f (filter (\<lambda>x. P x \<and> Q x) xs))"
  using distinct_map_filter[of f "filter P xs" Q] by simp

lemma length_filter_le_mono:
  "(\<And>x. x \<in> set xs \<Longrightarrow> P x \<Longrightarrow> Q x) \<Longrightarrow> length (filter P xs) \<le> length (filter Q xs)"
  by (induction xs) auto

text \<open>
  In an ascending list of at least \<open>k\<close> entries, fewer than \<open>k\<close> entries are later than the
  one that stands \<open>k\<close> places before the end.
\<close>

lemma later_than_kth_last:
  fixes xs :: "'a::linorder list"
  assumes "sorted xs" and "0 < k" and "k \<le> length xs"
  shows "length (filter (\<lambda>x. xs ! (length xs - k) < x) xs) < k"
proof -
  let ?n = "length xs - k" and ?v = "xs ! (length xs - k)"
  have low: "filter (\<lambda>x. ?v < x) (take (Suc ?n) xs) = []"
  proof -
    have "x \<le> ?v" if "x \<in> set (take (Suc ?n) xs)" for x
    proof -
      obtain i where "i < Suc ?n" "i < length xs" and "x = xs ! i"
        using \<open>x \<in> set (take (Suc ?n) xs)\<close> by (auto simp: in_set_conv_nth)
      then show ?thesis using assms by (auto intro: sorted_nth_mono)
    qed
    then show ?thesis by (auto simp: filter_empty_conv leD)
  qed
  have "filter (\<lambda>x. ?v < x) xs
      = filter (\<lambda>x. ?v < x) (take (Suc ?n) xs) @ filter (\<lambda>x. ?v < x) (drop (Suc ?n) xs)"
    by (metis append_take_drop_id filter_append)
  then have "length (filter (\<lambda>x. ?v < x) xs) = length (filter (\<lambda>x. ?v < x) (drop (Suc ?n) xs))"
    by (simp only: low append_Nil)
  also have "\<dots> \<le> length (drop (Suc ?n) xs)" by (rule length_filter_le)
  also have "\<dots> < k" using assms by simp
  finally show ?thesis .
qed

section \<open>Text\<close>

text \<open>
  Python's \<open>str.strip\<close> on the code points 0 to 255, which is what a HOL character ranges over.
\<close>

definition py_space :: "char \<Rightarrow> bool" where
  "py_space c \<longleftrightarrow>
     (let n = (of_char c :: nat) in (9 \<le> n \<and> n \<le> 13) \<or> (28 \<le> n \<and> n \<le> 32) \<or> n = 133 \<or> n = 160)"

definition strip :: "string \<Rightarrow> string" where
  "strip s = rev (dropWhile py_space (rev (dropWhile py_space s)))"

declare py_space_def [unfold_code] strip_def [unfold_code]

lemma find_append: "find P (xs @ ys) = (case find P xs of None \<Rightarrow> find P ys | Some x \<Rightarrow> Some x)"
  by (induction xs) auto

lemma find_SomeD: "find P xs = Some x \<Longrightarrow> x \<in> set xs \<and> P x"
  by (induction xs) (auto split: if_splits)

section \<open>Lists as Python has them\<close>

text \<open>\<open>xs[i]\<close> and \<open>xs[i] = v\<close>: a negative index counts from the end, others raise.\<close>

definition py_index :: "nat \<Rightarrow> int \<Rightarrow> nat option" where
  "py_index n i =
     (if 0 \<le> i \<and> i < int n then Some (nat i)
      else if - int n \<le> i \<and> i < 0 then Some (nat (int n + i)) else None)"

definition py_nth :: "'a list \<Rightarrow> int \<Rightarrow> 'a result" where
  "py_nth xs i = (case py_index (length xs) i of
     None \<Rightarrow> raise_exn IndexError ''list index out of range'' | Some k \<Rightarrow> Inr (xs ! k))"

definition py_set :: "'a list \<Rightarrow> int \<Rightarrow> 'a \<Rightarrow> 'a list result" where
  "py_set xs i v = (case py_index (length xs) i of
     None \<Rightarrow> raise_exn IndexError ''list assignment index out of range'' | Some k \<Rightarrow> Inr (xs[k := v]))"

text \<open>\<open>range(a, b, step)\<close> for a positive step.\<close>

definition py_range :: "int \<Rightarrow> int \<Rightarrow> int \<Rightarrow> int list" where
  "py_range a b step = map (\<lambda>i. a + int i * step) [0..<nat (- ((a - b) div step))]"

declare py_index_def [unfold_code] py_nth_def [unfold_code] py_set_def [unfold_code] py_range_def [unfold_code]

lemma py_nth_inside [simp]: "0 \<le> i \<Longrightarrow> i < int (length xs) \<Longrightarrow> py_nth xs i = Inr (xs ! nat i)"
  by (simp add: py_nth_def py_index_def)

lemma py_nth_nat [simp]: "k < length xs \<Longrightarrow> py_nth xs (int k) = Inr (xs ! k)"
  by simp

lemma py_nth_last [simp]: "xs \<noteq> [] \<Longrightarrow> py_nth xs (- 1) = Inr (last xs)"
  by (cases xs) (auto simp: py_nth_def py_index_def last_conv_nth nat_diff_distrib')

lemma py_set_inside [simp]: "k < length xs \<Longrightarrow> py_set xs (int k) v = Inr (xs[k := v])"
  by (simp add: py_set_def py_index_def)

lemma in_py_range:
  assumes "0 < step"
  shows "x \<in> set (py_range a b step) \<longleftrightarrow> a \<le> x \<and> x < b \<and> step dvd x - a"
proof
  assume "x \<in> set (py_range a b step)"
  then have "\<exists>i. x = a + int i * step \<and> int i < - ((a - b) div step)"
    by (auto simp: py_range_def image_iff zless_nat_eq_int_zless)
  then obtain i where i: "x = a + int i * step" "int i < - ((a - b) div step)" by blast
  have "step * (- ((a - b) div step)) < (b - a) + step"
    using mult_div_mod_eq[of step "a - b"] pos_mod_bound[OF assms, of "a - b"] by linarith
  moreover have "step * (int i + 1) \<le> step * (- ((a - b) div step))"
    using i assms by (intro mult_left_mono) auto
  ultimately show "a \<le> x \<and> x < b \<and> step dvd x - a"
    using i assms by (auto simp: algebra_simps)
next
  assume x: "a \<le> x \<and> x < b \<and> step dvd x - a"
  then obtain k where k: "x = a + step * k" by (auto simp: dvd_def algebra_simps)
  have "0 \<le> k" using x k assms by (simp add: zero_le_mult_iff)
  have "k < - ((a - b) div step)"
  proof -
    have "step * k < b - a" using x k by simp
    also have "b - a \<le> step * (- ((a - b) div step))"
      using mult_div_mod_eq[of step "a - b"] pos_mod_sign[OF assms, of "a - b"] by linarith
    finally show ?thesis using assms by (simp only: mult_less_cancel_left_pos)
  qed
  with \<open>0 \<le> k\<close> k show "x \<in> set (py_range a b step)"
    by (auto simp: py_range_def image_iff intro!: bexI[of _ "nat k"])
qed

lemma sorted_py_range: "0 < step \<Longrightarrow> sorted (py_range a b step) \<and> distinct (py_range a b step)"
  by (auto simp: py_range_def distinct_map inj_on_def sorted_map
      intro!: sorted_wrt_mono_rel[OF _ sorted_upt])

end
