(* ===== verification/Py_Decimal.thy ===== *)
theory Py_Decimal
  imports Watch_Prelude "HOL-Library.Log_Nat"
begin

text \<open>
  The part of Python's \<open>decimal\<close> module the program uses: a value is sign, coefficient and
  exponent (so \<open>0.10\<close> and \<open>0.1\<close> differ as texts and are equal as numbers), an infinity, or a NaN.
  Comparison is numeric, \<open>format(x, "f")\<close> prints without an exponent, and arithmetic rounds to
  28 significant digits, ties to even, as the default context does.  Overflow of the exponent
  range (beyond \<open>10 ^ 999999\<close>) is outside the model.
\<close>

datatype pydec = DFin (dec_sign: bool) (dec_coef: nat) (dec_exp: int) | DInf bool | DNaN

definition ten_pow :: "int \<Rightarrow> rat" where
  "ten_pow e = power_int 10 e"

fun dval :: "pydec \<Rightarrow> rat" where
  "dval (DFin s c e) = (if s then -1 else 1) * of_nat c * ten_pow e"
| "dval _ = 0"

fun dec_finite :: "pydec \<Rightarrow> bool" where
  "dec_finite (DFin _ _ _) = True"
| "dec_finite _ = False"

fun dec_eq :: "pydec \<Rightarrow> pydec \<Rightarrow> bool" where
  "dec_eq (DInf a) (DInf b) = (a = b)"
| "dec_eq (DInf _) _ = False"
| "dec_eq _ (DInf _) = False"
| "dec_eq DNaN _ = False"
| "dec_eq _ DNaN = False"
| "dec_eq x y = (dval x = dval y)"

text \<open>\<open><\<close> of two values that are not NaN; \<open>DInf True\<close> is minus infinity.\<close>

fun dec_less :: "pydec \<Rightarrow> pydec \<Rightarrow> bool" where
  "dec_less (DInf a) (DInf b) = (a \<and> \<not> b)"
| "dec_less (DInf a) (DFin _ _ _) = a"
| "dec_less (DFin _ _ _) (DInf b) = (\<not> b)"
| "dec_less (DFin s c e) (DFin t d f) = (dval (DFin s c e) < dval (DFin t d f))"
| "dec_less _ _ = False"

definition dec_int :: "int \<Rightarrow> pydec" where
  "dec_int n = DFin (n < 0) (nat \<bar>n\<bar>) 0"

definition dec_one :: pydec where "dec_one = DFin False 1 0"
definition dec_zero :: pydec where "dec_zero = DFin False 0 0"

declare ten_pow_def [unfold_code] dec_int_def [unfold_code] dec_one_def [unfold_code]
  dec_zero_def [unfold_code]

lemma dval_simps [simp]: "dval dec_one = 1" "dval dec_zero = 0" "dval (dec_int n) = of_int n"
  by (auto simp: dec_one_def dec_zero_def dec_int_def ten_pow_def abs_if)

lemma dec_finite_simps [simp]: "dec_finite dec_one" "dec_finite dec_zero" "dec_finite (dec_int n)"
  by (simp_all add: dec_one_def dec_zero_def dec_int_def)

lemma dec_less_finite: "dec_finite x \<Longrightarrow> dec_finite y \<Longrightarrow> dec_less x y \<longleftrightarrow> dval x < dval y"
  by (cases x; cases y) auto

lemma dec_eq_finite: "dec_finite x \<Longrightarrow> dec_finite y \<Longrightarrow> dec_eq x y \<longleftrightarrow> dval x = dval y"
  by (cases x; cases y) auto

lemma dec_eq_finite_iff: "dec_finite x \<Longrightarrow> dec_eq x y \<longleftrightarrow> dec_finite y \<and> dval x = dval y"
  by (cases x; cases y) auto

lemma dec_eq_sym: "dec_eq x y \<longleftrightarrow> dec_eq y x"
  by (cases x; cases y) auto

lemma ten_pow_pos [simp]: "0 < ten_pow e"
  by (simp add: ten_pow_def)

lemma ten_pow_zero [simp]: "ten_pow 0 = 1"
  by (simp add: ten_pow_def)

lemma ten_pow_add: "ten_pow (a + b) = ten_pow a * ten_pow b"
  by (simp add: ten_pow_def power_int_add)

section \<open>Text\<close>

text \<open>Decimal digits of a natural number, most significant first; \<open>format_f\<close> is \<open>format(x, "f")\<close>.\<close>

definition digit_char :: "nat \<Rightarrow> char" where
  "digit_char d = char_of (48 + d)"

fun digits :: "nat \<Rightarrow> string" where
  "digits n = (if n < 10 then [digit_char n] else digits (n div 10) @ [digit_char (n mod 10)])"

declare digits.simps [simp del]

definition pad_left :: "nat \<Rightarrow> string \<Rightarrow> string" where
  "pad_left k ds = replicate (k - length ds) (digit_char 0) @ ds"

fun format_f :: "pydec \<Rightarrow> string" where
  "format_f (DFin s c e) =
     (if s then ''-'' else []) @
     (if 0 \<le> e then digits (c * 10 ^ nat e)
      else (let k = nat (- e); ds = pad_left (Suc k) (digits c)
            in take (length ds - k) ds @ ''.'' @ drop (length ds - k) ds))"
| "format_f (DInf s) = (if s then ''-Infinity'' else ''Infinity'')"
| "format_f DNaN = ''NaN''"

definition int_text :: "int \<Rightarrow> string" where
  "int_text n = (if n < 0 then ''-'' else []) @ digits (nat \<bar>n\<bar>)"

section \<open>Rounding\<close>

text \<open>
  \<open>lead_exp b x\<close> is the exponent of the leading digit of \<open>x\<close> in base \<open>b\<close>, and
  \<open>round_sig b p x\<close> rounds to \<open>p\<close> significant digits, ties to even.  Decimal arithmetic is
  \<open>b = 10, p = 28\<close>; normal binary64 arithmetic is \<open>b = 2, p = 53\<close>.
\<close>

definition round_half_even :: "rat \<Rightarrow> int" where
  "round_half_even x =
     (let f = \<lfloor>x\<rfloor>; r = x - of_int f
      in if r < 1/2 \<or> (r = 1/2 \<and> even f) then f else f + 1)"

definition lead_exp :: "nat \<Rightarrow> rat \<Rightarrow> int" where
  "lead_exp b x =
     (let (n, d) = quotient_of \<bar>x\<bar>; k = int (floorlog b (nat n)) - int (floorlog b (nat d))
      in if power_int (of_nat b) k \<le> \<bar>x\<bar> then k else k - 1)"

definition round_sig :: "nat \<Rightarrow> nat \<Rightarrow> rat \<Rightarrow> rat" where
  "round_sig b p x =
     (if x = 0 then 0
      else (let q = power_int (of_nat b) (lead_exp b x - int p + 1)
            in of_int (round_half_even (x / q)) * q))"

definition dec_round :: "rat \<Rightarrow> rat" where
  "dec_round x = round_sig 10 28 x"

declare round_half_even_def [unfold_code] lead_exp_def [unfold_code] round_sig_def [unfold_code]
  dec_round_def [unfold_code]

lemma round_half_even_error: "\<bar>of_int (round_half_even x) - x\<bar> \<le> 1 / 2"
proof -
  have "of_int \<lfloor>x\<rfloor> \<le> x" "x < of_int \<lfloor>x\<rfloor> + 1" by linarith+
  then show ?thesis
    unfolding round_half_even_def Let_def by (auto simp: abs_le_iff)
qed

lemma round_half_even_int [simp]: "round_half_even (of_int n) = n"
  by (simp add: round_half_even_def)

lemma round_half_even_mono: "x \<le> y \<Longrightarrow> round_half_even x \<le> round_half_even y"
proof -
  assume le: "x \<le> y"
  show ?thesis
  proof (cases "\<lfloor>x\<rfloor> = \<lfloor>y\<rfloor>")
    case True
    with le show ?thesis by (auto simp: round_half_even_def Let_def)
  next
    case False
    with le have "\<lfloor>x\<rfloor> + 1 \<le> \<lfloor>y\<rfloor>" using floor_mono[OF le] by linarith
    then show ?thesis by (auto simp: round_half_even_def Let_def)
  qed
qed

lemma round_sig_zero [simp]: "round_sig b p 0 = 0"
  by (simp add: round_sig_def)

lemma round_half_even_nonneg: "0 \<le> x \<Longrightarrow> 0 \<le> round_half_even x"
  using round_half_even_mono[of 0 x] by (simp add: round_half_even_def)

lemma round_sig_nonneg: "0 \<le> x \<Longrightarrow> 0 \<le> round_sig b p x"
  by (auto simp: round_sig_def Let_def intro!: mult_nonneg_nonneg round_half_even_nonneg)

end
