(* ===== verification/Py_Float.thy ===== *)
theory Py_Float
  imports Py_Decimal
begin

text \<open>
  Python floats: binary64 with round-to-nearest, ties to even, gradual underflow and overflow to an
  infinity.  A finite float is its rational value, so the two zeros are one value; the program
  never observes the sign of a zero (division by either zero raises).  \<open>f_round\<close> rounds an exact
  result; the lemmas say that it is monotone and exact on the values that are representable.
\<close>

section \<open>Leading exponents\<close>

lemma power_int_two_pos [simp]: "0 < power_int (2::rat) e"
  by simp

lemma power_int_two_less: "power_int (2::rat) a < power_int 2 b \<longleftrightarrow> a < b"
  by (metis linorder_cases order_less_asym' power_int_strict_increasing one_less_numeral_iff semiring_norm(76))

lemma power_int_two_le: "power_int (2::rat) a \<le> power_int 2 b \<longleftrightarrow> a \<le> b"
  using power_int_two_less[of b a] by (simp add: linorder_not_less[symmetric])

lemma lead_exp_bounds:
  assumes "x \<noteq> 0" and b: "1 < b"
  shows "power_int (of_nat b) (lead_exp b x) \<le> \<bar>x\<bar>" "\<bar>x\<bar> < power_int (of_nat b) (lead_exp b x + 1)"
proof -
  obtain n d where nd: "quotient_of \<bar>x\<bar> = (n, d)" by (cases "quotient_of \<bar>x\<bar>")
  have d: "0 < d" and val: "\<bar>x\<bar> = of_int n / of_int d"
    using quotient_of_denom_pos[OF nd] quotient_of_div[OF nd] by auto
  have n: "0 < n"
  proof (rule ccontr)
    assume "\<not> 0 < n"
    then have "of_int n / of_int d \<le> (0::rat)" using d by (simp add: divide_nonpos_pos)
    with val assms(1) show False by simp
  qed
  define p q where "p = floorlog b (nat n)" and "q = floorlog b (nat d)"
  define B :: rat where "B = of_nat b"
  have B: "1 < B" and B0: "0 < B" using b by (simp_all add: B_def)
  have pos: "0 < p" "0 < q"
    unfolding p_def q_def using n d b
    by (metis floorlog_eq_zero_iff gr0I leD zero_less_nat_eq)+
  have nb: "b ^ (p - 1) \<le> nat n" "nat n < b ^ p" and db: "b ^ (q - 1) \<le> nat d" "nat d < b ^ q"
    using floorlog_bounds[of "nat n" b] floorlog_bounds[of "nat d" b] n d b by (auto simp: p_def q_def)
  have cast: "of_int n = (of_nat (nat n) :: rat)" "of_int d = (of_nat (nat d) :: rat)"
    using n d by simp_all
  have nr: "B ^ (p - 1) \<le> of_int n" "of_int n < B ^ p" and dr: "B ^ (q - 1) \<le> of_int d" "of_int d < B ^ q"
    unfolding cast B_def using nb db by (metis of_nat_power of_nat_le_iff of_nat_less_iff)+
  define k where "k = int p - int q"
  have up: "\<bar>x\<bar> < power_int B (k + 1)"
  proof -
    have "\<bar>x\<bar> < B ^ p / B ^ (q - 1)"
      unfolding val using nr dr d n B0
      by (intro frac_less) (auto intro: less_imp_le)
    also have "\<dots> = power_int B (int p - int (q - 1))"
      using B0 by (simp add: power_int_diff)
    finally show ?thesis using pos by (simp add: k_def of_nat_diff algebra_simps)
  qed
  have low: "power_int B (k - 1) \<le> \<bar>x\<bar>"
  proof -
    have "power_int B (int (p - 1) - int q) = B ^ (p - 1) / B ^ q"
      using B0 by (simp add: power_int_diff)
    also have "\<dots> \<le> \<bar>x\<bar>"
      unfolding val using nr dr d n B0
      by (intro frac_le) (auto intro: less_imp_le)
    finally show ?thesis using pos by (simp add: k_def of_nat_diff algebra_simps)
  qed
  have lead: "lead_exp b x = (if power_int B k \<le> \<bar>x\<bar> then k else k - 1)"
    by (simp add: lead_exp_def nd k_def p_def q_def B_def Let_def)
  show "power_int (of_nat b) (lead_exp b x) \<le> \<bar>x\<bar>" "\<bar>x\<bar> < power_int (of_nat b) (lead_exp b x + 1)"
    using up low by (auto simp: lead B_def[symmetric])
qed

lemma lead_exp_minus [simp]: "lead_exp b (- x) = lead_exp b x"
  by (simp add: lead_exp_def)

lemma lead_exp_mono:
  assumes "0 < x" and "x \<le> y"
  shows "lead_exp 2 x \<le> lead_exp 2 y"
proof -
  have "power_int (2::rat) (lead_exp 2 x) \<le> x" "y < power_int 2 (lead_exp 2 y + 1)"
    using lead_exp_bounds[of x 2] lead_exp_bounds[of y 2] assms by auto
  then have "power_int (2::rat) (lead_exp 2 x) < power_int 2 (lead_exp 2 y + 1)" using assms by simp
  then show ?thesis by (simp only: power_int_two_less)
qed

section \<open>Rounding to a grid\<close>

definition on_grid :: "int \<Rightarrow> rat \<Rightarrow> rat" where
  "on_grid e x = of_int (round_half_even (x / power_int 2 e)) * power_int 2 e"

declare on_grid_def [unfold_code]

lemma round_half_even_minus: "round_half_even (- x) = - round_half_even x"
proof (cases "x = of_int \<lfloor>x\<rfloor>")
  case True
  then show ?thesis by (metis of_int_minus round_half_even_int)
next
  case False
  let ?f = "\<lfloor>x\<rfloor>"
  have "of_int ?f \<le> x" "x < of_int ?f + 1" by linarith+
  then have lt: "of_int ?f < x" "x < of_int ?f + 1" using False order_less_le[of "of_int ?f" x] by metis+
  then have fl: "\<lfloor>- x\<rfloor> = - ?f - 1" by (intro floor_unique) auto
  show ?thesis
    unfolding round_half_even_def Let_def fl by (auto simp: algebra_simps)
qed

lemma on_grid_mono: "x \<le> y \<Longrightarrow> on_grid e x \<le> on_grid e y"
  by (auto simp: on_grid_def divide_le_cancel intro!: mult_right_mono round_half_even_mono divide_right_mono)

lemma on_grid_minus: "on_grid e (- x) = - on_grid e x"
  by (simp add: on_grid_def round_half_even_minus)

lemma on_grid_fixed: "on_grid e (of_int k * power_int 2 e) = of_int k * power_int 2 e"
  by (simp add: on_grid_def)

lemma power_on_grid: "e \<le> k \<Longrightarrow> on_grid e (power_int 2 k) = power_int 2 k"
proof -
  assume "e \<le> k"
  then have "power_int (2::rat) k = power_int 2 (k - e) * power_int 2 e"
    by (simp add: power_int_add[symmetric])
  also have "power_int (2::rat) (k - e) = of_int (2 ^ nat (k - e))"
    using \<open>e \<le> k\<close> by (simp add: power_int_def)
  finally show ?thesis using on_grid_fixed by metis
qed

section \<open>Floats\<close>

datatype pyfloat = FFin rat | FInf bool | FNaN

fun float_finite :: "pyfloat \<Rightarrow> bool" where
  "float_finite (FFin _) = True"
| "float_finite _ = False"

fun fval :: "pyfloat \<Rightarrow> rat" where
  "fval (FFin x) = x"
| "fval _ = 0"

definition f_grid :: "rat \<Rightarrow> int" where
  "f_grid x = max (lead_exp 2 x - 52) (- 1074)"

definition f_exact :: "rat \<Rightarrow> rat" where
  "f_exact x = (if x = 0 then 0 else on_grid (f_grid x) x)"

definition f_limit :: rat where
  "f_limit = 2 ^ 1024"

definition f_round :: "rat \<Rightarrow> pyfloat" where
  "f_round x = (let y = f_exact x in if f_limit \<le> \<bar>y\<bar> then FInf (x < 0) else FFin y)"

fun f_neg :: "pyfloat \<Rightarrow> pyfloat" where
  "f_neg (FFin x) = FFin (- x)"
| "f_neg (FInf s) = FInf (\<not> s)"
| "f_neg FNaN = FNaN"

fun f_add :: "pyfloat \<Rightarrow> pyfloat \<Rightarrow> pyfloat" where
  "f_add (FFin x) (FFin y) = f_round (x + y)"
| "f_add (FInf s) (FInf t) = (if s = t then FInf s else FNaN)"
| "f_add (FInf s) (FFin _) = FInf s"
| "f_add (FFin _) (FInf t) = FInf t"
| "f_add _ _ = FNaN"

definition f_sub :: "pyfloat \<Rightarrow> pyfloat \<Rightarrow> pyfloat" where
  "f_sub x y = f_add x (f_neg y)"

fun f_mul :: "pyfloat \<Rightarrow> pyfloat \<Rightarrow> pyfloat" where
  "f_mul (FFin x) (FFin y) = f_round (x * y)"
| "f_mul (FInf s) (FInf t) = FInf (s \<noteq> t)"
| "f_mul (FInf s) (FFin y) = (if y = 0 then FNaN else FInf (s \<noteq> (y < 0)))"
| "f_mul (FFin x) (FInf t) = (if x = 0 then FNaN else FInf (t \<noteq> (x < 0)))"
| "f_mul _ _ = FNaN"

text \<open>Division by zero raises \<open>ZeroDivisionError\<close>, which is \<open>None\<close>.\<close>

fun f_div :: "pyfloat \<Rightarrow> pyfloat \<Rightarrow> pyfloat option" where
  "f_div x (FFin y) = (if y = 0 then None
     else Some (case x of FFin a \<Rightarrow> f_round (a / y) | FInf s \<Rightarrow> FInf (s \<noteq> (y < 0)) | FNaN \<Rightarrow> FNaN))"
| "f_div x (FInf t) = Some (case x of FFin _ \<Rightarrow> FFin 0 | _ \<Rightarrow> FNaN)"
| "f_div x FNaN = Some FNaN"

fun f_less :: "pyfloat \<Rightarrow> pyfloat \<Rightarrow> bool" where
  "f_less (FFin x) (FFin y) = (x < y)"
| "f_less (FInf s) (FInf t) = (s \<and> \<not> t)"
| "f_less (FInf s) (FFin _) = s"
| "f_less (FFin _) (FInf t) = (\<not> t)"
| "f_less _ _ = False"

definition f_eq :: "pyfloat \<Rightarrow> pyfloat \<Rightarrow> bool" where
  "f_eq x y \<longleftrightarrow> x = y \<and> x \<noteq> FNaN"

definition f_le :: "pyfloat \<Rightarrow> pyfloat \<Rightarrow> bool" where
  "f_le x y \<longleftrightarrow> f_less x y \<or> f_eq x y"

declare f_grid_def [unfold_code] f_exact_def [unfold_code] f_limit_def [unfold_code]
  f_round_def [unfold_code] f_sub_def [unfold_code] f_eq_def [unfold_code] f_le_def [unfold_code]

lemma f_le_finite [simp]: "f_le (FFin x) (FFin y) \<longleftrightarrow> x \<le> y"
  by (auto simp: f_le_def f_eq_def)

lemma float_finite_iff: "float_finite x \<longleftrightarrow> (\<exists>v. x = FFin v)"
  by (cases x) auto

section \<open>Rounding is monotone and exact on representable values\<close>

lemma f_exact_minus: "f_exact (- x) = - f_exact x"
  by (simp add: f_exact_def f_grid_def on_grid_minus)

lemma on_grid_nonneg: "0 \<le> x \<Longrightarrow> 0 \<le> on_grid e x"
  using on_grid_mono[of 0 x e] on_grid_fixed[of e 0] by simp

lemma f_exact_pos_mono:
  assumes "0 < x" and "x \<le> y"
  shows "f_exact x \<le> f_exact y"
proof (cases "f_grid x = f_grid y")
  case True
  with assms show ?thesis by (simp add: f_exact_def on_grid_mono)
next
  case False
  let ?e = "f_grid x" and ?L = "lead_exp 2 x" and ?M = "lead_exp 2 y"
  have LM: "?L \<le> ?M" using assms by (rule lead_exp_mono)
  with False have M: "f_grid y = ?M - 52" "?L < ?M" "?e < ?M" and L: "?e \<le> ?M"
    by (auto simp: f_grid_def)
  have "x \<le> power_int 2 ?M"
  proof -
    have "x < power_int 2 (?L + 1)" using lead_exp_bounds(2)[of x 2] assms by simp
    also have "\<dots> \<le> power_int 2 ?M" using M(2) by (simp only: power_int_two_le)
    finally show ?thesis by simp
  qed
  then have "on_grid ?e x \<le> on_grid ?e (power_int 2 ?M)" by (rule on_grid_mono)
  also have "\<dots> = power_int 2 ?M" using L by (rule power_on_grid)
  also have "\<dots> = on_grid (f_grid y) (power_int 2 ?M)" using M(1) by (simp add: power_on_grid)
  also have "\<dots> \<le> on_grid (f_grid y) y"
    using lead_exp_bounds(1)[of y 2] assms by (intro on_grid_mono) simp
  finally show ?thesis using assms by (simp add: f_exact_def)
qed

lemma f_exact_nonneg: "0 \<le> x \<Longrightarrow> 0 \<le> f_exact x"
  by (simp add: f_exact_def on_grid_nonneg)

lemma f_exact_mono:
  assumes "x \<le> y"
  shows "f_exact x \<le> f_exact y"
proof -
  consider "0 < x" | "y < 0" | "x \<le> 0" "0 \<le> y" by linarith
  then show ?thesis
  proof cases
    case 1
    then show ?thesis using assms by (rule f_exact_pos_mono)
  next
    case 2
    then have "f_exact (- y) \<le> f_exact (- x)" using assms by (intro f_exact_pos_mono) auto
    then show ?thesis by (simp add: f_exact_minus)
  next
    case 3
    then have "0 \<le> f_exact (- x)" "0 \<le> f_exact y" by (simp_all add: f_exact_nonneg)
    then show ?thesis by (simp add: f_exact_minus)
  qed
qed

text \<open>The representable values: at most 53 significant bits, above the smallest subnormal.\<close>

definition representable :: "rat \<Rightarrow> bool" where
  "representable x \<longleftrightarrow> x = 0 \<or> on_grid (f_grid x) x = x"

lemma f_exact_representable: "representable x \<Longrightarrow> f_exact x = x"
  by (auto simp: representable_def f_exact_def)

lemma representable_grid:
  assumes x: "x = of_int k * power_int 2 e" and k: "\<bar>k\<bar> \<le> 2 ^ 53" and e: "- 1074 \<le> e"
  shows "representable x"
proof (cases "x = 0")
  case True
  then show ?thesis by (simp add: representable_def)
next
  case False
  then have "k \<noteq> 0" using x by auto
  show ?thesis
  proof (cases "f_grid x \<le> e")
    case True
    have "x = of_int (k * 2 ^ nat (e - f_grid x)) * power_int 2 (f_grid x)"
    proof -
      have "power_int (2::rat) e = power_int 2 (e - f_grid x) * power_int 2 (f_grid x)"
        by (simp add: power_int_add[symmetric])
      also have "power_int (2::rat) (e - f_grid x) = 2 ^ nat (e - f_grid x)"
        using True by (simp add: power_int_def)
      finally show ?thesis using x by simp
    qed
    then show ?thesis using on_grid_fixed unfolding representable_def by metis
  next
    case less: False
    have "power_int 2 (lead_exp 2 x) \<le> \<bar>x\<bar>" using lead_exp_bounds(1)[of x 2] False by simp
    also have "\<dots> = of_int \<bar>k\<bar> * power_int 2 e" by (simp add: x abs_mult)
    also have "\<dots> \<le> 2 ^ 53 * power_int 2 e"
    proof -
      have "of_int \<bar>k\<bar> \<le> (of_int (2 ^ 53) :: rat)" using k by (simp only: of_int_le_iff)
      then show ?thesis by (intro mult_right_mono) simp_all
    qed
    also have "\<dots> = power_int 2 (53 + e)" by (simp add: power_int_add)
    finally have le: "lead_exp 2 x \<le> 53 + e" by (simp only: power_int_two_le)
    with less e have eq: "lead_exp 2 x = 53 + e" "f_grid x = e + 1" by (auto simp: f_grid_def)
    have "2 ^ 53 * power_int 2 e = power_int (2::rat) (53 + e)" by (simp add: power_int_add)
    moreover have "power_int (2::rat) (53 + e) \<le> \<bar>x\<bar>"
      using lead_exp_bounds(1)[of x 2] False unfolding eq(1) by simp
    moreover have "\<bar>x\<bar> = of_int \<bar>k\<bar> * power_int 2 e" by (simp add: x abs_mult)
    ultimately have "2 ^ 53 * power_int 2 e \<le> of_int \<bar>k\<bar> * power_int (2::rat) e" by simp
    then have "(2::rat) ^ 53 \<le> of_int \<bar>k\<bar>" by (simp only: mult_le_cancel_right_pos power_int_two_pos)
    then have "2 ^ 53 \<le> \<bar>k\<bar>" by (metis of_int_le_iff of_int_numeral of_int_power)
    with k have "k = 2 ^ 53 \<or> k = - (2 ^ 53)" by linarith
    then have "x = of_int (if 0 < k then 2 ^ 52 else - (2 ^ 52)) * power_int 2 (f_grid x)"
      unfolding eq by (auto simp: x power_int_add)
    then show ?thesis using on_grid_fixed unfolding representable_def by metis
  qed
qed

lemma representable_int: "\<bar>k\<bar> \<le> 2 ^ 53 \<Longrightarrow> representable (of_int k)"
  using representable_grid[of "of_int k" k 0] by simp

lemma representable_half: "\<bar>k\<bar> \<le> 2 ^ 53 \<Longrightarrow> representable (of_int k / 2)"
  using representable_grid[of "of_int k / 2" k "- 1"] by (simp add: power_int_minus)

lemma f_round_representable:
  "representable x \<Longrightarrow> \<bar>x\<bar> < f_limit \<Longrightarrow> f_round x = FFin x"
  by (simp add: f_round_def f_exact_representable)

lemma f_round_finite_bounds:
  assumes "representable a" "representable b" "a \<le> x" "x \<le> b" "\<bar>a\<bar> < f_limit" "\<bar>b\<bar> < f_limit"
  shows "\<exists>y. f_round x = FFin y \<and> a \<le> y \<and> y \<le> b"
proof -
  have "a \<le> f_exact x" "f_exact x \<le> b"
    using f_exact_mono[OF assms(3)] f_exact_mono[OF assms(4)] assms(1,2) by (simp_all add: f_exact_representable)
  then show ?thesis using assms(5,6) by (auto simp: f_round_def Let_def)
qed

text \<open>Every Python float is an infinity, a NaN or a representable value within the limit.\<close>

fun is_float :: "pyfloat \<Rightarrow> bool" where
  "is_float (FFin v) = (representable v \<and> \<bar>v\<bar> < f_limit)"
| "is_float _ = True"

definition f_tiny :: int where "f_tiny = - 1074"

lemma f_grid_tiny: "f_tiny \<le> f_grid x"
  by (simp add: f_grid_def f_tiny_def)

lemma finer_grid:
  assumes "d \<le> e"
  shows "power_int (2::rat) e = of_int (2 ^ nat (e - d)) * power_int 2 d"
proof -
  have "power_int (2::rat) e = power_int 2 (e - d) * power_int 2 d"
    by (simp add: power_int_add[symmetric])
  also have "power_int (2::rat) (e - d) = of_int (2 ^ nat (e - d))"
    using assms by (simp add: power_int_def)
  finally show ?thesis .
qed

lemma representable_multiple:
  assumes "representable v"
  shows "\<exists>k. v = of_int k * power_int 2 f_tiny"
proof (cases "v = 0")
  case True
  then show ?thesis by (intro exI[of _ 0]) simp
next
  case False
  define e k where "e = f_grid v" and "k = round_half_even (v / power_int 2 e)"
  have "v = of_int k * power_int 2 e"
    using assms False by (simp add: representable_def on_grid_def e_def k_def)
  also have "power_int (2::rat) e = of_int (2 ^ nat (e - f_tiny)) * power_int 2 f_tiny"
    unfolding e_def by (intro finer_grid f_grid_tiny)
  finally have "v = of_int (k * 2 ^ nat (e - f_tiny)) * power_int 2 f_tiny" by simp
  then show ?thesis by blast
qed

text \<open>The difference of two different floats is not rounded to zero.\<close>

lemma f_sub_nonzero:
  assumes "representable a" "representable b" "b < a"
  shows "f_sub (FFin a) (FFin b) \<noteq> FFin 0" "f_sub (FFin a) (FFin b) \<noteq> FNaN"
proof -
  let ?u = "power_int (2::rat) f_tiny"
  obtain j k where jk: "a = of_int j * ?u" "b = of_int k * ?u"
    using assms representable_multiple by blast
  have diff: "a - b = of_int (j - k) * ?u" by (simp add: jk algebra_simps)
  have "0 < of_int (j - k) * ?u" using assms(3) unfolding diff[symmetric] by simp
  then have "0 < (of_int (j - k) :: rat)" by (rule zero_less_mult_pos2) simp
  then have "1 \<le> j - k" by simp
  then have "(1::rat) \<le> of_int (j - k)" by (simp only: of_int_1_le_iff)
  then have "1 * ?u \<le> of_int (j - k) * ?u" by (intro mult_right_mono) simp_all
  then have "f_exact ?u \<le> f_exact (a - b)" unfolding diff by (intro f_exact_mono) simp
  moreover have "representable ?u"
    using representable_grid[of ?u 1 f_tiny] by (simp add: f_tiny_def del: power_int_minus)
  ultimately have "0 < f_exact (a - b)"
    using f_exact_representable power_int_two_pos[of f_tiny] by (metis less_le_trans)
  then show "f_sub (FFin a) (FFin b) \<noteq> FFin 0" "f_sub (FFin a) (FFin b) \<noteq> FNaN"
    by (auto simp: f_sub_def f_round_def Let_def)
qed

lemma f_sub_distinct:
  assumes "representable a" "representable b" "a \<noteq> b"
  shows "f_sub (FFin a) (FFin b) \<noteq> FFin 0"
proof (cases "b < a")
  case True
  then show ?thesis using f_sub_nonzero assms by blast
next
  case False
  then have "f_sub (FFin b) (FFin a) \<noteq> FFin 0" using f_sub_nonzero(1)[of b a] assms by auto
  then have "f_exact (b - a) \<noteq> 0" by (auto simp: f_sub_def f_round_def Let_def f_limit_def)
  then have "f_exact (a - b) \<noteq> 0" using f_exact_minus[of "b - a"] by simp
  then show ?thesis by (auto simp: f_sub_def f_round_def Let_def)
qed

end
