(* ===== verification/Market_Models.thy ===== *)
theory Market_Models
  imports Py_Float "HOL-Library.AList" "HOL-Library.List_Lexorder" "HOL-Library.Char_ord"
    "HOL-Library.Product_Lexorder"
begin

text \<open>
  The shared data of the market collector (\<open>models.py\<close>): venues, JSON payloads, catalog
  instruments and batches, the two definition hashes and \<open>quantity_normalizable\<close>.  A JSON object
  is an association list with distinct keys in insertion order, as a Python dict is.
\<close>

section \<open>Venues\<close>

datatype venue = Bitget | Hyperliquid | Aster | Mexc

fun venue_text :: "venue \<Rightarrow> string" where
  "venue_text Bitget = ''bitget''"
| "venue_text Hyperliquid = ''hyperliquid''"
| "venue_text Aster = ''aster''"
| "venue_text Mexc = ''mexc''"

definition supported_venues :: "venue list" where
  "supported_venues = [Bitget, Hyperliquid, Aster, Mexc]"

text \<open>Venues are compared by their text, as the strings of the source are.\<close>

instantiation venue :: linorder
begin

definition less_eq_venue :: "venue \<Rightarrow> venue \<Rightarrow> bool" where
  "less_eq_venue a b \<longleftrightarrow> venue_text a \<le> venue_text b"

definition less_venue :: "venue \<Rightarrow> venue \<Rightarrow> bool" where
  "less_venue a b \<longleftrightarrow> venue_text a < venue_text b"

instance
proof
  fix a b :: venue
  assume "a \<le> b" and "b \<le> a"
  then have "venue_text a = venue_text b" by (simp add: less_eq_venue_def)
  then show "a = b" by (cases a; cases b) simp_all
qed (auto simp: less_eq_venue_def less_venue_def)

end

lemma venue_text_inject [simp]: "venue_text a = venue_text b \<longleftrightarrow> a = b"
  by (cases a; cases b) simp_all

lemma venue_text_no_colon: "CHR '':'' \<notin> set (venue_text v)"
  by (cases v) simp_all

definition venue_instrument_id :: "venue \<Rightarrow> string \<Rightarrow> string" where
  "venue_instrument_id v s = venue_text v @ '':'' @ s"

lemma append_sep_inject:
  assumes "c \<notin> set xs" and "c \<notin> set ys"
  shows "xs @ c # us = ys @ c # vs \<longleftrightarrow> xs = ys \<and> us = vs"
  using assms
proof (induction xs arbitrary: ys)
  case Nil
  then show ?case by (cases ys) auto
next
  case (Cons x xs)
  then show ?case by (cases ys) auto
qed

lemma venue_instrument_id_inject [simp]:
  "venue_instrument_id v s = venue_instrument_id w t \<longleftrightarrow> v = w \<and> s = t"
  using append_sep_inject[OF venue_text_no_colon venue_text_no_colon, of v s w t]
  by (simp add: venue_instrument_id_def)

section \<open>JSON\<close>

datatype json =
    JNull
  | JBool bool
  | JInt int
  | JFloat pyfloat
  | JStr string
  | JList "json list"
  | JObj "(string \<times> json) list"

text \<open>
  \<open>json.dumps(..., allow_nan=False, sort_keys=True)\<close> depends on the value with the keys of every
  object sorted and refuses non-finite floats.  \<open>sha\<close> is SHA-256 of the compact text of such a
  value; the model takes it as an argument.
\<close>

fun sort_keys :: "json \<Rightarrow> json" where
  "sort_keys (JList xs) = JList (map sort_keys xs)"
| "sort_keys (JObj kvs) = JObj (sort_key fst (map (\<lambda>(k, v). (k, sort_keys v)) kvs))"
| "sort_keys j = j"

fun json_finite :: "json \<Rightarrow> bool" where
  "json_finite (JFloat f) = float_finite f"
| "json_finite (JList xs) = list_all json_finite xs"
| "json_finite (JObj kvs) = list_all (\<lambda>(_, v). json_finite v) kvs"
| "json_finite _ = True"

definition canonical_json_sha256 :: "(json \<Rightarrow> string) \<Rightarrow> json \<Rightarrow> string result" where
  "canonical_json_sha256 sha j =
     (if json_finite j then Inr (sha (sort_keys j))
      else raise_exn ValueError ''Out of range float values are not JSON compliant'')"

definition json_get :: "(string \<times> json) list \<Rightarrow> string \<Rightarrow> json" where
  "json_get kvs k = (case map_of kvs k of None \<Rightarrow> JNull | Some v \<Rightarrow> v)"

declare canonical_json_sha256_def [unfold_code] json_get_def [unfold_code]

section \<open>Catalog records\<close>

datatype quantity_unit = UnitBase | UnitContracts | UnitUnknown

fun unit_text :: "quantity_unit \<Rightarrow> string" where
  "unit_text UnitBase = ''base''"
| "unit_text UnitContracts = ''contracts''"
| "unit_text UnitUnknown = ''unknown''"

record instrument =
  ci_venue :: venue
  ci_symbol :: string
  ci_active :: bool
  ci_status :: string
  ci_asset_class :: string
  ci_market_type :: string
  ci_execution_model :: string
  ci_base :: string
  ci_quote :: string
  ci_settle :: string
  ci_collateral :: "string option"
  ci_unit :: quantity_unit
  ci_multiplier :: "pydec option"
  ci_price_tick :: "pydec option"
  ci_amount_step :: "pydec option"
  ci_funding_interval :: "int option"
  ci_raw :: "(string \<times> json) list"

definition instrument_id :: "instrument \<Rightarrow> string" where
  "instrument_id i = venue_instrument_id (ci_venue i) (ci_symbol i)"

definition decimal_text :: "pydec option \<Rightarrow> json" where
  "decimal_text d = (case d of None \<Rightarrow> JNull | Some x \<Rightarrow> JStr (format_f x))"

definition definition_json :: "instrument \<Rightarrow> json" where
  "definition_json i = JObj
     [(''active'', JBool (ci_active i)),
      (''amountStep'', decimal_text (ci_amount_step i)),
      (''assetClass'', JStr (ci_asset_class i)),
      (''baseAsset'', JStr (ci_base i)),
      (''collateralAsset'', (case ci_collateral i of None \<Rightarrow> JNull | Some c \<Rightarrow> JStr c)),
      (''contractMultiplier'', decimal_text (ci_multiplier i)),
      (''executionModel'', JStr (ci_execution_model i)),
      (''fundingIntervalSeconds'', (case ci_funding_interval i of None \<Rightarrow> JNull | Some n \<Rightarrow> JInt n)),
      (''marketType'', JStr (ci_market_type i)),
      (''priceTick'', decimal_text (ci_price_tick i)),
      (''quantityUnit'', JStr (unit_text (ci_unit i))),
      (''quoteAsset'', JStr (ci_quote i)),
      (''rawDefinition'', JObj (ci_raw i)),
      (''settleAsset'', JStr (ci_settle i)),
      (''sourceStatus'', JStr (ci_status i)),
      (''sourceSymbol'', JStr (ci_symbol i)),
      (''venue'', JStr (venue_text (ci_venue i)))]"

definition definition_sha256 :: "(json \<Rightarrow> string) \<Rightarrow> instrument \<Rightarrow> string result" where
  "definition_sha256 sha i = canonical_json_sha256 sha (definition_json i)"

declare instrument_id_def [unfold_code] decimal_text_def [unfold_code]
  definition_json_def [unfold_code] definition_sha256_def [unfold_code]

section \<open>The semantic hash\<close>

definition bitget_ignored :: "string list" where
  "bitget_ignored = [''maxOrderQty'', ''maxMarketOrderQty'', ''posLimit'']"

definition mexc_ignored :: "string list" where
  "mexc_ignored =
     [''displayName'', ''displayNameEn'', ''fn'', ''baseCoinIconUrl'', ''isHot'', ''makerFeeRate'',
      ''takerFeeRate'', ''liquidationFeeRate'', ''feeRateMode'', ''feeRateType'', ''leverageFeeRates'',
      ''tieredFeeRates'', ''isZeroFeeRate'', ''isZeroFeeSymbol'', ''minLeverage'', ''maxLeverage'',
      ''countryConfigContractMaxLeverage'', ''regularMaxLeverage'', ''isMaxLeverage'',
      ''tempMaxLeverageLimited'', ''maxVol'', ''limitMaxVol'', ''riskBaseVol'', ''riskIncrVol'']"

fun positive_int :: "json \<Rightarrow> bool" where
  "positive_int (JInt n) = (0 < n)"
| "positive_int _ = False"

definition ignored_fields :: "venue \<Rightarrow> (string \<times> json) list \<Rightarrow> string list" where
  "ignored_fields v raw =
     (case v of
        Bitget \<Rightarrow> bitget_ignored
      | Aster \<Rightarrow>
          (if json_get raw ''contractType'' = JStr ''PERPETUAL'' \<and> positive_int (json_get raw ''onboardDate'')
           then [''createTime''] else [])
      | Mexc \<Rightarrow> mexc_ignored
      | Hyperliquid \<Rightarrow> [])"

fun nonnegative_int :: "json \<Rightarrow> bool" where
  "nonnegative_int (JInt n) = (0 \<le> n)"
| "nonnegative_int _ = False"

fun finite_cap :: "json \<Rightarrow> bool" where
  "finite_cap (JInt n) = (0 \<le> n)"
| "finite_cap (JFloat (FFin r)) = (0 \<le> r)"
| "finite_cap _ = False"

fun project_tier :: "json \<Rightarrow> json" where
  "project_tier (JObj kvs) =
     JObj (if finite_cap (json_get kvs ''maxVol'') then AList.update ''maxVol'' (JInt 0) kvs else kvs)"
| "project_tier j = j"

definition project_tags :: "venue \<Rightarrow> (string \<times> json) list \<Rightarrow> (string \<times> json) list" where
  "project_tags v raw =
     (case json_get raw ''tagIdList'' of
        JList tags \<Rightarrow> (if v = Mexc \<and> list_all nonnegative_int tags
                      then AList.update ''tagIdList'' (JList []) raw else raw)
      | _ \<Rightarrow> raw)"

definition project_tiers :: "venue \<Rightarrow> (string \<times> json) list \<Rightarrow> (string \<times> json) list" where
  "project_tiers v raw =
     (case json_get raw ''riskLimitCustom'' of
        JList tiers \<Rightarrow> (if v = Mexc then AList.update ''riskLimitCustom'' (JList (map project_tier tiers)) raw
                       else raw)
      | _ \<Rightarrow> raw)"

definition semantic_raw :: "venue \<Rightarrow> (string \<times> json) list \<Rightarrow> (string \<times> json) list" where
  "semantic_raw v raw =
     (let kept = filter (\<lambda>(name, _). name \<notin> set (ignored_fields v raw)) raw
      in project_tiers v (project_tags v kept))"

definition semantic_definition_sha256 :: "(json \<Rightarrow> string) \<Rightarrow> instrument \<Rightarrow> string result" where
  "semantic_definition_sha256 sha i =
     definition_sha256 sha (i\<lparr>ci_raw := semantic_raw (ci_venue i) (ci_raw i)\<rparr>)"

section \<open>Quantity normalisation\<close>

definition quantity_normalizable :: "instrument \<Rightarrow> bool" where
  "quantity_normalizable i =
     (if ci_venue i \<noteq> Mexc then
        ci_unit i = UnitBase \<and> (case ci_multiplier i of None \<Rightarrow> False | Some m \<Rightarrow> dec_eq m dec_one)
      else
        ci_unit i = UnitContracts
        \<and> (case ci_multiplier i of None \<Rightarrow> False
           | Some m \<Rightarrow>
               dec_finite m \<and> 0 < dval m
               \<and> (case json_get (ci_raw i) ''watchdeckQuantityEvidence'' of
                    JObj ev \<Rightarrow> json_get ev ''base_per_contract'' = JStr (format_f m)
                  | _ \<Rightarrow> False)
               \<and> (case json_get (ci_raw i) ''watchdeckIdentityEvidence'' of
                    JObj idn \<Rightarrow>
                      json_get idn ''base_asset'' = JStr (ci_base i)
                      \<and> json_get idn ''price_unit'' = JStr ''quote_per_base''
                      \<and> json_get idn ''identity_price_multiplier'' = JStr ''1''
                  | _ \<Rightarrow> False)))"

declare bitget_ignored_def [unfold_code] mexc_ignored_def [unfold_code] ignored_fields_def [unfold_code]
  project_tags_def [unfold_code] project_tiers_def [unfold_code] semantic_raw_def [unfold_code]
  semantic_definition_sha256_def [unfold_code] quantity_normalizable_def [unfold_code]

section \<open>Lemmas on the semantic definition\<close>

lemma json_get_update: "json_get (AList.update k v kvs) k' = (if k' = k then v else json_get kvs k')"
  by (simp add: json_get_def AList.update_conv')

lemma json_get_filter:
  "json_get (filter (\<lambda>(n, _). n \<notin> set ns) raw) k = (if k \<in> set ns then JNull else json_get raw k)"
  by (induction raw) (auto simp: json_get_def)

lemma project_tier_idem [simp]: "project_tier (project_tier t) = project_tier t"
  by (cases t) (auto simp: json_get_update AList.update_conv' AList.update_nonempty
      intro: AList.update_swap)

lemma map_of_filter_names: "map_of (filter (\<lambda>(n, _). P n) kvs) k = (if P k then map_of kvs k else None)"
  by (induction kvs) auto

lemma json_get_project_tags: "k \<noteq> ''tagIdList'' \<Longrightarrow> json_get (project_tags v raw) k = json_get raw k"
  by (simp add: project_tags_def json_get_update split: json.split)

lemma json_get_project_tiers: "k \<noteq> ''riskLimitCustom'' \<Longrightarrow> json_get (project_tiers v raw) k = json_get raw k"
  by (simp add: project_tiers_def json_get_update split: json.split)

lemma ignored_fields_cong:
  assumes "\<And>k. k = ''contractType'' \<or> k = ''onboardDate'' \<Longrightarrow> json_get raw' k = json_get raw k"
  shows "ignored_fields v raw' = ignored_fields v raw"
  using assms[of "''contractType''"] assms[of "''onboardDate''"]
  by (cases v) (simp_all add: ignored_fields_def)

lemma ignored_fields_not_listing:
  "v = Aster \<Longrightarrow> ''contractType'' \<notin> set (ignored_fields v raw)"
  "v = Aster \<Longrightarrow> ''onboardDate'' \<notin> set (ignored_fields v raw)"
  by (simp_all add: ignored_fields_def)

lemma ignored_fields_other: "v \<noteq> Aster \<Longrightarrow> ignored_fields v raw = ignored_fields v raw'"
  by (cases v) (simp_all add: ignored_fields_def)

lemma filter_update_removed:
  "\<not> P k \<Longrightarrow> filter (\<lambda>(n, _). P n) (AList.update k x kvs) = filter (\<lambda>(n, _). P n) kvs"
  by (induction kvs) auto

lemma ignored_fields_update:
  assumes "k \<in> set (ignored_fields v raw)"
  shows "ignored_fields v (AList.update k x raw) = ignored_fields v raw"
proof (cases "v = Aster")
  case True
  with assms have "k = ''createTime''" by (auto simp: ignored_fields_def split: if_splits)
  then show ?thesis by (intro ignored_fields_cong) (auto simp: json_get_update)
next
  case False
  then show ?thesis by (rule ignored_fields_other)
qed

lemma semantic_raw_update:
  "k \<in> set (ignored_fields v raw) \<Longrightarrow> semantic_raw v (AList.update k x raw) = semantic_raw v raw"
  by (simp add: semantic_raw_def ignored_fields_update filter_update_removed)

lemma definition_json_inject:
  assumes "sort_keys (definition_json i) = sort_keys (definition_json j)"
  shows "ci_venue i = ci_venue j" "ci_symbol i = ci_symbol j" "ci_active i = ci_active j"
    "ci_status i = ci_status j" "ci_asset_class i = ci_asset_class j"
    "ci_market_type i = ci_market_type j" "ci_execution_model i = ci_execution_model j"
    "ci_base i = ci_base j" "ci_quote i = ci_quote j" "ci_settle i = ci_settle j"
    "ci_collateral i = ci_collateral j" "unit_text (ci_unit i) = unit_text (ci_unit j)"
    "decimal_text (ci_multiplier i) = decimal_text (ci_multiplier j)"
    "decimal_text (ci_price_tick i) = decimal_text (ci_price_tick j)"
    "decimal_text (ci_amount_step i) = decimal_text (ci_amount_step j)"
    "ci_funding_interval i = ci_funding_interval j"
    "sort_keys (JObj (ci_raw i)) = sort_keys (JObj (ci_raw j))"
proof -
  have sorted_fields: "sort_keys (definition_json k) = JObj (map (\<lambda>(n, v). (n, sort_keys v)) (case definition_json k of JObj kvs \<Rightarrow> kvs))" for k
    by (simp add: definition_json_def sort_key_sorted)
  have eq: "map (\<lambda>(n, v). (n, sort_keys v)) (case definition_json i of JObj kvs \<Rightarrow> kvs)
      = map (\<lambda>(n, v). (n, sort_keys v)) (case definition_json j of JObj kvs \<Rightarrow> kvs)"
    using assms unfolding sorted_fields by simp
  note fields = eq[unfolded definition_json_def json.case list.map prod.case list.inject prod.inject]
  show "ci_venue i = ci_venue j" "ci_symbol i = ci_symbol j" "ci_active i = ci_active j"
    "ci_status i = ci_status j" "ci_asset_class i = ci_asset_class j"
    "ci_market_type i = ci_market_type j" "ci_execution_model i = ci_execution_model j"
    "ci_base i = ci_base j" "ci_quote i = ci_quote j" "ci_settle i = ci_settle j"
    "unit_text (ci_unit i) = unit_text (ci_unit j)"
    "sort_keys (JObj (ci_raw i)) = sort_keys (JObj (ci_raw j))"
    using fields by simp_all
  show "ci_collateral i = ci_collateral j"
    using fields by (auto split: option.splits)
  show "ci_funding_interval i = ci_funding_interval j"
    using fields by (auto split: option.splits)
  have plain: "sort_keys (decimal_text d) = decimal_text d" for d
    by (simp add: decimal_text_def split: option.split)
  show "decimal_text (ci_multiplier i) = decimal_text (ci_multiplier j)"
    "decimal_text (ci_price_tick i) = decimal_text (ci_price_tick j)"
    "decimal_text (ci_amount_step i) = decimal_text (ci_amount_step j)"
    using fields by (simp_all add: plain)
qed

lemma unit_text_inject [simp]: "unit_text a = unit_text b \<longleftrightarrow> a = b"
  by (cases a; cases b) simp_all

definition semantic_json :: "instrument \<Rightarrow> json" where
  "semantic_json i = sort_keys (definition_json (i\<lparr>ci_raw := semantic_raw (ci_venue i) (ci_raw i)\<rparr>))"

lemma semantic_sha_json:
  "semantic_definition_sha256 sha i = Inr h \<Longrightarrow> h = sha (semantic_json i)"
  by (auto simp: semantic_definition_sha256_def definition_sha256_def canonical_json_sha256_def
      semantic_json_def raise_exn_def split: if_splits)

section \<open>Properties\<close>

text \<open>
  A change of a field that the venue declares as non-contract metadata, or its appearance, leaves
  the semantic hash of the instrument as it was; so it opens no new catalog version.
\<close>

theorem semantic_hash_ignores_metadata:
  assumes "k \<in> set (ignored_fields (ci_venue i) (ci_raw i))"
  shows "semantic_definition_sha256 sha (i\<lparr>ci_raw := AList.update k x (ci_raw i)\<rparr>)
       = semantic_definition_sha256 sha i"
  using semantic_raw_update[OF assms, of x] by (simp add: semantic_definition_sha256_def)

definition sample_instrument :: instrument where
  "sample_instrument = \<lparr>ci_venue = Mexc, ci_symbol = ''BTC_USDT'', ci_active = True, ci_status = ''0'',
     ci_asset_class = ''crypto'', ci_market_type = ''linear_perpetual'', ci_execution_model = ''clob'',
     ci_base = ''BTC'', ci_quote = ''USDT'', ci_settle = ''USDT'', ci_collateral = None,
     ci_unit = UnitContracts, ci_multiplier = Some (DFin False 1 (-4)), ci_price_tick = None,
     ci_amount_step = None, ci_funding_interval = Some 28800,
     ci_raw = [(''maxVol'', JInt 10), (''tagIdList'', JList [JInt 3])]\<rparr>"

lemma semantic_hash_ignores_metadata_witness:
  "semantic_definition_sha256 (\<lambda>_. ''h'')
     (sample_instrument\<lparr>ci_raw := AList.update ''maxVol'' (JInt 99) (ci_raw sample_instrument)\<rparr>)
   = semantic_definition_sha256 (\<lambda>_. ''h'') sample_instrument"
  by (rule semantic_hash_ignores_metadata) code_simp

text \<open>
  Every other difference separates versions: when two instruments have the same semantic hash
  (and SHA-256 does not collide on their two texts), all their normalised fields agree, decimals as
  texts, and so do their projected raw definitions up to the order of keys.
\<close>

theorem semantic_hash_separates:
  assumes "semantic_definition_sha256 sha i = Inr h" and "semantic_definition_sha256 sha j = Inr h"
    and collision_free: "sha (semantic_json i) = sha (semantic_json j) \<Longrightarrow> semantic_json i = semantic_json j"
  shows "ci_venue i = ci_venue j \<and> ci_symbol i = ci_symbol j \<and> ci_active i = ci_active j
       \<and> ci_status i = ci_status j \<and> ci_base i = ci_base j \<and> ci_quote i = ci_quote j
       \<and> ci_settle i = ci_settle j \<and> ci_collateral i = ci_collateral j \<and> ci_unit i = ci_unit j
       \<and> ci_market_type i = ci_market_type j \<and> ci_asset_class i = ci_asset_class j
       \<and> ci_execution_model i = ci_execution_model j
       \<and> ci_funding_interval i = ci_funding_interval j
       \<and> decimal_text (ci_multiplier i) = decimal_text (ci_multiplier j)
       \<and> decimal_text (ci_price_tick i) = decimal_text (ci_price_tick j)
       \<and> decimal_text (ci_amount_step i) = decimal_text (ci_amount_step j)
       \<and> sort_keys (JObj (semantic_raw (ci_venue i) (ci_raw i)))
           = sort_keys (JObj (semantic_raw (ci_venue j) (ci_raw j)))"
proof -
  have "semantic_json i = semantic_json j"
    by (rule collision_free) (use semantic_sha_json[OF assms(1)] semantic_sha_json[OF assms(2)] in simp)
  from definition_json_inject[OF this[unfolded semantic_json_def]] show ?thesis by simp
qed

lemma semantic_hash_separates_witness:
  "semantic_definition_sha256 (\<lambda>_. ''h'') sample_instrument = Inr ''h''
   \<and> ci_base (sample_instrument\<lparr>ci_raw := [(''tagIdList'', JList [])]\<rparr>) = ci_base sample_instrument"
proof -
  let ?j = "sample_instrument\<lparr>ci_raw := [(''tagIdList'', JList [])]\<rparr>"
  have i: "semantic_definition_sha256 (\<lambda>_. ''h'') sample_instrument = Inr ''h''" by code_simp
  have j: "semantic_definition_sha256 (\<lambda>_. ''h'') ?j = Inr ''h''" by code_simp
  have "semantic_json ?j = semantic_json sample_instrument" by code_simp
  then have "ci_base ?j = ci_base sample_instrument"
    using semantic_hash_separates[OF j i] by simp
  with i show ?thesis by simp
qed

end
