(* ===== verification/Market_Identity.thy ===== *)
theory Market_Identity
  imports Market_Models
begin

text \<open>
  Conservative identity resolution (\<open>identity.py\<close>): which catalog instruments may be compared
  across venues.  \<open>resolve_market_groups\<close> gives one resolution per instrument, in order.
\<close>

section \<open>Resolution\<close>

datatype mapping_method = ExactBaseHeuristic | VerifiedNativeContract

datatype unmapped_reason =
    Inactive
  | AssetClassNotCrypto
  | MarketTypeNotLinearPerpetual
  | BaseAssetMissing
  | AliasRequired
  | QuantityUnitUnknown
  | QuantityUnitNotBase
  | ContractMultiplierUnknown
  | ContractMultiplierNotOne
  | SameVenueCollision

record identity_resolution =
  ir_id :: string
  ir_group :: "string option"
  ir_method :: "mapping_method option"
  ir_reason :: "unmapped_reason option"

definition native_only_identity :: "instrument \<Rightarrow> bool" where
  "native_only_identity i \<longleftrightarrow>
     ci_venue i = Mexc
     \<and> (case json_get (ci_raw i) ''watchdeckIdentityEvidence'' of
          JObj ev \<Rightarrow> json_get ev ''identity_scope'' = JStr ''native_only''
        | _ \<Rightarrow> False)"

definition individual_unmapped_reason :: "instrument \<Rightarrow> unmapped_reason option" where
  "individual_unmapped_reason i =
     (if \<not> ci_active i then Some Inactive
      else if ci_asset_class i \<noteq> ''crypto'' then Some AssetClassNotCrypto
      else if ci_market_type i \<noteq> ''linear_perpetual'' then Some MarketTypeNotLinearPerpetual
      else if ci_base i = [] then Some BaseAssetMissing
      else if json_get (ci_raw i) ''identity_alias_required'' = JBool True then Some AliasRequired
      else if ci_venue i = Mexc \<and> quantity_normalizable i then None
      else if ci_unit i = UnitUnknown then Some QuantityUnitUnknown
      else if ci_unit i \<noteq> UnitBase then Some QuantityUnitNotBase
      else (case ci_multiplier i of
              None \<Rightarrow> Some ContractMultiplierUnknown
            | Some m \<Rightarrow> if \<not> dec_eq m dec_one then Some ContractMultiplierNotOne else None))"

definition base_collides :: "instrument list \<Rightarrow> string \<Rightarrow> bool" where
  "base_collides ordered base \<longleftrightarrow>
     (\<exists>v\<in>set supported_venues.
        1 < length (filter (\<lambda>i. individual_unmapped_reason i = None \<and> \<not> native_only_identity i
                                \<and> ci_base i = base \<and> ci_venue i = v) ordered))"

definition group_text :: "instrument \<Rightarrow> string" where
  "group_text i =
     (if native_only_identity i then ''native:'' @ instrument_id i @ '':linear-perp''
      else ''crypto:'' @ ci_base i @ '':linear-perp'')"

definition resolve_one :: "instrument list \<Rightarrow> instrument \<Rightarrow> identity_resolution" where
  "resolve_one ordered i =
     (let native = native_only_identity i;
          reason = (case individual_unmapped_reason i of
                      Some r \<Rightarrow> Some r
                    | None \<Rightarrow> if \<not> native \<and> base_collides ordered (ci_base i)
                              then Some SameVenueCollision else None)
      in (case reason of
            Some r \<Rightarrow> \<lparr>ir_id = instrument_id i, ir_group = None, ir_method = None, ir_reason = Some r\<rparr>
          | None \<Rightarrow> \<lparr>ir_id = instrument_id i, ir_group = Some (group_text i),
                     ir_method = Some (if ci_venue i = Mexc then VerifiedNativeContract
                                       else ExactBaseHeuristic),
                     ir_reason = None\<rparr>))"

definition resolve_market_groups :: "instrument list \<Rightarrow> identity_resolution list" where
  "resolve_market_groups instruments = map (resolve_one instruments) instruments"

declare native_only_identity_def [unfold_code] individual_unmapped_reason_def [unfold_code]
  base_collides_def [unfold_code] group_text_def [unfold_code] resolve_one_def [unfold_code]
  resolve_market_groups_def [unfold_code]

section \<open>Lemmas\<close>

lemma group_text_inject:
  assumes "group_text i = group_text j"
  shows "native_only_identity i = native_only_identity j
       \<and> (native_only_identity i \<longrightarrow> instrument_id i = instrument_id j)
       \<and> (\<not> native_only_identity i \<longrightarrow> ci_base i = ci_base j)"
  using assms by (auto simp: group_text_def split: if_splits)

lemma resolve_one_group:
  assumes "ir_group (resolve_one ordered i) = Some g"
  shows "g = group_text i" "individual_unmapped_reason i = None"
    "\<not> native_only_identity i \<Longrightarrow> \<not> base_collides ordered (ci_base i)"
  using assms by (auto simp: resolve_one_def Let_def split: option.splits if_splits)

lemma set_supported_venues: "v \<in> set supported_venues"
  by (cases v) (simp_all add: supported_venues_def)

lemma two_positions_filter:
  assumes "a < b" and "b < length xs" and "P (xs ! a)" and "P (xs ! b)"
  shows "1 < length (filter P xs)"
proof -
  have split: "xs = take b xs @ xs ! b # drop (Suc b) xs" using assms(2) by (rule id_take_nth_drop)
  have "xs ! a \<in> set (take b xs)" using assms(1,2) by (metis in_set_conv_nth length_take min.absorb4 nth_take)
  then have "0 < length (filter P (take b xs))" using assms(3) by (auto simp: filter_empty_conv)
  then show ?thesis using assms(4) by (subst split) simp
qed

lemma not_collides_unique:
  assumes "\<not> base_collides ordered base" and "a < b" and "b < length ordered"
    and "\<And>k. k = a \<or> k = b \<Longrightarrow> individual_unmapped_reason (ordered ! k) = None
           \<and> \<not> native_only_identity (ordered ! k) \<and> ci_base (ordered ! k) = base"
  shows "ci_venue (ordered ! a) \<noteq> ci_venue (ordered ! b)"
proof
  assume same: "ci_venue (ordered ! a) = ci_venue (ordered ! b)"
  let ?P = "\<lambda>i. individual_unmapped_reason i = None \<and> \<not> native_only_identity i
     \<and> ci_base i = base \<and> ci_venue i = ci_venue (ordered ! b)"
  have "1 < length (filter ?P ordered)"
    by (rule two_positions_filter[OF assms(2,3)]) (use assms(4)[of a] assms(4)[of b] same in auto)
  with assms(1) set_supported_venues[of "ci_venue (ordered ! b)"] show False
    unfolding base_collides_def by blast
qed

lemma individual_reason_none:
  assumes "individual_unmapped_reason i = None"
  shows "ci_active i" "ci_asset_class i = ''crypto''" "ci_market_type i = ''linear_perpetual''" "ci_base i \<noteq> []"
    "quantity_normalizable i \<or> ci_venue i = Mexc \<and> ci_unit i = UnitBase
       \<and> (\<exists>m. ci_multiplier i = Some m \<and> dec_eq m dec_one)"
  using assms
  by (auto simp: individual_unmapped_reason_def quantity_normalizable_def split: if_splits option.splits)

section \<open>Properties\<close>

text \<open>
  C32. A group never mixes two instruments of one venue: when two entries of a catalog whose
  instrument ids are distinct resolve to the same group, they are on different venues and have the
  same base asset.
\<close>

theorem group_one_instrument_per_venue:
  assumes "distinct (map instrument_id ordered)" and "a < b" and "b < length ordered"
    and "ir_group (resolve_market_groups ordered ! a) = Some g"
    and "ir_group (resolve_market_groups ordered ! b) = Some g"
  shows "ci_venue (ordered ! a) \<noteq> ci_venue (ordered ! b) \<and> ci_base (ordered ! a) = ci_base (ordered ! b)"
proof -
  let ?i = "ordered ! a" and ?j = "ordered ! b"
  have ra: "ir_group (resolve_one ordered ?i) = Some g" and rb: "ir_group (resolve_one ordered ?j) = Some g"
    using assms by (simp_all add: resolve_market_groups_def)
  have same: "group_text ?i = group_text ?j" using resolve_one_group(1)[OF ra] resolve_one_group(1)[OF rb] by simp
  have ids: "instrument_id ?i \<noteq> instrument_id ?j"
    using assms(1-3) by (auto simp: distinct_conv_nth)
  have crypto: "\<not> native_only_identity ?i" "\<not> native_only_identity ?j" and base: "ci_base ?i = ci_base ?j"
    using group_text_inject[OF same] ids by auto
  have "ci_venue ?i \<noteq> ci_venue ?j"
    by (rule not_collides_unique[OF resolve_one_group(3)[OF ra crypto(1)] assms(2,3)])
       (use crypto base resolve_one_group(2)[OF ra] resolve_one_group(2)[OF rb] in auto)
  with base show ?thesis by simp
qed

definition bitget_btc :: instrument where
  "bitget_btc = sample_instrument\<lparr>ci_venue := Bitget, ci_symbol := ''BTCUSDT'', ci_unit := UnitBase,
     ci_multiplier := Some dec_one, ci_raw := []\<rparr>"

lemma group_one_instrument_per_venue_witness:
  "ir_group (resolve_market_groups [bitget_btc, bitget_btc\<lparr>ci_venue := Aster\<rparr>] ! 1) = Some ''crypto:BTC:linear-perp''
   \<and> ci_venue bitget_btc \<noteq> ci_venue (bitget_btc\<lparr>ci_venue := Aster\<rparr>)"
proof -
  let ?xs = "[bitget_btc, bitget_btc\<lparr>ci_venue := Aster\<rparr>]"
  have d: "distinct (map instrument_id ?xs)" by code_simp
  have a: "ir_group (resolve_market_groups ?xs ! 0) = Some ''crypto:BTC:linear-perp''" by code_simp
  have b: "ir_group (resolve_market_groups ?xs ! 1) = Some ''crypto:BTC:linear-perp''" by code_simp
  show ?thesis using group_one_instrument_per_venue[OF d _ _ a b] b by simp
qed

definition sound_resolution :: "instrument \<Rightarrow> identity_resolution \<Rightarrow> bool" where
  "sound_resolution i r =
     (case ir_group r of
        None \<Rightarrow> ir_method r = None \<and> ir_reason r \<noteq> None
      | Some g \<Rightarrow> ir_reason r = None \<and> ir_method r \<noteq> None \<and> ci_active i \<and> ci_asset_class i = ''crypto''
          \<and> ci_market_type i = ''linear_perpetual'' \<and> ci_base i \<noteq> []
          \<and> (quantity_normalizable i \<or> ci_venue i = Mexc \<and> ci_unit i = UnitBase
               \<and> (case ci_multiplier i of None \<Rightarrow> False | Some m \<Rightarrow> dec_eq m dec_one)))"

lemma resolve_one_sound: "sound_resolution i (resolve_one ordered i)"
proof (cases "ir_group (resolve_one ordered i)")
  case None
  then show ?thesis
    by (auto simp: sound_resolution_def resolve_one_def Let_def split: option.splits if_splits)
next
  case (Some g)
  then have none: "individual_unmapped_reason i = None" by (rule resolve_one_group(2))
  have "ir_reason (resolve_one ordered i) = None \<and> ir_method (resolve_one ordered i) \<noteq> None"
    using Some by (auto simp: resolve_one_def Let_def split: option.splits if_splits)
  with individual_reason_none[OF none] Some show ?thesis by (auto simp: sound_resolution_def)
qed


end
