(* ===== verification/Candle_Preference.thy ===== *)
theory Candle_Preference
  imports Watch_Prelude
begin

text \<open>
  The contract by which the collector reduces several versions of one record to the one it keeps:
  a candidate replaces the incumbent exactly when it is strictly better, and "better" is a strict
  weak order.  Then keeping the best is associative, so that deduplicating a batch first and
  storing the survivors gives the same table as storing everything one by one.
\<close>

locale keep_best =
  fixes better :: "'a \<Rightarrow> 'a \<Rightarrow> bool"
    and pick :: "'a \<Rightarrow> 'a \<Rightarrow> 'a"
  assumes pick_def: "pick old new = (if better new old then new else old)"
    and better_asym: "better a b \<Longrightarrow> \<not> better b a"
    and better_negtrans: "\<not> better a b \<Longrightarrow> \<not> better b c \<Longrightarrow> \<not> better a c"
begin

lemma better_irrefl: "\<not> better a a"
  using better_asym by blast

lemma better_trans: "better a b \<Longrightarrow> better b c \<Longrightarrow> better a c"
  using better_asym better_negtrans by blast

lemma pick_assoc: "pick (pick a b) c = pick a (pick b c)"
  using better_trans better_negtrans unfolding pick_def by (smt (verit))

lemma pick_not_worse: "\<not> better old (pick old new)" "\<not> better new (pick old new)"
  using better_asym better_irrefl unfolding pick_def by auto

lemma pick_in: "pick a b = a \<or> pick a b = b"
  unfolding pick_def by simp

lemma fold_pick_in: "fold (\<lambda>c r. pick r c) cs r \<in> insert r (set cs)"
proof (induction cs arbitrary: r)
  case Nil
  then show ?case by simp
next
  case (Cons c cs)
  show ?case using Cons[of "pick r c"] pick_in[of r c] by auto
qed

lemma fold_pick_best: "x \<in> insert r (set cs) \<Longrightarrow> \<not> better x (fold (\<lambda>c r. pick r c) cs r)"
proof (induction cs arbitrary: r x)
  case Nil
  then show ?case by (simp add: better_irrefl)
next
  case (Cons c cs)
  let ?best = "fold (\<lambda>c r. pick r c) cs (pick r c)"
  have "\<not> better (pick r c) ?best" by (rule Cons.IH) simp
  then have ends: "\<not> better r ?best" "\<not> better c ?best"
    by (rule better_negtrans[OF pick_not_worse(1)], rule better_negtrans[OF pick_not_worse(2)])
  have "x = r \<or> x = c \<or> x \<in> set cs" using Cons.prems by auto
  moreover have "x \<in> set cs \<Longrightarrow> \<not> better x ?best" by (rule Cons.IH) simp
  ultimately have "\<not> better x ?best" using ends by (elim disjE) simp_all
  then show ?case by simp
qed

lemma fold_pick_shift: "fold (\<lambda>c r. pick r c) cs (pick a b) = pick a (fold (\<lambda>c r. pick r c) cs b)"
  by (induction cs arbitrary: b) (simp_all add: pick_assoc)

end

text \<open>A table keeps one record per key; \<open>put\<close> stores a record under the preference.\<close>

definition put :: "('a \<Rightarrow> 'a \<Rightarrow> 'a) \<Rightarrow> ('a \<Rightarrow> 'k) \<Rightarrow> 'a \<Rightarrow> ('k \<Rightarrow> 'a option) \<Rightarrow> 'k \<Rightarrow> 'a option" where
  "put pick key c t =
     t(key c \<mapsto> (case t (key c) of None \<Rightarrow> c | Some old \<Rightarrow> pick old c))"

lemma put_other: "k \<noteq> key c \<Longrightarrow> put pick key c t k = t k"
  by (simp add: put_def)

text \<open>One key of the table sees only the records with that key, in their order.\<close>

definition fold_opt :: "('a \<Rightarrow> 'a \<Rightarrow> 'a) \<Rightarrow> 'a list \<Rightarrow> 'a option \<Rightarrow> 'a option" where
  "fold_opt pick cs r =
     fold (\<lambda>c r. Some (case r of None \<Rightarrow> c | Some old \<Rightarrow> pick old c)) cs r"

lemma fold_opt_simps [simp]:
  "fold_opt pick [] r = r"
  "fold_opt pick (c # cs) r = fold_opt pick cs (Some (case r of None \<Rightarrow> c | Some old \<Rightarrow> pick old c))"
  by (simp_all add: fold_opt_def)

lemma fold_put_at:
  "fold (put pick key) cs t k = fold_opt pick (filter (\<lambda>c. key c = k) cs) (t k)"
  by (induction cs arbitrary: t) (auto simp: put_def)

context keep_best
begin

lemma fold_opt_Some: "fold_opt pick cs (Some r) = Some (fold (\<lambda>c r. pick r c) cs r)"
  by (induction cs arbitrary: r) simp_all

lemma fold_opt_once:
  "fold_opt pick cs r = (case fold_opt pick cs None of None \<Rightarrow> r | Some b \<Rightarrow> fold_opt pick [b] r)"
proof (cases cs)
  case Nil
  then show ?thesis by simp
next
  case (Cons c cs')
  then show ?thesis
    by (cases r) (simp_all add: fold_opt_Some fold_pick_shift)
qed

text \<open>
  Reducing a batch to its best record per key and storing the survivors, in any order, gives the
  table that storing the whole batch in arrival order gives.
\<close>

lemma batch_then_store:
  assumes survivors: "distinct (map key bs)"
    and exact: "\<And>k. fold (put pick key) cs Map.empty k = map_of (map (\<lambda>b. (key b, b)) bs) k"
  shows "fold (put pick key) bs t = fold (put pick key) cs t"
proof
  fix k
  let ?none = "fold_opt pick (filter (\<lambda>c. key c = k) cs) None"
  have dedup: "?none = map_of (map (\<lambda>b. (key b, b)) bs) k"
    using exact[of k] by (simp add: fold_put_at)
  have single: "filter (\<lambda>b. key b = k) bs = (case map_of (map (\<lambda>b. (key b, b)) bs) k of None \<Rightarrow> [] | Some b \<Rightarrow> [b])"
    using survivors
  proof (induction bs)
    case Nil
    then show ?case by simp
  next
    case (Cons b bs)
    have "map_of (map (\<lambda>b. (key b, b)) bs) (key b) = None"
      using Cons.prems by (simp add: map_of_eq_None_iff image_image)
    with Cons show ?case by (auto split: option.splits)
  qed
  show "fold (put pick key) bs t k = fold (put pick key) cs t k"
    unfolding fold_put_at single
    by (subst fold_opt_once[of "filter (\<lambda>c. key c = k) cs"]) (simp add: dedup split: option.split)
qed

end

end
