(* ===== verification/Candles.thy ===== *)
theory Candles
  imports Market_Models Candle_Preference
begin

text \<open>
  Closed one-minute candles (\<open>candles.py\<close>) and their storage against temporal catalog versions
  (\<open>candle_store.py\<close>).  \<open>check_candle\<close> is \<open>Candle1m.__post_init__\<close>; \<open>candle_db\<close> holds the two
  tables that \<open>upsert_candles\<close> reads and writes.
\<close>

section \<open>Candles\<close>

datatype finality = Confirmed | DerivedFinal

datatype pyint = PInt int | PBool bool

record candle =
  cd_venue :: venue
  cd_symbol :: string
  cd_bucket :: pydt
  cd_open :: pydec
  cd_high :: pydec
  cd_low :: pydec
  cd_close :: pydec
  cd_volume_base :: "pydec option"
  cd_volume_notional :: "pydec option"
  cd_trade_count :: "pyint option"
  cd_finality :: finality
  cd_source_at :: "pydt option"
  cd_observed_at :: pydt
  cd_finalized_at :: "pydt option"
  cd_multiplier :: "pydec option"

definition require_utc_datetime :: "pydt \<Rightarrow> string \<Rightarrow> unit result" where
  "require_utc_datetime t field =
     (if is_utc t then Inr () else raise_exn CandleParseError (field @ '' must be timezone-aware UTC''))"

definition bucket_end :: "candle \<Rightarrow> int" where
  "bucket_end c = instant (cd_bucket c) + minute_us"

definition storage_key :: "candle \<Rightarrow> venue \<times> string \<times> int" where
  "storage_key c = (cd_venue c, cd_symbol c, instant (cd_bucket c))"

definition candle_instrument_id :: "candle \<Rightarrow> string" where
  "candle_instrument_id c = venue_instrument_id (cd_venue c) (cd_symbol c)"

definition source_confirmed :: "candle \<Rightarrow> bool" where
  "source_confirmed c \<longleftrightarrow> cd_finality c = Confirmed"

definition reject :: "bool \<Rightarrow> string \<Rightarrow> unit result" where
  "reject b m = (if b then raise_exn CandleParseError m else Inr ())"

definition check_price :: "string \<Rightarrow> pydec \<Rightarrow> unit result" where
  "check_price field v =
     reject (\<not> dec_finite v \<or> dval v \<le> 0) (field @ '' must be a positive finite decimal'')"

definition check_volume :: "string \<Rightarrow> pydec option \<Rightarrow> unit result" where
  "check_volume field v =
     (case v of None \<Rightarrow> Inr ()
      | Some x \<Rightarrow> reject (\<not> dec_finite x \<or> dval x < 0) (field @ '' must be a non-negative finite decimal''))"

definition check_finalized :: "candle \<Rightarrow> unit result" where
  "check_finalized c =
     (case cd_finalized_at c of None \<Rightarrow> Inr ()
      | Some f \<Rightarrow> first_error
          [require_utc_datetime f ''finalized_at'',
           reject (instant f < max (instant (cd_observed_at c)) (bucket_end c))
             ''finalized_at precedes receipt or bucket close''])"

definition check_trade_count :: "pyint option \<Rightarrow> unit result" where
  "check_trade_count n =
     (case n of None \<Rightarrow> Inr ()
      | Some (PBool _) \<Rightarrow> reject True ''trade_count must be a non-negative integer''
      | Some (PInt k) \<Rightarrow> reject (k < 0) ''trade_count must be a non-negative integer'')"

definition check_candle :: "candle \<Rightarrow> unit result" where
  "check_candle c = first_error
     [reject (strip (cd_symbol c) = []) ''source_symbol must not be empty'',
      require_utc_datetime (cd_bucket c) ''bucket_start'',
      reject (instant (cd_bucket c) mod minute_us \<noteq> 0) ''bucket_start must be aligned to one minute'',
      require_utc_datetime (cd_observed_at c) ''observed_at'',
      check_finalized c,
      (case cd_source_at c of None \<Rightarrow> Inr () | Some t \<Rightarrow> require_utc_datetime t ''source_at''),
      check_price ''open_price'' (cd_open c),
      check_price ''high_price'' (cd_high c),
      check_price ''low_price'' (cd_low c),
      check_price ''close_price'' (cd_close c),
      reject (dval (cd_high c) < max (max (dval (cd_open c)) (dval (cd_close c))) (dval (cd_low c)))
        ''high_price is below another OHLC value'',
      reject (min (min (dval (cd_open c)) (dval (cd_close c))) (dval (cd_high c)) < dval (cd_low c))
        ''low_price is above another OHLC value'',
      check_volume ''volume_base'' (cd_volume_base c),
      check_volume ''volume_notional'' (cd_volume_notional c),
      check_trade_count (cd_trade_count c)]"

definition candle_ok :: "candle \<Rightarrow> bool" where
  "candle_ok c \<longleftrightarrow> check_candle c = Inr ()"

declare require_utc_datetime_def [unfold_code] bucket_end_def [unfold_code] storage_key_def [unfold_code]
  candle_instrument_id_def [unfold_code] reject_def [unfold_code] check_price_def [unfold_code]
  check_volume_def [unfold_code] check_finalized_def [unfold_code] check_trade_count_def [unfold_code]
  check_candle_def [unfold_code] candle_ok_def [unfold_code]

lemma reject_Inr [simp]: "reject b m = Inr () \<longleftrightarrow> \<not> b"
  by (simp add: reject_def)

lemma require_utc_Inr [simp]: "require_utc_datetime t f = Inr () \<longleftrightarrow> is_utc t"
  by (simp add: require_utc_datetime_def)

lemma candle_okD:
  assumes "candle_ok c"
  shows "is_utc (cd_bucket c)" "instant (cd_bucket c) mod minute_us = 0" "is_utc (cd_observed_at c)"
    "cd_finalized_at c = Some f \<Longrightarrow> instant (cd_observed_at c) \<le> instant f \<and> bucket_end c \<le> instant f"
    "dec_finite (cd_open c)" "dec_finite (cd_high c)" "dec_finite (cd_low c)" "dec_finite (cd_close c)"
    "0 < dval (cd_open c)" "0 < dval (cd_high c)" "0 < dval (cd_low c)" "0 < dval (cd_close c)"
    "dval (cd_open c) \<le> dval (cd_high c)" "dval (cd_close c) \<le> dval (cd_high c)"
    "dval (cd_low c) \<le> dval (cd_high c)"
    "dval (cd_low c) \<le> dval (cd_open c)" "dval (cd_low c) \<le> dval (cd_close c)"
    "cd_volume_base c = Some v \<Longrightarrow> dec_finite v \<and> 0 \<le> dval v"
    "cd_volume_notional c = Some v \<Longrightarrow> dec_finite v \<and> 0 \<le> dval v"
    "cd_trade_count c = Some n \<Longrightarrow> \<exists>k. n = PInt k \<and> 0 \<le> k"
proof -
  note checks = assms[unfolded candle_ok_def check_candle_def first_error_Inr_all list.pred_inject]
  show "is_utc (cd_bucket c)" "instant (cd_bucket c) mod minute_us = 0" "is_utc (cd_observed_at c)"
    using checks by simp_all
  show "instant (cd_observed_at c) \<le> instant f \<and> bucket_end c \<le> instant f" if "cd_finalized_at c = Some f"
    using checks that by (simp add: check_finalized_def first_error_Inr_all not_less)
  have "check_price ''open_price'' (cd_open c) = Inr ()" "check_price ''high_price'' (cd_high c) = Inr ()"
    "check_price ''low_price'' (cd_low c) = Inr ()" "check_price ''close_price'' (cd_close c) = Inr ()"
    using checks by simp_all
  then show "dec_finite (cd_open c)" "dec_finite (cd_high c)" "dec_finite (cd_low c)" "dec_finite (cd_close c)"
    "0 < dval (cd_open c)" "0 < dval (cd_high c)" "0 < dval (cd_low c)" "0 < dval (cd_close c)"
    by (simp_all add: check_price_def not_le)
  have "\<not> dval (cd_high c) < max (max (dval (cd_open c)) (dval (cd_close c))) (dval (cd_low c))"
    "\<not> min (min (dval (cd_open c)) (dval (cd_close c))) (dval (cd_high c)) < dval (cd_low c)"
    using checks by simp_all
  then show "dval (cd_open c) \<le> dval (cd_high c)" "dval (cd_close c) \<le> dval (cd_high c)"
    "dval (cd_low c) \<le> dval (cd_high c)" "dval (cd_low c) \<le> dval (cd_open c)"
    "dval (cd_low c) \<le> dval (cd_close c)"
    by linarith+
  have vol: "check_volume ''volume_base'' (cd_volume_base c) = Inr ()"
    "check_volume ''volume_notional'' (cd_volume_notional c) = Inr ()"
    using checks by simp_all
  show "dec_finite v \<and> 0 \<le> dval v" if "cd_volume_base c = Some v"
    using vol(1) that by (simp add: check_volume_def not_less)
  show "dec_finite v \<and> 0 \<le> dval v" if "cd_volume_notional c = Some v"
    using vol(2) that by (simp add: check_volume_def not_less)
  have "check_trade_count (cd_trade_count c) = Inr ()" using checks by simp
  then show "\<exists>k. n = PInt k \<and> 0 \<le> k" if "cd_trade_count c = Some n"
    using that by (cases n) (simp_all add: check_trade_count_def not_less)
qed

section \<open>The candle store\<close>

record catalog_row =
  cv_id :: int
  cv_venue :: venue
  cv_symbol :: string
  cv_from :: int
  cv_to :: "int option"
  cv_multiplier :: "pydec option"

record candle_row =
  cr_open :: pydec
  cr_high :: pydec
  cr_low :: pydec
  cr_close :: pydec
  cr_volume_base :: "pydec option"
  cr_volume_notional :: "pydec option"
  cr_trade_count :: "pyint option"
  cr_finality :: finality
  cr_source_at :: "int option"
  cr_observed_at :: int
  cr_finalized_at :: "int option"
  cr_run :: "string option"

type_synonym candle_table = "int \<times> int \<Rightarrow> candle_row option"

record candle_db =
  db_versions :: "catalog_row list"
  db_runs :: "string list"
  db_candles :: candle_table

record store_result =
  sr_received :: nat
  sr_stored :: nat
  sr_ignored :: nat

definition covers_minute :: "catalog_row \<Rightarrow> venue \<times> string \<times> int \<Rightarrow> bool" where
  "covers_minute v key = (case key of (ven, symbol, b) \<Rightarrow>
     cv_venue v = ven \<and> cv_symbol v = symbol \<and> cv_from v \<le> b
     \<and> (case cv_to v of None \<Rightarrow> True | Some e \<Rightarrow> b + minute_us \<le> e))"

fun opt_dec_eq :: "pydec option \<Rightarrow> pydec option \<Rightarrow> bool" where
  "opt_dec_eq None None = True"
| "opt_dec_eq (Some x) (Some y) = dec_eq x y"
| "opt_dec_eq _ _ = False"

definition last_by_key :: "candle list \<Rightarrow> venue \<times> string \<times> int \<Rightarrow> candle option" where
  "last_by_key cs = map_of (rev (map (\<lambda>c. (storage_key c, c)) cs))"

definition covering_step :: "candle list \<Rightarrow> (venue \<times> string \<times> int) \<times> catalog_row
    \<Rightarrow> (venue \<times> string \<times> int \<Rightarrow> int option) \<times> (venue \<times> string \<times> int) list
    \<Rightarrow> (venue \<times> string \<times> int \<Rightarrow> int option) \<times> (venue \<times> string \<times> int) list" where
  "covering_step cs row acc =
     (let (key, v) = row; (found, ambiguous) = acc;
          other_multiplier = (case last_by_key cs key of None \<Rightarrow> False
             | Some c \<Rightarrow> fst key = Mexc \<and> \<not> opt_dec_eq (cd_multiplier c) (cv_multiplier v));
          ambiguous = (if other_multiplier then key # ambiguous else ambiguous);
          ambiguous = (if found key \<noteq> None then key # ambiguous else ambiguous)
      in (found(key \<mapsto> cv_id v), ambiguous))"

definition versions_covering_candles ::
    "catalog_row list \<Rightarrow> candle list \<Rightarrow> venue \<times> string \<times> int \<Rightarrow> int option" where
  "versions_covering_candles versions cs =
     (let requested = sort (remdups (map storage_key cs));
          rows = concat (map (\<lambda>k. map (Pair k) (filter (\<lambda>v. covers_minute v k) versions)) requested);
          (found, ambiguous) = fold (covering_step cs) rows (Map.empty, [])
      in (\<lambda>k. if k \<in> set ambiguous then None else found k))"

definition candle_row_of :: "string option \<Rightarrow> candle \<Rightarrow> candle_row" where
  "candle_row_of run c = \<lparr>cr_open = cd_open c, cr_high = cd_high c, cr_low = cd_low c,
     cr_close = cd_close c, cr_volume_base = cd_volume_base c, cr_volume_notional = cd_volume_notional c,
     cr_trade_count = cd_trade_count c, cr_finality = cd_finality c,
     cr_source_at = map_option instant (cd_source_at c), cr_observed_at = instant (cd_observed_at c),
     cr_finalized_at = map_option instant (cd_finalized_at c), cr_run = run\<rparr>"

text \<open>The CHECK and REFERENCES constraints of \<open>candle_1m\<close> and the range of its bigint column.\<close>

definition row_checks :: "string list \<Rightarrow> int \<Rightarrow> candle_row \<Rightarrow> bool" where
  "row_checks runs bucket r \<longleftrightarrow>
     0 < dval (cr_open r) \<and> 0 < dval (cr_high r) \<and> 0 < dval (cr_low r) \<and> 0 < dval (cr_close r)
     \<and> (case cr_volume_base r of None \<Rightarrow> True | Some v \<Rightarrow> 0 \<le> dval v)
     \<and> (case cr_volume_notional r of None \<Rightarrow> True | Some v \<Rightarrow> 0 \<le> dval v)
     \<and> (case cr_trade_count r of None \<Rightarrow> True | Some (PBool _) \<Rightarrow> False | Some (PInt n) \<Rightarrow> 0 \<le> n \<and> n < 2 ^ 63)
     \<and> (case cr_run r of None \<Rightarrow> True | Some u \<Rightarrow> u \<in> set runs)
     \<and> dval (cr_low r) \<le> dval (cr_high r)
     \<and> dval (cr_open r) \<le> dval (cr_high r) \<and> dval (cr_close r) \<le> dval (cr_high r)
     \<and> dval (cr_low r) \<le> dval (cr_open r) \<and> dval (cr_low r) \<le> dval (cr_close r)
     \<and> (case cr_finalized_at r of None \<Rightarrow> True
        | Some f \<Rightarrow> cr_observed_at r \<le> f \<and> bucket + minute_us \<le> f)"

text \<open>The WHERE clause of ON CONFLICT DO UPDATE: does the new row replace the stored one?\<close>

definition row_better :: "candle_row \<Rightarrow> candle_row \<Rightarrow> bool" where
  "row_better new old \<longleftrightarrow>
     cr_finality old = DerivedFinal \<and> cr_finality new = Confirmed
     \<or> cr_finality old = cr_finality new \<and> cr_observed_at old < cr_observed_at new"

definition row_pick :: "candle_row \<Rightarrow> candle_row \<Rightarrow> candle_row" where
  "row_pick old new = (if row_better new old then new else old)"

definition insert_candle :: "string list \<Rightarrow> int \<times> int \<Rightarrow> candle_row \<Rightarrow> candle_table \<Rightarrow> (nat \<times> candle_table) option" where
  "insert_candle runs key row tbl =
     (if \<not> row_checks runs (snd key) row then None
      else (case tbl key of
              None \<Rightarrow> Some (1, tbl(key \<mapsto> row))
            | Some old \<Rightarrow> if row_better row old then Some (1, tbl(key \<mapsto> row)) else Some (0, tbl)))"

fun insert_candles :: "string list \<Rightarrow> string option \<Rightarrow> (venue \<times> string \<times> int \<Rightarrow> int option) \<Rightarrow> candle list
    \<Rightarrow> nat \<Rightarrow> candle_table \<Rightarrow> (nat \<times> candle_table) option" where
  "insert_candles runs run versions [] stored tbl = Some (stored, tbl)"
| "insert_candles runs run versions (c # cs) stored tbl =
     (case versions (storage_key c) of
        None \<Rightarrow> None
      | Some vid \<Rightarrow>
          (case insert_candle runs (vid, instant (cd_bucket c)) (candle_row_of run c) tbl of
             None \<Rightarrow> None
           | Some (n, tbl') \<Rightarrow> insert_candles runs run versions cs (stored + n) tbl'))"

text \<open>\<open>sql_ok\<close> is false when the connection fails inside the transaction.\<close>

definition upsert_candles :: "bool \<Rightarrow> string option \<Rightarrow> candle list \<Rightarrow> candle_db \<Rightarrow> store_result result \<times> candle_db" where
  "upsert_candles sql_ok run cs db =
     (if cs = [] then (Inr \<lparr>sr_received = 0, sr_stored = 0, sr_ignored = 0\<rparr>, db)
      else if \<not> distinct (map storage_key cs) then
        (raise_exn ValueError ''candle batch contains duplicate storage keys'', db)
      else if \<not> sql_ok then (raise_exn CandleStoreError ''candle persistence failed'', db)
      else
        (let versions = versions_covering_candles (db_versions db) cs;
             unknown = map candle_instrument_id (filter (\<lambda>c. versions (storage_key c) = None) cs)
         in if unknown \<noteq> [] then
              (raise_exn UnknownCandleInstrumentError
                 (int_text (int (length (remdups unknown))) @
                  '' candle instrument(s) have no unambiguous catalog version covering the full minute''), db)
            else
              (case insert_candles (db_runs db) run versions cs 0 (db_candles db) of
                 None \<Rightarrow> (raise_exn CandleStoreError ''candle persistence failed'', db)
               | Some (stored, tbl) \<Rightarrow>
                   (Inr \<lparr>sr_received = length cs, sr_stored = stored, sr_ignored = length cs - stored\<rparr>,
                    db\<lparr>db_candles := tbl\<rparr>))))"

declare covers_minute_def [unfold_code] last_by_key_def [unfold_code] covering_step_def [unfold_code]
  versions_covering_candles_def [unfold_code] candle_row_of_def [unfold_code] row_checks_def [unfold_code]
  row_better_def [unfold_code] row_pick_def [unfold_code] insert_candle_def [unfold_code]
  upsert_candles_def [unfold_code]

section \<open>Lemmas on the store\<close>

interpretation candle_rows: keep_best row_better row_pick
proof
  fix a b c :: candle_row
  show "row_pick a b = (if row_better b a then b else a)" by (simp add: row_pick_def)
  show "row_better a b \<Longrightarrow> \<not> row_better b a" by (auto simp: row_better_def)
  show "\<not> row_better a b \<Longrightarrow> \<not> row_better b c \<Longrightarrow> \<not> row_better a c"
    by (cases "cr_finality a"; cases "cr_finality b"; cases "cr_finality c") (auto simp: row_better_def)
qed

lemma upsert_error_keeps: "upsert_candles sql_ok run cs db = (Inl e, db') \<Longrightarrow> db' = db"
  by (auto simp: upsert_candles_def Let_def split: if_splits option.splits prod.splits)

lemma upsert_okE:
  assumes "upsert_candles sql_ok run cs db = (Inr r, db')" and "cs \<noteq> []"
  obtains stored tbl where
    "distinct (map storage_key cs)"
    "\<And>c. c \<in> set cs \<Longrightarrow> versions_covering_candles (db_versions db) cs (storage_key c) \<noteq> None"
    "insert_candles (db_runs db) run (versions_covering_candles (db_versions db) cs) cs 0 (db_candles db)
       = Some (stored, tbl)"
    "r = \<lparr>sr_received = length cs, sr_stored = stored, sr_ignored = length cs - stored\<rparr>"
    "db' = db\<lparr>db_candles := tbl\<rparr>"
  using assms
  by (auto simp: upsert_candles_def Let_def filter_empty_conv split: if_splits option.splits prod.splits)

lemma insert_candle_put:
  assumes "insert_candle runs key row tbl = Some (n, tbl')"
  shows "tbl' = tbl(key \<mapsto> (case tbl key of None \<Rightarrow> row | Some old \<Rightarrow> row_pick old row))" "n \<le> 1"
  using assms
  by (auto simp: insert_candle_def row_pick_def fun_upd_idem split: if_splits option.splits)

text \<open>The key in \<open>candle_1m\<close> of a candle, and the effect of a whole batch on one key.\<close>

definition row_key :: "(venue \<times> string \<times> int \<Rightarrow> int option) \<Rightarrow> candle \<Rightarrow> int \<times> int" where
  "row_key versions c = (the (versions (storage_key c)), instant (cd_bucket c))"

lemma insert_candles_at:
  "insert_candles runs run versions cs stored tbl = Some (n, tbl') \<Longrightarrow>
     tbl' k = fold_opt row_pick (map (candle_row_of run) (filter (\<lambda>c. row_key versions c = k) cs)) (tbl k)"
proof (induction cs arbitrary: stored tbl)
  case Nil
  then show ?case by simp
next
  case (Cons c cs)
  obtain vid where vid: "versions (storage_key c) = Some vid"
    using Cons.prems by (auto split: option.splits)
  obtain m tbl1 where ins: "insert_candle runs (vid, instant (cd_bucket c)) (candle_row_of run c) tbl = Some (m, tbl1)"
    and rest: "insert_candles runs run versions cs (stored + m) tbl1 = Some (n, tbl')"
    using Cons.prems vid by (auto split: option.splits)
  have key: "row_key versions c = (vid, instant (cd_bucket c))" by (simp add: row_key_def vid)
  show ?case using Cons.IH[OF rest] insert_candle_put(1)[OF ins] by (simp add: key)
qed

lemma insert_candles_count:
  "insert_candles runs run versions cs stored tbl = Some (n, tbl') \<Longrightarrow> stored \<le> n \<and> n \<le> stored + length cs"
proof (induction cs arbitrary: stored tbl)
  case Nil
  then show ?case by simp
next
  case (Cons c cs)
  obtain vid m tbl1 where "insert_candle runs (vid, instant (cd_bucket c)) (candle_row_of run c) tbl = Some (m, tbl1)"
    and rest: "insert_candles runs run versions cs (stored + m) tbl1 = Some (n, tbl')"
    using Cons.prems by (auto split: option.splits)
  then have "m \<le> 1" using insert_candle_put(2) by blast
  with Cons.IH[OF rest] show ?case by simp
qed

lemma fold_opt_row_mono:
  assumes "fold_opt row_pick rows (Some old) = Some new"
  shows "(cr_finality old = Confirmed \<longrightarrow> cr_finality new = Confirmed)
       \<and> (cr_finality new = cr_finality old \<longrightarrow> cr_observed_at old \<le> cr_observed_at new)"
  using assms
proof (induction rows arbitrary: old)
  case Nil
  then show ?case by simp
next
  case (Cons r rows)
  then have "fold_opt row_pick rows (Some (row_pick old r)) = Some new" by simp
  note later = Cons.IH[OF this]
  show ?case
  proof (cases "row_better r old")
    case True
    with later show ?thesis
      by (cases "cr_finality old"; cases "cr_finality r") (auto simp: row_pick_def row_better_def)
  next
    case False
    with later show ?thesis by (simp add: row_pick_def)
  qed
qed

lemma fold_opt_not_None: "fold_opt pick rows (Some old) \<noteq> None"
  by (induction rows arbitrary: old) simp_all

subsection \<open>The covering version\<close>

lemma covering_step_found:
  "fst (covering_step cs (key, v) acc) = (fst acc)(key \<mapsto> cv_id v)"
  by (auto simp: covering_step_def Let_def split: prod.split)

lemma covering_fold_found:
  "fst (fold (covering_step cs) rows acc) k =
     (case map_of (rev rows) k of None \<Rightarrow> fst acc k | Some v \<Rightarrow> Some (cv_id v))"
proof (induction rows arbitrary: acc)
  case Nil
  then show ?case by simp
next
  case (Cons row rows)
  show ?case
    by (cases row) (simp add: Cons covering_step_found map_add_def split: option.split)
qed

lemma versions_covering_sound:
  assumes "versions_covering_candles versions cs k = Some vid"
  shows "\<exists>v\<in>set versions. cv_id v = vid \<and> covers_minute v k"
proof -
  define rows where "rows = concat (map (\<lambda>k. map (Pair k) (filter (\<lambda>v. covers_minute v k) versions))
    (sort (remdups (map storage_key cs))))"
  have "fst (fold (covering_step cs) rows (Map.empty, [])) k = Some vid"
    using assms
    by (auto simp: versions_covering_candles_def rows_def[symmetric] Let_def split: prod.splits if_splits)
  then obtain v where v: "map_of (rev rows) k = Some v" "cv_id v = vid"
    by (auto simp: covering_fold_found split: option.splits)
  then have "(k, v) \<in> set rows" using map_of_SomeD by fastforce
  then have "v \<in> set versions \<and> covers_minute v k" by (auto simp: rows_def)
  with v show ?thesis by blast
qed

definition multiplier_matches :: "candle list \<Rightarrow> venue \<times> string \<times> int \<Rightarrow> catalog_row \<Rightarrow> bool" where
  "multiplier_matches cs k v \<longleftrightarrow>
     (case last_by_key cs k of None \<Rightarrow> True
      | Some c \<Rightarrow> fst k = Mexc \<longrightarrow> opt_dec_eq (cd_multiplier c) (cv_multiplier v))"

lemma covering_step_ambiguous:
  "k \<in> set (snd (covering_step cs (key, v) acc)) \<longleftrightarrow>
     k \<in> set (snd acc) \<or> k = key \<and> (\<not> multiplier_matches cs key v \<or> fst acc key \<noteq> None)"
  by (cases acc) (auto simp: covering_step_def multiplier_matches_def Let_def split: option.split)

lemma covering_fold_ambiguous:
  "k \<in> set (snd (fold (covering_step cs) rows acc)) \<longleftrightarrow>
     k \<in> set (snd acc)
     \<or> (\<exists>v. (k, v) \<in> set rows \<and> \<not> multiplier_matches cs k v)
     \<or> fst acc k \<noteq> None \<and> filter (\<lambda>r. fst r = k) rows \<noteq> []
     \<or> 1 < length (filter (\<lambda>r. fst r = k) rows)"
proof (induction rows arbitrary: acc)
  case Nil
  then show ?case by simp
next
  case (Cons row rows)
  obtain key v where row: "row = (key, v)" by (cases row)
  show ?case
  proof (cases "key = k")
    case True
    then show ?thesis
      unfolding row fold_simps(2) Cons covering_step_ambiguous covering_step_found
      by (cases "filter (\<lambda>r. fst r = k) rows") auto
  next
    case False
    then show ?thesis
      unfolding row fold_simps(2) Cons covering_step_ambiguous covering_step_found by auto
  qed
qed

lemma covering_rows_at:
  assumes "distinct ks"
  shows "filter (\<lambda>r. fst r = k) (concat (map (\<lambda>k. map (Pair k) (f k)) ks))
       = (if k \<in> set ks then map (Pair k) (f k) else [])"
  using assms by (induction ks) (auto simp: filter_empty_conv filter_map comp_def)

lemma map_of_rev_filter: "map_of (rev rows) k = map_of (rev (filter (\<lambda>r. fst r = k) rows)) k"
  by (induction rows) (auto simp: map_add_def split: option.split)

text \<open>The version of a requested minute is the single one that covers it, when its multiplier agrees.\<close>

lemma versions_covering_iff:
  assumes "k \<in> storage_key ` set cs"
  shows "versions_covering_candles versions cs k = Some vid \<longleftrightarrow>
    (\<exists>v. filter (\<lambda>v. covers_minute v k) versions = [v] \<and> cv_id v = vid \<and> multiplier_matches cs k v)"
proof -
  define rows where "rows = concat (map (\<lambda>k. map (Pair k) (filter (\<lambda>v. covers_minute v k) versions))
    (sort (remdups (map storage_key cs))))"
  let ?at = "filter (\<lambda>v. covers_minute v k) versions"
  have at: "filter (\<lambda>r. fst r = k) rows = map (Pair k) ?at"
    unfolding rows_def using assms by (subst covering_rows_at) auto
  have mem: "(k, v) \<in> set rows \<longleftrightarrow> v \<in> set ?at" for v
    using assms by (auto simp: rows_def)
  have found: "fst (fold (covering_step cs) rows (Map.empty, [])) k
      = (case map_of (rev (map (Pair k) ?at)) k of None \<Rightarrow> None | Some v \<Rightarrow> Some (cv_id v))"
    by (simp add: covering_fold_found map_of_rev_filter[of rows] at split: option.split)
  have ambiguous: "k \<in> set (snd (fold (covering_step cs) rows (Map.empty, [])))
      \<longleftrightarrow> (\<exists>v\<in>set ?at. \<not> multiplier_matches cs k v) \<or> 1 < length ?at"
    by (auto simp: covering_fold_ambiguous at mem simp del: set_filter)
  have result: "versions_covering_candles versions cs k =
      (if k \<in> set (snd (fold (covering_step cs) rows (Map.empty, []))) then None
       else fst (fold (covering_step cs) rows (Map.empty, [])) k)"
    by (simp add: versions_covering_candles_def rows_def Let_def split: prod.split)
  show ?thesis
  proof (cases ?at)
    case Nil
    then show ?thesis by (simp add: result found)
  next
    case (Cons v vs)
    then show ?thesis by (cases vs) (auto simp: result found ambiguous)
  qed
qed

lemma candle_ok_row_checks:
  assumes "candle_ok c" and "case cd_trade_count c of Some (PInt n) \<Rightarrow> n < 2 ^ 63 | _ \<Rightarrow> True"
    and "case run of None \<Rightarrow> True | Some u \<Rightarrow> u \<in> set runs"
  shows "row_checks runs (instant (cd_bucket c)) (candle_row_of run c)"
  using candle_okD[OF assms(1)] assms(2,3)
  by (auto simp: row_checks_def candle_row_of_def bucket_end_def split: option.splits pyint.splits)

lemma insert_candles_total:
  assumes "\<And>c. c \<in> set cs \<Longrightarrow> versions (storage_key c) \<noteq> None"
    and "\<And>c. c \<in> set cs \<Longrightarrow> row_checks runs (instant (cd_bucket c)) (candle_row_of run c)"
  shows "insert_candles runs run versions cs stored tbl \<noteq> None"
  using assms
proof (induction cs arbitrary: stored tbl)
  case Nil
  then show ?case by simp
next
  case (Cons c cs)
  obtain vid where vid: "versions (storage_key c) = Some vid" using Cons.prems(1)[of c] by auto
  have "insert_candle runs (vid, instant (cd_bucket c)) (candle_row_of run c) tbl \<noteq> None"
    using Cons.prems(2)[of c] by (auto simp: insert_candle_def split: option.split)
  then show ?case using Cons vid by (auto split: option.split)
qed

lemma fold_opt_row_not_worse:
  assumes "r \<in> set rows"
  shows "\<exists>new. fold_opt row_pick rows old = Some new \<and> \<not> row_better r new"
proof (cases old)
  case (Some o')
  then show ?thesis using candle_rows.fold_pick_best[of r o' rows] assms by (simp add: candle_rows.fold_opt_Some)
next
  case None
  then obtain r0 rows' where "rows = r0 # rows'" using assms by (cases rows) auto
  then show ?thesis
    using None candle_rows.fold_pick_best[of r r0 rows'] assms by (simp add: candle_rows.fold_opt_Some)
qed

section \<open>Properties\<close>


text \<open>
  C17. A candle is stored only against the catalog version that covers its whole minute, and that
  version is the only one that does (for MEXC with the multiplier the candle was read under); the
  row then stored is at least as good as the candle.
\<close>

theorem candles_stored_under_covering_version:
  assumes "upsert_candles sql_ok run cs db = (Inr r, db')" and "c \<in> set cs"
  shows "\<exists>v new. filter (\<lambda>v. covers_minute v (storage_key c)) (db_versions db) = [v]
       \<and> cv_venue v = cd_venue c \<and> cv_symbol v = cd_symbol c \<and> cv_from v \<le> instant (cd_bucket c)
       \<and> (\<forall>e. cv_to v = Some e \<longrightarrow> instant (cd_bucket c) + minute_us \<le> e)
       \<and> multiplier_matches cs (storage_key c) v
       \<and> db_candles db' (cv_id v, instant (cd_bucket c)) = Some new
       \<and> \<not> row_better (candle_row_of run c) new"
proof -
  from assms obtain stored tbl where
      covered: "versions_covering_candles (db_versions db) cs (storage_key c) \<noteq> None"
    and ins: "insert_candles (db_runs db) run (versions_covering_candles (db_versions db) cs) cs 0 (db_candles db)
        = Some (stored, tbl)" and db': "db' = db\<lparr>db_candles := tbl\<rparr>"
    using upsert_okE[OF assms(1)] by (metis empty_iff list.set(1))
  then obtain vid where vid: "versions_covering_candles (db_versions db) cs (storage_key c) = Some vid"
    by auto
  obtain v where v: "filter (\<lambda>v. covers_minute v (storage_key c)) (db_versions db) = [v]" "cv_id v = vid"
      "multiplier_matches cs (storage_key c) v"
    using vid assms(2) by (auto simp: versions_covering_iff)
  let ?key = "row_key (versions_covering_candles (db_versions db) cs) c"
  have key: "?key = (cv_id v, instant (cd_bucket c))" by (simp add: row_key_def vid v)
  have "candle_row_of run c \<in> set (map (candle_row_of run)
      (filter (\<lambda>d. row_key (versions_covering_candles (db_versions db) cs) d = ?key) cs))"
    using assms(2) by simp
  from fold_opt_row_not_worse[OF this, of "db_candles db ?key"] obtain new where
    "tbl ?key = Some new" "\<not> row_better (candle_row_of run c) new"
    using insert_candles_at[OF ins, of ?key] by auto
  moreover have "covers_minute v (storage_key c)" using v(1) by (auto simp: filter_eq_Cons_iff)
  then have "cv_venue v = cd_venue c \<and> cv_symbol v = cd_symbol c \<and> cv_from v \<le> instant (cd_bucket c)
       \<and> (\<forall>e. cv_to v = Some e \<longrightarrow> instant (cd_bucket c) + minute_us \<le> e)"
    by (auto simp: covers_minute_def storage_key_def split: option.splits)
  ultimately show ?thesis using v unfolding key by (auto simp: db')
qed

definition sample_candle :: candle where
  "sample_candle = \<lparr>cd_venue = Mexc, cd_symbol = ''BTC_USDT'', cd_bucket = utc (60 * minute_us),
     cd_open = DFin False 101 (-1), cd_high = DFin False 11 0, cd_low = DFin False 10 0,
     cd_close = DFin False 105 (-1), cd_volume_base = Some dec_zero, cd_volume_notional = None,
     cd_trade_count = Some (PInt 3), cd_finality = DerivedFinal, cd_source_at = None,
     cd_observed_at = utc (61 * minute_us), cd_finalized_at = Some (utc (62 * minute_us)),
     cd_multiplier = Some (DFin False 1 (-4))\<rparr>"

definition sample_candle_db :: candle_db where
  "sample_candle_db = \<lparr>db_versions =
      [\<lparr>cv_id = 7, cv_venue = Mexc, cv_symbol = ''BTC_USDT'', cv_from = 0, cv_to = None,
        cv_multiplier = Some (DFin False 10 (-5))\<rparr>],
     db_runs = [], db_candles = Map.empty\<rparr>"

lemma candles_stored_under_covering_version_witness:
  "\<exists>v new. db_candles (snd (upsert_candles True None [sample_candle] sample_candle_db))
      (cv_id v, instant (cd_bucket sample_candle)) = Some new \<and> covers_minute v (storage_key sample_candle)"
proof -
  have "fst (upsert_candles True None [sample_candle] sample_candle_db)
      = Inr \<lparr>sr_received = 1, sr_stored = 1, sr_ignored = 0\<rparr>" by code_simp
  then have ok: "upsert_candles True None [sample_candle] sample_candle_db
      = (Inr \<lparr>sr_received = 1, sr_stored = 1, sr_ignored = 0\<rparr>,
         snd (upsert_candles True None [sample_candle] sample_candle_db))"
    by (simp add: prod_eq_iff)
  from candles_stored_under_covering_version[OF ok, of sample_candle] show ?thesis
    by (auto simp: filter_eq_Cons_iff)
qed



end
