(* ===== verification/Candle_Writer.thy ===== *)
theory Candle_Writer
  imports Candles
begin

text \<open>
  The candle runtime (\<open>candle_runtime.py\<close>): which instruments and candles are eligible, the
  supervisor of a venue's stream, and \<open>CandleBatchWriter\<close>, whose loop reduces the queue to one
  candle per minute and flushes it in batches.  A run of the writer is a list of events: an item
  taken from the queue, a timeout of the wait, or the closing marker; every event carries what the
  suppliers and the database would answer if it leads to a flush.
\<close>

section \<open>Eligibility\<close>

definition active_venue_instruments :: "instrument list \<Rightarrow> venue \<Rightarrow> instrument list" where
  "active_venue_instruments instruments v =
     sort_key ci_symbol (filter (\<lambda>i. ci_venue i = v \<and> ci_active i \<and> ci_market_type i = ''linear_perpetual'') instruments)"

definition active_bitget_instruments :: "instrument list \<Rightarrow> instrument list" where
  "active_bitget_instruments instruments =
     sort_key ci_symbol
       (filter (\<lambda>i. ci_venue i = Bitget \<and> ci_active i \<and> ci_market_type i = ''linear_perpetual'') instruments)"

definition active_instrument_ids :: "instrument list \<Rightarrow> string list" where
  "active_instrument_ids instruments =
     remdups (map instrument_id (filter (\<lambda>i. ci_active i \<and> ci_market_type i = ''linear_perpetual'') instruments))"

definition covered_by_current_version :: "candle \<Rightarrow> (string \<Rightarrow> int option) \<Rightarrow> bool" where
  "covered_by_current_version c starts =
     (case starts (candle_instrument_id c) of None \<Rightarrow> False
      | Some valid_from \<Rightarrow> valid_from \<le> instant (cd_bucket c))"

definition candles_covered_by_current_versions :: "candle list \<Rightarrow> (string \<Rightarrow> int option) \<Rightarrow> candle list" where
  "candles_covered_by_current_versions cs starts = filter (\<lambda>c. covered_by_current_version c starts) cs"

fun preferred_candle :: "candle option \<Rightarrow> candle \<Rightarrow> candle" where
  "preferred_candle None c = c"
| "preferred_candle (Some p) c =
     (if cd_finality p = DerivedFinal \<and> cd_finality c = Confirmed then c
      else if cd_finality p = cd_finality c \<and> instant (cd_observed_at p) < instant (cd_observed_at c) then c
      else p)"

section \<open>The supervisor of a stream\<close>

text \<open>
  \<open>supervise\<close> is one round of \<open>_run_ws_supervisor\<close>: the running producer is given by the
  instruments it was started with; \<open>ended\<close> tells that it returned (\<open>Some None\<close>), which is an error
  while the runtime is not stopped, or raised an exception, which is passed on.
\<close>

record supervisor =
  sv_fingerprint :: "(string \<times> string result) list"
  sv_producer :: "instrument list option"

definition fingerprint_of :: "(json \<Rightarrow> string) \<Rightarrow> instrument list \<Rightarrow> (string \<times> string result) list" where
  "fingerprint_of sha instruments =
     map (\<lambda>i. (instrument_id i, semantic_definition_sha256 sha i)) instruments"

definition supervise :: "(json \<Rightarrow> string) \<Rightarrow> venue \<Rightarrow> instrument list \<Rightarrow> exn option option \<Rightarrow> supervisor
    \<Rightarrow> supervisor result" where
  "supervise sha v supplied ended s =
     (let instruments = active_venue_instruments supplied v;
          fp = fingerprint_of sha instruments;
          restart = fp \<noteq> sv_fingerprint s;
          s = (if restart then \<lparr>sv_fingerprint = fp,
                 sv_producer = (if instruments = [] then None else Some instruments)\<rparr> else s)
      in if list_ex (\<lambda>(_, h). \<not> is_ok h) fp
         then raise_exn ValueError ''Out of range float values are not JSON compliant''
         else if \<not> restart \<and> sv_producer s \<noteq> None
         then (case ended of None \<Rightarrow> Inr s
               | Some None \<Rightarrow> raise_exn RuntimeError (venue_text v @ '' candle producer stopped unexpectedly'')
               | Some (Some x) \<Rightarrow> Inl x)
         else Inr s)"

section \<open>The batch writer\<close>

record writer =
  wr_closed :: bool
  wr_queue :: "candle option list"

definition writer_config_ok :: "int \<Rightarrow> rat \<Rightarrow> bool \<Rightarrow> bool \<Rightarrow> unit result" where
  "writer_config_ok batch_size flush_seconds has_lock has_starts =
     (if \<not> (0 < batch_size \<and> batch_size \<le> 250) then
        raise_exn ValueError ''candle batch_size must be between 1 and 250''
      else if \<not> (0 < flush_seconds \<and> flush_seconds \<le> 1) then
        raise_exn ValueError ''candle flush_seconds must be between 0 and 1 second''
      else if has_starts \<and> \<not> has_lock then
        raise_exn ValueError ''current candle versions require the catalog update lock''
      else Inr ())"

definition writer_add :: "candle list \<Rightarrow> (string \<Rightarrow> int option) option \<Rightarrow> writer \<Rightarrow> writer result" where
  "writer_add cs starts w =
     (if wr_closed w then raise_exn RuntimeError ''candle writer is closed''
      else (let eligible = (case starts of None \<Rightarrow> cs | Some m \<Rightarrow> candles_covered_by_current_versions cs m)
            in Inr (w\<lparr>wr_queue := wr_queue w @ map Some eligible\<rparr>)))"

definition writer_close :: "writer \<Rightarrow> writer" where
  "writer_close w = (if wr_closed w then w else \<lparr>wr_closed = True, wr_queue = wr_queue w @ [None]\<rparr>)"

record writer_env =
  we_active :: "string list option"
  we_starts :: "(string \<Rightarrow> int option) option"
  we_sql_ok :: bool

datatype writer_event = Got candle | TimedOut | Closing

datatype writer_status = Running | Finished | Failed exn

record flush_log =
  fl_received :: nat
  fl_deduplicated :: nat
  fl_stored :: nat
  fl_ignored :: nat
  fl_error :: bool

type_synonym pending = "((venue \<times> string \<times> int) \<times> candle) list"

record writer_run =
  rn_status :: writer_status
  rn_pending :: pending
  rn_received :: nat
  rn_db :: candle_db
  rn_logs :: "flush_log list"
  rn_notified :: nat

definition eligible :: "writer_env \<Rightarrow> candle \<Rightarrow> bool" where
  "eligible e c \<longleftrightarrow>
     (case we_active e of None \<Rightarrow> True | Some ids \<Rightarrow> candle_instrument_id c \<in> set ids)
     \<and> (case we_starts e of None \<Rightarrow> True | Some starts \<Rightarrow> covered_by_current_version c starts)"

definition flush_batch :: "writer_env \<Rightarrow> pending \<Rightarrow> candle list" where
  "flush_batch e pending = filter (eligible e) (sort_key storage_key (map snd pending))"

text \<open>
  \<open>_flush\<close>: nothing pending is a no-op; otherwise the pending map is emptied, what is not eligible
  is dropped, and the rest is persisted.  An exception ends the writer.
\<close>

definition flush :: "writer_env \<Rightarrow> writer_run \<Rightarrow> writer_run" where
  "flush e s =
     (if rn_pending s = [] then s
      else
        (let unique = length (rn_pending s);
             batch = flush_batch e (rn_pending s);
             filtered = unique - length batch;
             entry = \<lparr>fl_received = rn_received s, fl_deduplicated = unique, fl_stored = 0,
                     fl_ignored = filtered, fl_error = False\<rparr>;
             s = s\<lparr>rn_pending := []\<rparr>
         in if batch = [] then s\<lparr>rn_logs := rn_logs s @ [entry]\<rparr>
            else
              (case upsert_candles (we_sql_ok e) None batch (rn_db s) of
                 (Inl x, db) \<Rightarrow>
                   s\<lparr>rn_status := Failed x, rn_db := db, rn_logs := rn_logs s @ [entry\<lparr>fl_error := True\<rparr>]\<rparr>
               | (Inr r, db) \<Rightarrow>
                   s\<lparr>rn_db := db,
                     rn_logs := rn_logs s @ [entry\<lparr>fl_stored := sr_stored r, fl_ignored := filtered + sr_ignored r\<rparr>],
                     rn_notified := rn_notified s + (if 0 < sr_stored r then 1 else 0)\<rparr>)))"

definition reset_received :: "writer_run \<Rightarrow> writer_run" where
  "reset_received s = (if rn_status s = Running then s\<lparr>rn_received := 0\<rparr> else s)"

definition writer_step :: "nat \<Rightarrow> writer_event \<times> writer_env \<Rightarrow> writer_run \<Rightarrow> writer_run" where
  "writer_step batch_size ev s =
     (if rn_status s \<noteq> Running then s
      else
        (case ev of
           (TimedOut, e) \<Rightarrow> reset_received (flush e s)
         | (Closing, e) \<Rightarrow>
             (let s' = flush e s in if rn_status s' = Running then s'\<lparr>rn_status := Finished\<rparr> else s')
         | (Got c, e) \<Rightarrow>
             (let key = storage_key c;
                  s = s\<lparr>rn_received := rn_received s + 1,
                        rn_pending := AList.update key (preferred_candle (map_of (rn_pending s) key) c)
                                        (rn_pending s)\<rparr>
              in if batch_size \<le> length (rn_pending s) then reset_received (flush e s) else s)))"

definition writer_runs :: "nat \<Rightarrow> (writer_event \<times> writer_env) list \<Rightarrow> writer_run \<Rightarrow> writer_run" where
  "writer_runs batch_size evs s = fold (writer_step batch_size) evs s"

definition writer_start :: "candle_db \<Rightarrow> writer_run" where
  "writer_start db = \<lparr>rn_status = Running, rn_pending = [], rn_received = 0, rn_db = db,
     rn_logs = [], rn_notified = 0\<rparr>"

declare active_venue_instruments_def [unfold_code] active_bitget_instruments_def [unfold_code]
  active_instrument_ids_def [unfold_code] covered_by_current_version_def [unfold_code]
  candles_covered_by_current_versions_def [unfold_code] fingerprint_of_def [unfold_code]
  supervise_def [unfold_code] writer_config_ok_def [unfold_code] writer_add_def [unfold_code]
  writer_close_def [unfold_code] eligible_def [unfold_code] flush_batch_def [unfold_code]
  flush_def [unfold_code] reset_received_def [unfold_code] writer_step_def [unfold_code]
  writer_runs_def [unfold_code] writer_start_def [unfold_code]

section \<open>Lemmas\<close>

definition candle_better :: "candle \<Rightarrow> candle \<Rightarrow> bool" where
  "candle_better new old \<longleftrightarrow> row_better (candle_row_of None new) (candle_row_of None old)"

lemma preferred_candle_better:
  "preferred_candle (Some p) c = (if candle_better c p then c else p)"
  by (auto simp: candle_better_def row_better_def candle_row_of_def)

interpretation candles: keep_best candle_better "\<lambda>p c. preferred_candle (Some p) c"
proof
  fix a b c :: candle
  show "preferred_candle (Some a) b = (if candle_better b a then b else a)"
    by (rule preferred_candle_better)
  show "candle_better a b \<Longrightarrow> \<not> candle_better b a"
    unfolding candle_better_def by (rule candle_rows.better_asym)
  show "\<not> candle_better a b \<Longrightarrow> \<not> candle_better b c \<Longrightarrow> \<not> candle_better a c"
    unfolding candle_better_def by (rule candle_rows.better_negtrans)
qed

lemma row_of_preferred:
  "row_pick (candle_row_of None p) (candle_row_of None c) = candle_row_of None (preferred_candle (Some p) c)"
  by (simp add: preferred_candle_better row_pick_def candle_better_def del: preferred_candle.simps)

text \<open>The pending map: one candle per key, each under its own key.\<close>

definition pending_ok :: "pending \<Rightarrow> bool" where
  "pending_ok p \<longleftrightarrow> distinct (map fst p) \<and> (\<forall>(k, c)\<in>set p. storage_key c = k)"

lemma preferred_key:
  assumes "\<And>p. old = Some p \<Longrightarrow> storage_key p = storage_key c"
  shows "storage_key (preferred_candle old c) = storage_key c"
  using assms by (cases old) simp_all

lemma pending_ok_Nil [simp]: "pending_ok []"
  by (simp add: pending_ok_def)

lemma pending_ok_put:
  assumes "pending_ok p" and "storage_key n = key"
  shows "pending_ok (AList.update key n p)"
proof -
  have d: "distinct (map fst (AList.update key n p))"
    using assms(1) unfolding pending_ok_def by (intro distinct_update) simp
  have "storage_key c = k" if "(k, c) \<in> set (AList.update key n p)" for k c
  proof -
    have "map_of (AList.update key n p) k = Some c" by (rule map_of_is_SomeI[OF d that])
    then have "k = key \<and> n = c \<or> (k, c) \<in> set p"
      by (auto simp: AList.update_conv' split: if_splits dest: map_of_SomeD)
    then show ?thesis using assms by (auto simp: pending_ok_def)
  qed
  with d show ?thesis by (auto simp: pending_ok_def)
qed

lemma pending_ok_update:
  assumes "pending_ok p"
  shows "pending_ok (AList.update (storage_key c) (preferred_candle (map_of p (storage_key c)) c) p)"
  using assms
  by (intro pending_ok_put preferred_key) (auto simp: pending_ok_def dest!: map_of_SomeD)

lemma pending_keys: "pending_ok p \<Longrightarrow> map storage_key (map snd p) = map fst p"
  by (auto simp: pending_ok_def)

lemma pending_lookup: "pending_ok p \<Longrightarrow> map_of (map (\<lambda>c. (storage_key c, c)) (map snd p)) k = map_of p k"
  by (induction p) (auto simp: pending_ok_def)

lemma length_update_le: "length (AList.update k v xs) \<le> length xs + 1"
  by (induction xs) auto

lemma distinct_keys_sort_filter:
  assumes "pending_ok p"
  shows "distinct (map storage_key (flush_batch e p))"
proof -
  have "distinct (map storage_key (sort_key storage_key (map snd p)))"
  proof (rule card_distinct)
    have "set (map storage_key (sort_key storage_key (map snd p))) = set (map fst p)"
      by (simp only: pending_keys[OF assms, symmetric]) (simp add: image_image)
    then show "card (set (map storage_key (sort_key storage_key (map snd p))))
        = length (map storage_key (sort_key storage_key (map snd p)))"
      using distinct_card[of "map fst p"] assms by (simp add: pending_ok_def)
  qed
  then show ?thesis unfolding flush_batch_def by (rule distinct_map_filter)
qed

lemma flush_batch_mem:
  "pending_ok p \<Longrightarrow> c \<in> set (flush_batch e p) \<longleftrightarrow> eligible e c \<and> map_of p (storage_key c) = Some c"
  by (force simp: flush_batch_def pending_ok_def dest: map_of_SomeD intro: map_of_is_SomeI)

lemma flush_batch_at:
  assumes "pending_ok p"
  shows "filter (\<lambda>c. storage_key c = k) (flush_batch e p)
      = (case map_of p k of None \<Rightarrow> [] | Some c \<Rightarrow> if eligible e c then [c] else [])"
proof -
  let ?at = "filter (\<lambda>c. storage_key c = k) (flush_batch e p)"
  have d: "distinct (map storage_key ?at)"
    using distinct_keys_sort_filter[OF assms] by (rule distinct_map_filter)
  have mem: "c \<in> set ?at \<longleftrightarrow> eligible e c \<and> map_of p k = Some c \<and> storage_key c = k" for c
    using flush_batch_mem[OF assms] by auto
  have single: "?at = [c]" if "c \<in> set ?at" for c
  proof (cases ?at)
    case Nil
    with that show ?thesis by simp
  next
    case (Cons x xs)
    then have "x = c" using mem[of x] mem[of c] that by simp
    moreover have "xs = []"
    proof (cases xs)
      case (Cons y ys)
      then have "y \<in> set ?at" "x \<in> set ?at" using \<open>?at = x # xs\<close> by auto
      then have "storage_key x = storage_key y" by auto
      with d \<open>?at = x # xs\<close> Cons show ?thesis by simp
    qed
    ultimately show ?thesis using Cons by simp
  qed
  show ?thesis
  proof (cases "map_of p k")
    case None
    then have "set ?at = {}" using mem by auto
    with None show ?thesis by simp
  next
    case (Some c)
    then have key: "storage_key c = k" using assms by (auto simp: pending_ok_def dest!: map_of_SomeD)
    show ?thesis
    proof (cases "eligible e c")
      case True
      with Some key mem[of c] have "c \<in> set ?at" by blast
      with single[of c] Some True show ?thesis by simp
    next
      case False
      then have "set ?at = {}" using mem Some by auto
      with Some False show ?thesis by simp
    qed
  qed
qed

subsection \<open>Flushes against the table\<close>

definition key_version :: "catalog_row list \<Rightarrow> venue \<times> string \<times> int \<Rightarrow> int option" where
  "key_version versions k =
     (case filter (\<lambda>v. covers_minute v k) versions of [v] \<Rightarrow> Some (cv_id v) | _ \<Rightarrow> None)"

fun got :: "(writer_event \<times> writer_env) list \<Rightarrow> candle list" where
  "got [] = []"
| "got ((Got c, e) # evs) = c # got evs"
| "got ((TimedOut, e) # evs) = got evs"
| "got ((Closing, e) # evs) = []"

definition minute_row :: "candle_db \<Rightarrow> int \<Rightarrow> venue \<times> string \<times> int \<Rightarrow> candle_row option" where
  "minute_row db vid k = db_candles db (vid, snd (snd k))"

lemma key_versionE:
  assumes "key_version versions k = Some vid"
  obtains v where "filter (\<lambda>v. covers_minute v k) versions = [v]" "cv_id v = vid"
    "v \<in> set versions" "covers_minute v k"
proof -
  obtain v where v: "filter (\<lambda>v. covers_minute v k) versions = [v]" "cv_id v = vid"
    using assms by (auto simp: key_version_def split: list.splits)
  then have "v \<in> set (filter (\<lambda>v. covers_minute v k) versions)" by simp
  then show thesis using that[OF v] by simp
qed

lemma versions_covering_key_version:
  "k \<in> storage_key ` set cs \<Longrightarrow> versions_covering_candles versions cs k = Some vid \<Longrightarrow> key_version versions k = Some vid"
  by (auto simp: versions_covering_iff key_version_def)

lemma covers_minute_same_key:
  "covers_minute v k \<Longrightarrow> covers_minute v k' \<Longrightarrow> snd (snd k) = snd (snd k') \<Longrightarrow> k = k'"
  by (cases k; cases k') (auto simp: covers_minute_def)

lemma storage_key_bucket [simp]: "snd (snd (storage_key c)) = instant (cd_bucket c)"
  by (simp add: storage_key_def)

lemma key_version_inject:
  assumes "distinct (map cv_id versions)" and "key_version versions k = Some vid"
    and "key_version versions k' = Some vid" and "snd (snd k) = snd (snd k')"
  shows "k = k'"
proof -
  obtain v where v: "cv_id v = vid" "v \<in> set versions" "covers_minute v k" using key_versionE[OF assms(2)] by metis
  obtain w where w: "cv_id w = vid" "w \<in> set versions" "covers_minute w k'" using key_versionE[OF assms(3)] by metis
  have "v = w" using v w assms(1) by (metis distinct_map inj_onD)
  with v w assms(4) show ?thesis using covers_minute_same_key by blast
qed

lemma upsert_minute:
  assumes ok: "upsert_candles sql_ok None batch db = (Inr r, db')" and "batch \<noteq> []"
    and ids: "distinct (map cv_id (db_versions db))" and k: "key_version (db_versions db) k = Some vid"
  shows "minute_row db' vid k
       = fold_opt row_pick (map (candle_row_of None) (filter (\<lambda>c. storage_key c = k) batch)) (minute_row db vid k)"
    and "db_versions db' = db_versions db"
proof -
  obtain stored tbl where
      found: "\<And>c. c \<in> set batch \<Longrightarrow> versions_covering_candles (db_versions db) batch (storage_key c) \<noteq> None"
    and ins: "insert_candles (db_runs db) None (versions_covering_candles (db_versions db) batch) batch 0 (db_candles db)
        = Some (stored, tbl)" and db': "db' = db\<lparr>db_candles := tbl\<rparr>"
    using upsert_okE[OF ok assms(2)] by blast
  have same: "row_key (versions_covering_candles (db_versions db) batch) c = (vid, snd (snd k)) \<longleftrightarrow> storage_key c = k"
    if c: "c \<in> set batch" for c
  proof -
    obtain vid' where vid': "versions_covering_candles (db_versions db) batch (storage_key c) = Some vid'"
      using found[OF c] by auto
    have kv: "key_version (db_versions db) (storage_key c) = Some vid'"
      using versions_covering_key_version[OF _ vid'] c by auto
    have "row_key (versions_covering_candles (db_versions db) batch) c = (vid', instant (cd_bucket c))"
      by (simp add: row_key_def vid')
    then show ?thesis
      using key_version_inject[OF ids kv, of k] k kv by auto
  qed
  have "filter (\<lambda>c. row_key (versions_covering_candles (db_versions db) batch) c = (vid, snd (snd k))) batch
      = filter (\<lambda>c. storage_key c = k) batch"
    by (rule filter_cong) (simp_all add: same)
  with insert_candles_at[OF ins, of "(vid, snd (snd k))"]
  show "minute_row db' vid k
       = fold_opt row_pick (map (candle_row_of None) (filter (\<lambda>c. storage_key c = k) batch)) (minute_row db vid k)"
    by (simp add: minute_row_def db')
  show "db_versions db' = db_versions db" by (simp add: db')
qed

definition pending_rows :: "pending \<Rightarrow> venue \<times> string \<times> int \<Rightarrow> candle_row list" where
  "pending_rows p k = (case map_of p k of None \<Rightarrow> [] | Some c \<Rightarrow> [candle_row_of None c])"

lemma pending_rows_Nil [simp]: "pending_rows [] k = []"
  by (simp add: pending_rows_def)

lemma pending_rows_update:
  "fold_opt row_pick (pending_rows (AList.update key (preferred_candle (map_of p key) c) p) k) r
   = (if k = key then fold_opt row_pick (pending_rows p k @ [candle_row_of None c]) r
      else fold_opt row_pick (pending_rows p k) r)"
proof (cases "k = key")
  case False
  then show ?thesis by (simp add: pending_rows_def AList.update_conv')
next
  case True
  then show ?thesis
    by (cases "map_of p key"; cases r)
       (simp_all add: pending_rows_def AList.update_conv' row_of_preferred[symmetric] candle_rows.pick_assoc
          del: preferred_candle.simps(2))
qed

lemma flush_nothing: "rn_pending s = [] \<Longrightarrow> flush e s = s"
  by (simp add: flush_def)

lemma flush_status:
  assumes "rn_pending s \<noteq> []" and "flush_batch e (rn_pending s) \<noteq> []"
    and "upsert_candles (we_sql_ok e) None (flush_batch e (rn_pending s)) (rn_db s) = (Inl x, db')"
  shows "rn_status (flush e s) = Failed x"
  using assms by (simp add: flush_def Let_def)

lemma flush_minute:
  assumes "pending_ok (rn_pending s)" and "rn_status s = Running"
    and running: "\<And>x. rn_status (flush e s) \<noteq> Failed x"
    and ids: "distinct (map cv_id (db_versions (rn_db s)))" and k: "key_version (db_versions (rn_db s)) k = Some vid"
    and elig: "\<And>c. storage_key c = k \<Longrightarrow> eligible e c"
  shows "minute_row (rn_db (flush e s)) vid k
       = fold_opt row_pick (pending_rows (rn_pending s) k) (minute_row (rn_db s) vid k)"
    and "db_versions (rn_db (flush e s)) = db_versions (rn_db s)"
    and "rn_pending (flush e s) = []" and "rn_status (flush e s) = Running"
proof -
  let ?p = "rn_pending s" and ?batch = "flush_batch e (rn_pending s)"
  have at: "map (candle_row_of None) (filter (\<lambda>c. storage_key c = k) ?batch) = pending_rows ?p k"
    using flush_batch_at[OF assms(1), of k e] elig assms(1)
    by (auto simp: pending_rows_def pending_ok_def split: option.split dest!: map_of_SomeD)
  consider (nothing) "?p = []" | (dropped) "?p \<noteq> []" "?batch = []"
    | (stored) r db' where "?p \<noteq> []" "?batch \<noteq> []" "upsert_candles (we_sql_ok e) None ?batch (rn_db s) = (Inr r, db')"
    using running flush_status[of s e] by (metis old.sum.exhaust surj_pair)
  then have "minute_row (rn_db (flush e s)) vid k
       = fold_opt row_pick (pending_rows (rn_pending s) k) (minute_row (rn_db s) vid k)
     \<and> db_versions (rn_db (flush e s)) = db_versions (rn_db s)
     \<and> rn_pending (flush e s) = [] \<and> rn_status (flush e s) = Running"
  proof cases
    case nothing
    with assms(2) show ?thesis by (simp add: flush_def)
  next
    case dropped
    with at assms(2) show ?thesis by (simp add: flush_def Let_def)
  next
    case stored
    with upsert_minute[OF stored(3,2) ids k] at assms(2) show ?thesis by (simp add: flush_def Let_def)
  qed
  then show "minute_row (rn_db (flush e s)) vid k
       = fold_opt row_pick (pending_rows (rn_pending s) k) (minute_row (rn_db s) vid k)"
    and "db_versions (rn_db (flush e s)) = db_versions (rn_db s)"
    and "rn_pending (flush e s) = []" and "rn_status (flush e s) = Running"
    by simp_all
qed

subsection \<open>Runs\<close>

lemma writer_step_stopped: "rn_status s \<noteq> Running \<Longrightarrow> writer_step n ev s = s"
  by (simp add: writer_step_def)

lemma writer_runs_stopped: "rn_status s \<noteq> Running \<Longrightarrow> writer_runs n evs s = s"
  unfolding writer_runs_def by (induction evs arbitrary: s) (simp_all add: writer_step_stopped)

lemma writer_runs_Cons: "writer_runs n (ev # evs) s = writer_runs n evs (writer_step n ev s)"
  by (simp add: writer_runs_def)

lemma reset_received_simps [simp]:
  "rn_status (reset_received s) = rn_status s" "rn_pending (reset_received s) = rn_pending s"
  "rn_db (reset_received s) = rn_db s" "rn_logs (reset_received s) = rn_logs s"
  by (simp_all add: reset_received_def)

definition writer_at :: "writer_run \<Rightarrow> int \<Rightarrow> venue \<times> string \<times> int \<Rightarrow> candle_row option" where
  "writer_at s vid k = fold_opt row_pick (pending_rows (rn_pending s) k) (minute_row (rn_db s) vid k)"

definition put_candle :: "candle \<Rightarrow> writer_run \<Rightarrow> writer_run" where
  "put_candle c s =
     s\<lparr>rn_received := rn_received s + 1,
       rn_pending := AList.update (storage_key c) (preferred_candle (map_of (rn_pending s) (storage_key c)) c)
                       (rn_pending s)\<rparr>"

lemma put_candle_simps [simp]:
  "rn_status (put_candle c s) = rn_status s" "rn_db (put_candle c s) = rn_db s"
  by (simp_all add: put_candle_def)

lemma put_candle_pending_ok: "pending_ok (rn_pending s) \<Longrightarrow> pending_ok (rn_pending (put_candle c s))"
  by (simp add: put_candle_def pending_ok_update)

lemma writer_step_got:
  "rn_status s = Running \<Longrightarrow> writer_step n (Got c, e) s =
     (if n \<le> length (rn_pending (put_candle c s)) then reset_received (flush e (put_candle c s)) else put_candle c s)"
  by (simp add: writer_step_def put_candle_def Let_def)

lemma fold_opt_snoc: "fold_opt pick (xs @ [x]) r = fold_opt pick [x] (fold_opt pick xs r)"
  by (simp add: fold_opt_def)

lemma put_candle_at:
  "writer_at (put_candle c s) vid k
   = fold_opt row_pick (if storage_key c = k then [candle_row_of None c] else []) (writer_at s vid k)"
  unfolding writer_at_def put_candle_def
  by (simp add: pending_rows_update fold_opt_snoc minute_row_def del: fold_opt_simps(2))

definition tracked :: "catalog_row list \<Rightarrow> writer_run \<Rightarrow> bool" where
  "tracked versions s \<longleftrightarrow> pending_ok (rn_pending s) \<and> rn_status s = Running \<and> db_versions (rn_db s) = versions"

lemma flush_tracked:
  assumes "tracked versions s" and "distinct (map cv_id versions)" and "key_version versions k = Some vid"
    and "\<And>c. storage_key c = k \<Longrightarrow> eligible e c" and "\<And>x. rn_status (flush e s) \<noteq> Failed x"
  shows "tracked versions (flush e s)" "writer_at (flush e s) vid k = writer_at s vid k"
    "rn_pending (flush e s) = []"
  using flush_minute[of s e k vid] assms by (auto simp: tracked_def writer_at_def)

definition eligible_key :: "writer_env \<Rightarrow> venue \<times> string \<times> int \<Rightarrow> bool" where
  "eligible_key e k \<longleftrightarrow> (\<forall>c. storage_key c = k \<longrightarrow> eligible e c)"

lemma writer_step_tracked:
  assumes t: "tracked versions s" and ids: "distinct (map cv_id versions)" and k: "key_version versions k = Some vid"
    and elig_key: "eligible_key e k"
    and ok: "\<And>x. rn_status (writer_step n (ev, e) s) \<noteq> Failed x"
  shows "writer_at (writer_step n (ev, e) s) vid k
       = fold_opt row_pick (map (candle_row_of None) (filter (\<lambda>c. storage_key c = k) (got [(ev, e)]))) (writer_at s vid k)"
    and "ev \<noteq> Closing \<Longrightarrow> tracked versions (writer_step n (ev, e) s)"
    and "ev = Closing \<Longrightarrow> rn_pending (writer_step n (ev, e) s) = []"
proof -
  have running: "rn_status s = Running" using t by (simp add: tracked_def)
  have elig: "eligible e c" if "storage_key c = k" for c using elig_key that by (simp add: eligible_key_def)
  have "writer_at (writer_step n (ev, e) s) vid k
       = fold_opt row_pick (map (candle_row_of None) (filter (\<lambda>c. storage_key c = k) (got [(ev, e)]))) (writer_at s vid k)
     \<and> (ev \<noteq> Closing \<longrightarrow> tracked versions (writer_step n (ev, e) s))
     \<and> (ev = Closing \<longrightarrow> rn_pending (writer_step n (ev, e) s) = [])"
  proof (cases ev)
    case (Got c)
    let ?s = "put_candle c s"
    have t': "tracked versions ?s" using t put_candle_pending_ok by (simp add: tracked_def)
    note at = put_candle_at[of c s vid k]
    show ?thesis
    proof (cases "n \<le> length (rn_pending ?s)")
      case True
      have "rn_status (flush e ?s) \<noteq> Failed x" for x using ok[of x] Got True by (simp add: writer_step_got[OF running])
      note f = flush_tracked[OF t' ids k elig this]
      show ?thesis using f at Got True by (simp add: writer_step_got[OF running] tracked_def writer_at_def)
    next
      case False
      then show ?thesis using at t' Got by (simp add: writer_step_got[OF running])
    qed
  next
    case TimedOut
    have "rn_status (flush e s) \<noteq> Failed x" for x
      using ok[of x] running TimedOut by (simp add: writer_step_def)
    note f = flush_tracked[OF t ids k elig this]
    show ?thesis using f running TimedOut by (simp add: writer_step_def tracked_def writer_at_def)
  next
    case Closing
    have "rn_status (flush e s) \<noteq> Failed x" for x
      using ok[of x] running Closing by (auto simp: writer_step_def Let_def split: if_splits)
    note f = flush_tracked[OF t ids k elig this]
    show ?thesis using f running Closing by (simp add: writer_step_def tracked_def writer_at_def minute_row_def Let_def)
  qed
  then show "writer_at (writer_step n (ev, e) s) vid k
       = fold_opt row_pick (map (candle_row_of None) (filter (\<lambda>c. storage_key c = k) (got [(ev, e)]))) (writer_at s vid k)"
    and "ev \<noteq> Closing \<Longrightarrow> tracked versions (writer_step n (ev, e) s)"
    and "ev = Closing \<Longrightarrow> rn_pending (writer_step n (ev, e) s) = []"
    by blast+
qed

lemma writer_closing_finished:
  "rn_status s = Running \<Longrightarrow> rn_status (writer_step n (Closing, e) s) \<noteq> Running"
  by (auto simp: writer_step_def Let_def)

lemma fold_opt_append: "fold_opt pick (xs @ ys) r = fold_opt pick ys (fold_opt pick xs r)"
  by (simp add: fold_opt_def)

lemma writer_runs_at:
  assumes "tracked versions s" and ids: "distinct (map cv_id versions)" and k: "key_version versions k = Some vid"
    and elig: "\<And>ev e. (ev, e) \<in> set evs \<Longrightarrow> eligible_key e k"
    and fin: "rn_status (writer_runs n evs s) = Finished"
  shows "minute_row (rn_db (writer_runs n evs s)) vid k
       = fold_opt row_pick (map (candle_row_of None) (filter (\<lambda>c. storage_key c = k) (got evs))) (writer_at s vid k)"
  using assms(1) elig fin
proof (induction evs arbitrary: s)
  case Nil
  then show ?case by (simp add: writer_runs_def tracked_def)
next
  case (Cons ee evs)
  obtain ev e where ee: "ee = (ev, e)" by (cases ee)
  let ?s = "writer_step n (ev, e) s"
  have rest: "writer_runs n (ee # evs) s = writer_runs n evs ?s" by (simp add: ee writer_runs_Cons)
  have ok: "rn_status ?s \<noteq> Failed x" for x
    using Cons.prems(3) writer_runs_stopped[of ?s n evs] unfolding rest by auto
  have el: "eligible_key e k" using Cons.prems(2) ee by auto
  note st = writer_step_tracked[OF Cons.prems(1) ids k el ok]
  show ?case
  proof (cases "ev = Closing")
    case True
    then have stopped: "writer_runs n evs ?s = ?s"
      using writer_closing_finished Cons.prems(1) by (intro writer_runs_stopped) (simp add: tracked_def)
    show ?thesis using st(1,3) True unfolding rest stopped by (simp add: ee writer_at_def)
  next
    case False
    have tail: "got (ee # evs) = got [(ev, e)] @ got evs" using False by (cases ev) (simp_all add: ee)
    have "minute_row (rn_db (writer_runs n evs ?s)) vid k
       = fold_opt row_pick (map (candle_row_of None) (filter (\<lambda>c. storage_key c = k) (got evs))) (writer_at ?s vid k)"
      using Cons.IH[OF st(2)[OF False]] Cons.prems(2,3) rest by auto
    then show ?thesis unfolding rest tail by (simp add: fold_opt_append st(1))
  qed
qed

subsection \<open>Accounts\<close>

definition entry_ok :: "nat \<Rightarrow> flush_log \<Rightarrow> bool" where
  "entry_ok n l \<longleftrightarrow> 0 < fl_deduplicated l \<and> fl_deduplicated l \<le> n \<and> fl_deduplicated l \<le> fl_received l
     \<and> (fl_error l \<or> fl_stored l + fl_ignored l = fl_deduplicated l)"

definition writer_failure_ok :: "writer_status \<Rightarrow> bool" where
  "writer_failure_ok st \<longleftrightarrow>
     (case st of Failed x \<Rightarrow> exn_class x = CandleStoreError \<or> exn_class x = UnknownCandleInstrumentError
      | _ \<Rightarrow> True)"

text \<open>\<open>books n count s\<close>: the state after \<open>count\<close> items were taken from the queue.\<close>

definition books :: "nat \<Rightarrow> nat \<Rightarrow> writer_run \<Rightarrow> bool" where
  "books n count s \<longleftrightarrow>
     pending_ok (rn_pending s) \<and> length (rn_pending s) \<le> n
     \<and> length (rn_pending s) \<le> rn_received s
     \<and> (rn_pending s = [] \<longrightarrow> rn_received s = 0 \<or> rn_status s \<noteq> Running)
     \<and> list_all (entry_ok n) (rn_logs s)
     \<and> sum_list (map fl_received (rn_logs s)) + (if rn_status s = Running then rn_received s else 0) = count
     \<and> rn_notified s = length (filter (\<lambda>l. 0 < fl_stored l) (rn_logs s))
     \<and> writer_failure_ok (rn_status s)"

lemma flush_batch_length: "length (flush_batch e p) \<le> length p"
  unfolding flush_batch_def using length_filter_le[of "eligible e" "sort_key storage_key (map snd p)"] by simp

lemma upsert_counts:
  "upsert_candles ok run cs db = (Inr r, db') \<Longrightarrow> sr_stored r + sr_ignored r = length cs"
proof (cases "cs = []")
  case True
  assume "upsert_candles ok run cs db = (Inr r, db')"
  with True show ?thesis by (auto simp: upsert_candles_def)
next
  case False
  assume ok: "upsert_candles ok run cs db = (Inr r, db')"
  obtain stored tbl where "insert_candles (db_runs db) run (versions_covering_candles (db_versions db) cs) cs 0 (db_candles db)
       = Some (stored, tbl)" and r: "r = \<lparr>sr_received = length cs, sr_stored = stored, sr_ignored = length cs - stored\<rparr>"
    using upsert_okE[OF ok False] by metis
  then show ?thesis using insert_candles_count by fastforce
qed

lemma upsert_error_class:
  assumes "upsert_candles ok run cs db = (Inl x, db')" and "distinct (map storage_key cs)"
  shows "exn_class x = CandleStoreError \<or> exn_class x = UnknownCandleInstrumentError"
  using assms by (auto simp: upsert_candles_def Let_def raise_exn_def split: if_splits option.splits prod.splits)

lemma flush_books:
  fixes e :: writer_env
  assumes b: "books n count s" and run: "rn_status s = Running"
  defines "t \<equiv> flush e s"
  shows "rn_pending t = []" "rn_received t = rn_received s" "list_all (entry_ok n) (rn_logs t)"
    "sum_list (map fl_received (rn_logs t)) = count"
    "rn_notified t = length (filter (\<lambda>l. 0 < fl_stored l) (rn_logs t))"
    "writer_failure_ok (rn_status t)" "rn_status t \<noteq> Finished"
proof -
  let ?p = "rn_pending s" and ?batch = "flush_batch e (rn_pending s)"
  have p: "pending_ok ?p" using b by (simp add: books_def)
  have "rn_pending t = [] \<and> rn_received t = rn_received s \<and> list_all (entry_ok n) (rn_logs t)
    \<and> sum_list (map fl_received (rn_logs t)) = count
    \<and> rn_notified t = length (filter (\<lambda>l. 0 < fl_stored l) (rn_logs t)) \<and> writer_failure_ok (rn_status t)
    \<and> rn_status t \<noteq> Finished"
  proof (cases "?p = []")
    case True
    with b run show ?thesis by (auto simp: t_def flush_nothing books_def)
  next
    case False
    show ?thesis
    proof (cases "?batch = []")
      case True
      with b run False show ?thesis
        by (auto simp: t_def flush_def Let_def books_def entry_ok_def writer_failure_ok_def)
    next
      case nonempty: False
      obtain res db' where up: "upsert_candles (we_sql_ok e) None ?batch (rn_db s) = (res, db')" by fastforce
      show ?thesis
      proof (cases res)
        case (Inl x)
        note cls = upsert_error_class[OF up[unfolded Inl] distinct_keys_sort_filter[OF p]]
        have ft: "t = s\<lparr>rn_pending := [], rn_status := Failed x, rn_db := db', rn_logs := rn_logs s @
            [\<lparr>fl_received = rn_received s, fl_deduplicated = length ?p, fl_stored = 0,
              fl_ignored = length ?p - length ?batch, fl_error = True\<rparr>]\<rparr>"
          using False nonempty up Inl by (simp add: t_def flush_def Let_def)
        show ?thesis using b run False cls unfolding ft by (auto simp: books_def entry_ok_def writer_failure_ok_def)
      next
        case (Inr r)
        note counts = upsert_counts[OF up[unfolded Inr]]
        have ft: "t = s\<lparr>rn_pending := [], rn_db := db', rn_logs := rn_logs s @
            [\<lparr>fl_received = rn_received s, fl_deduplicated = length ?p, fl_stored = sr_stored r,
              fl_ignored = length ?p - length ?batch + sr_ignored r, fl_error = False\<rparr>],
            rn_notified := rn_notified s + (if 0 < sr_stored r then 1 else 0)\<rparr>"
          using False nonempty up Inr by (simp add: t_def flush_def Let_def)
        show ?thesis using b run False counts flush_batch_length[of e ?p] unfolding ft
          by (auto simp: books_def entry_ok_def writer_failure_ok_def)
      qed
    qed
  qed
  then show "rn_pending t = []" "rn_received t = rn_received s" "list_all (entry_ok n) (rn_logs t)"
    "sum_list (map fl_received (rn_logs t)) = count"
    "rn_notified t = length (filter (\<lambda>l. 0 < fl_stored l) (rn_logs t))"
    "writer_failure_ok (rn_status t)" "rn_status t \<noteq> Finished" by blast+
qed

lemma reset_received_books:
  assumes "books n count s" and "rn_status s = Running"
  shows "books n count (reset_received (flush e s))"
  using flush_books[OF assms, of e] by (auto simp: books_def reset_received_def)

lemma put_candle_books:
  assumes "books n count s" and "rn_status s = Running" and "length (rn_pending s) < n"
  shows "books n (count + 1) (put_candle c s)"
  using assms length_update_le[of "storage_key c" "preferred_candle (map_of (rn_pending s) (storage_key c)) c" "rn_pending s"]
    put_candle_pending_ok[of s c]
  by (auto simp: books_def put_candle_def AList.update_nonempty)

text \<open>Between two events the pending map is below the batch size.\<close>

definition settled :: "nat \<Rightarrow> nat \<Rightarrow> writer_run \<Rightarrow> bool" where
  "settled n count s \<longleftrightarrow> books n count s \<and> (rn_status s = Running \<longrightarrow> length (rn_pending s) < n)"

lemma writer_step_settled:
  assumes s: "settled n count s" and "0 < n" and run: "rn_status s = Running"
  shows "settled n (count + length (got [(ev, e)])) (writer_step n (ev, e) s)"
proof (cases ev)
  case (Got c)
  have p: "books n (count + 1) (put_candle c s)" using s run by (intro put_candle_books) (simp_all add: settled_def)
  have r: "rn_status (put_candle c s) = Running" using run by simp
  show ?thesis
    using p reset_received_books[OF p r] flush_books(1)[OF p r] \<open>0 < n\<close>
    by (simp add: Got writer_step_got[OF run] settled_def)
next
  case TimedOut
  have b: "books n count s" using s by (simp add: settled_def)
  show ?thesis
    using reset_received_books[OF b run] flush_books(1)[OF b run] \<open>0 < n\<close> run
    by (simp add: TimedOut writer_step_def settled_def)
next
  case Closing
  have b: "books n count s" using s by (simp add: settled_def)
  show ?thesis
    using flush_books[OF b run, of e] run
    by (auto simp: Closing writer_step_def settled_def books_def Let_def writer_failure_ok_def)
qed

lemma flush_not_finished: "rn_status s = Running \<Longrightarrow> rn_status (flush e s) \<noteq> Finished"
  by (auto simp: flush_def Let_def split: prod.splits sum.splits)

lemma writer_step_finished:
  assumes "rn_status s = Running" and "rn_status (writer_step n (ev, e) s) = Finished"
  shows "ev = Closing"
proof (cases ev)
  case (Got c)
  with assms flush_not_finished[of "put_candle c s" e] show ?thesis
    by (simp add: writer_step_got split: if_splits)
next
  case TimedOut
  with assms flush_not_finished[of s e] show ?thesis by (simp add: writer_step_def)
qed

lemma writer_runs_settled:
  assumes "settled n count s" and "0 < n" and "rn_status s = Running"
  shows "\<exists>k \<le> length (got evs). settled n (count + k) (writer_runs n evs s)
     \<and> ((\<forall>x. rn_status (writer_runs n evs s) \<noteq> Failed x) \<longrightarrow> k = length (got evs))"
  using assms(1,3)
proof (induction evs arbitrary: s count)
  case Nil
  then show ?case by (simp add: writer_runs_def)
next
  case (Cons ee evs)
  obtain ev e where ee: "ee = (ev, e)" by (cases ee)
  let ?s = "writer_step n (ev, e) s"
  have st: "settled n (count + length (got [(ev, e)])) ?s"
    by (rule writer_step_settled[OF Cons.prems(1) assms(2) Cons.prems(2)])
  have le: "length (got [(ev, e)]) \<le> length (got (ee # evs))" by (cases ev) (simp_all add: ee)
  show ?case
  proof (cases "rn_status ?s")
    case Running
    then have "ev \<noteq> Closing" using writer_closing_finished[OF Cons.prems(2)] by auto
    then have tail: "length (got (ee # evs)) = length (got [(ev, e)]) + length (got evs)"
      by (cases ev) (simp_all add: ee)
    from Cons.IH[OF st Running] obtain k where "k \<le> length (got evs)"
      "settled n (count + length (got [(ev, e)]) + k) (writer_runs n evs ?s)"
      "(\<forall>x. rn_status (writer_runs n evs ?s) \<noteq> Failed x) \<longrightarrow> k = length (got evs)" by blast
    then show ?thesis
      by (intro exI[of _ "length (got [(ev, e)]) + k"]) (simp add: ee writer_runs_Cons tail[unfolded ee] add.assoc)
  next
    case Finished
    then have stop: "writer_runs n evs ?s = ?s" by (intro writer_runs_stopped) simp
    have "ev = Closing" by (rule writer_step_finished[OF Cons.prems(2) Finished])
    then have "length (got (ee # evs)) = 0" by (simp add: ee)
    then show ?thesis using st \<open>ev = Closing\<close> unfolding ee writer_runs_Cons stop by simp
  next
    case (Failed x)
    then have stop: "writer_runs n evs ?s = ?s" by (intro writer_runs_stopped) simp
    show ?thesis using st le Failed by (auto simp: ee writer_runs_Cons stop)
  qed
qed

lemma writer_start_settled: "0 < n \<Longrightarrow> settled n 0 (writer_start db)"
  by (simp add: settled_def books_def writer_start_def writer_failure_ok_def)

section \<open>Properties\<close>

text \<open>
  C4. Batching is transparent: when the writer has finished, every minute of a version it covers
  holds exactly what storing the received candles one by one, in the order received, would leave
  there, whatever the batch size and wherever the timeouts fell.
\<close>

theorem batching_transparent:
  assumes "distinct (map cv_id (db_versions db))" and "key_version (db_versions db) k = Some vid"
    and "list_all (\<lambda>(ev, e). eligible_key e k) evs"
    and "rn_status (writer_runs n evs (writer_start db)) = Finished"
  shows "db_candles (rn_db (writer_runs n evs (writer_start db))) (vid, snd (snd k))
       = fold_opt row_pick (map (candle_row_of None) (filter (\<lambda>c. storage_key c = k) (got evs)))
           (db_candles db (vid, snd (snd k)))"
proof -
  have "tracked (db_versions db) (writer_start db)" by (simp add: tracked_def writer_start_def)
  from writer_runs_at[OF this assms(1,2) _ assms(4)] show ?thesis
    using assms(3) by (auto simp: list_all_iff writer_at_def minute_row_def writer_start_def)
qed

text \<open>
  The accounts of the writer balance for every configuration its constructor accepts: a flush
  handles at most \<open>batch_size\<close> (at most 250) distinct minutes, stored and ignored add up to the
  deduplicated ones, the received counts add up to the items taken, the persisted callback ran once
  per flush that stored something, and only a failure of the store can end the writer early.
\<close>

theorem writer_accounts:
  fixes evs :: "(writer_event \<times> writer_env) list" and db :: candle_db
  assumes "writer_config_ok batch_size flush_seconds has_lock has_starts = Inr ()"
  defines "s \<equiv> writer_runs (nat batch_size) evs (writer_start db)"
  shows "list_all (\<lambda>l. fl_deduplicated l \<le> 250 \<and> fl_deduplicated l \<le> fl_received l
              \<and> (fl_error l \<or> fl_stored l + fl_ignored l = fl_deduplicated l)) (rn_logs s)
       \<and> rn_notified s = length (filter (\<lambda>l. 0 < fl_stored l) (rn_logs s))
       \<and> (case rn_status s of
            Running \<Rightarrow> sum_list (map fl_received (rn_logs s)) + rn_received s = length (got evs)
          | Finished \<Rightarrow> sum_list (map fl_received (rn_logs s)) = length (got evs)
          | Failed x \<Rightarrow> exn_class x = CandleStoreError \<or> exn_class x = UnknownCandleInstrumentError)"
proof -
  have n: "0 < nat batch_size" "nat batch_size \<le> 250"
    using assms(1) by (auto simp: writer_config_ok_def split: if_splits)
  obtain k where k: "settled (nat batch_size) k s"
      "(\<forall>x. rn_status s \<noteq> Failed x) \<longrightarrow> k = length (got evs)"
    using writer_runs_settled[OF writer_start_settled[OF n(1)] n(1), of db evs]
    by (auto simp: s_def writer_start_def)
  have "list_all (\<lambda>l. fl_deduplicated l \<le> 250 \<and> fl_deduplicated l \<le> fl_received l
              \<and> (fl_error l \<or> fl_stored l + fl_ignored l = fl_deduplicated l)) (rn_logs s)"
    using k(1) n(2) by (auto simp: settled_def books_def list_all_iff entry_ok_def)
  with k show ?thesis
    by (auto simp: settled_def books_def writer_failure_ok_def split: writer_status.splits)
qed

definition quiet_env :: writer_env where
  "quiet_env = \<lparr>we_active = None, we_starts = None, we_sql_ok = True\<rparr>"

lemma writer_accounts_witness:
  "sum_list (map fl_received (rn_logs (writer_runs 2
      [(Got sample_candle, quiet_env), (Got sample_candle, quiet_env), (Closing, quiet_env)]
      (writer_start sample_candle_db)))) = 2"
proof -
  have c: "writer_config_ok 2 1 True True = Inr ()" by code_simp
  have f: "rn_status (writer_runs (nat 2)
      [(Got sample_candle, quiet_env), (Got sample_candle, quiet_env), (Closing, quiet_env)]
      (writer_start sample_candle_db)) = Finished" by code_simp
  from writer_accounts[OF c, where db = sample_candle_db
      and evs = "[(Got sample_candle, quiet_env), (Got sample_candle, quiet_env), (Closing, quiet_env)]"] f
  show ?thesis by simp
qed

lemma batching_transparent_witness:
  "db_candles (rn_db (writer_runs 2 [(Got sample_candle, quiet_env), (Closing, quiet_env)]
      (writer_start sample_candle_db))) (7, 60 * minute_us) = Some (candle_row_of None sample_candle)"
proof -
  let ?evs = "[(Got sample_candle, quiet_env), (Closing, quiet_env)]"
  let ?k = "storage_key sample_candle"
  have ids: "distinct (map cv_id (db_versions sample_candle_db))" by code_simp
  have k: "key_version (db_versions sample_candle_db) ?k = Some 7" by code_simp
  have e: "list_all (\<lambda>(ev, e). eligible_key e ?k) ?evs"
    by (simp add: eligible_key_def eligible_def quiet_env_def)
  have f: "rn_status (writer_runs 2 ?evs (writer_start sample_candle_db)) = Finished" by code_simp
  have b: "snd (snd ?k) = 60 * minute_us" by code_simp
  show ?thesis using batching_transparent[OF ids k e f] unfolding b by (simp add: sample_candle_db_def)
qed

definition supervisor_ok :: "(json \<Rightarrow> string) \<Rightarrow> supervisor \<Rightarrow> bool" where
  "supervisor_ok sha s \<longleftrightarrow>
     (case sv_producer s of None \<Rightarrow> sv_fingerprint s = []
      | Some instruments \<Rightarrow> instruments \<noteq> [] \<and> fingerprint_of sha instruments = sv_fingerprint s)"

text \<open>
  After every round the supervisor runs a producer for exactly the active linear perpetuals of
  its venue, as far as ids and semantic definitions go, and none when there are none.
\<close>

theorem supervisor_follows_catalog:
  assumes "supervisor_ok sha s" and "supervise sha v supplied ended s = Inr s'"
  shows "supervisor_ok sha s' \<and> sv_fingerprint s' = fingerprint_of sha (active_venue_instruments supplied v)"
proof (cases "fingerprint_of sha (active_venue_instruments supplied v) = sv_fingerprint s")
  case True
  with assms show ?thesis by (auto simp: supervise_def Let_def raise_exn_def split: if_splits option.splits)
next
  case False
  then have "s' = \<lparr>sv_fingerprint = fingerprint_of sha (active_venue_instruments supplied v),
      sv_producer = (if active_venue_instruments supplied v = [] then None
                     else Some (active_venue_instruments supplied v))\<rparr>"
    using assms(2) by (auto simp: supervise_def Let_def raise_exn_def split: if_splits)
  then show ?thesis by (simp add: supervisor_ok_def fingerprint_of_def)
qed

lemma supervisor_follows_catalog_witness:
  "supervise (\<lambda>_. ''h'') Mexc [sample_instrument] None \<lparr>sv_fingerprint = [], sv_producer = None\<rparr>
     = Inr \<lparr>sv_fingerprint = [(''mexc:BTC_USDT'', Inr ''h'')], sv_producer = Some [sample_instrument]\<rparr>
   \<and> supervisor_ok (\<lambda>_. ''h'') \<lparr>sv_fingerprint = [(''mexc:BTC_USDT'', Inr ''h'')], sv_producer = Some [sample_instrument]\<rparr>"
proof (rule conjI)
  show t: "supervise (\<lambda>_. ''h'') Mexc [sample_instrument] None \<lparr>sv_fingerprint = [], sv_producer = None\<rparr>
     = Inr \<lparr>sv_fingerprint = [(''mexc:BTC_USDT'', Inr ''h'')], sv_producer = Some [sample_instrument]\<rparr>" by code_simp
  have "supervisor_ok (\<lambda>_. ''h'') \<lparr>sv_fingerprint = [], sv_producer = None\<rparr>" by (simp add: supervisor_ok_def)
  from supervisor_follows_catalog[OF this t]
  show "supervisor_ok (\<lambda>_. ''h'') \<lparr>sv_fingerprint = [(''mexc:BTC_USDT'', Inr ''h'')], sv_producer = Some [sample_instrument]\<rparr>"
    by blast
qed

end
