(* ===== verification/Mexc_Budget.thy ===== *)
theory Mexc_Budget
  imports Watch_Prelude
begin

text \<open>
  The shared MEXC request budget (\<open>mexc_budget.py\<close>): a dedicated SQLite database in which every
  HTTP attempt is admitted before it starts.  The record \<open>budget_db\<close> is that database, one call
  of \<open>transaction\<close> is one \<open>_transaction\<close> (its commit or its rollback), and \<open>budget_run\<close> is any
  interleaving of calls by any processes, since \<open>BEGIN IMMEDIATE\<close> serialises them.
\<close>

section \<open>State\<close>

datatype budget_lane = Funding | Foreground | Recovery

fun lane_limit :: "budget_lane \<Rightarrow> nat" where
  "lane_limit Funding = 4"
| "lane_limit Foreground = 2"
| "lane_limit Recovery = 2"

definition window_ms :: int where "window_ms = 2000"
definition budget_application_id :: int where "budget_application_id = 1296390211"

record budget_meta =
  meta_version :: int
  cooldown_until :: int
  last_clock :: int

record budget_db =
  application_id :: int
  tables :: "string list"
  meta :: "budget_meta option"
  attempts :: "(int \<times> budget_lane) list"

datatype budget_exn = MexcBudgetUnavailable | SqliteError | PyTypeError

declare window_ms_def [unfold_code] budget_application_id_def [unfold_code]

section \<open>One transaction\<close>

text \<open>Adopt or refuse the database: only an empty one is initialised, a foreign one is refused.\<close>

definition open_schema :: "budget_db \<Rightarrow> budget_exn + budget_db" where
  "open_schema db =
     (if application_id db = 0 then
        (if tables db \<noteq> [] then Inl MexcBudgetUnavailable
         else Inr (db\<lparr>application_id := budget_application_id,
                      tables := [''mexc_budget_meta'', ''mexc_budget_attempts''],
                      meta := Some \<lparr>meta_version = 1, cooldown_until = 0, last_clock = 0\<rparr>,
                      attempts := []\<rparr>))
      else if application_id db \<noteq> budget_application_id then Inl MexcBudgetUnavailable
      else Inr db)"

text \<open>The delays that the global and the lane window impose on an attempt at \<open>now\<close>.\<close>

definition kth_last_wait :: "nat \<Rightarrow> int \<Rightarrow> int list \<Rightarrow> int list" where
  "kth_last_wait k now ats =
     (if k \<le> length ats then [ats ! (length ats - k) + window_ms - now] else [])"

definition admission_delay :: "int \<Rightarrow> int \<Rightarrow> budget_lane \<Rightarrow> (int \<times> budget_lane) list \<Rightarrow> int" where
  "admission_delay now cooldown lane rows =
     (let waits = [cooldown - now] @ kth_last_wait 8 now (map fst rows)
            @ kth_last_wait (lane_limit lane) now (map fst (filter (\<lambda>r. snd r = lane) rows))
      in foldr max waits 0)"

text \<open>
  The body of the transaction.  \<open>lane = None\<close> is the cooldown request.  A missing table is an
  \<open>OperationalError\<close> of SQLite, a missing meta row makes the tuple assignment raise
  \<open>TypeError\<close>.
\<close>

definition transaction_body ::
    "int \<Rightarrow> budget_lane option \<Rightarrow> int \<Rightarrow> budget_db \<Rightarrow> budget_exn + (int \<times> budget_db)" where
  "transaction_body now lane cooldown_ms db0 =
     (case open_schema db0 of Inl e \<Rightarrow> Inl e | Inr db \<Rightarrow>
      if ''mexc_budget_meta'' \<notin> set (tables db) then Inl SqliteError else
      (case meta db of None \<Rightarrow> Inl PyTypeError | Some m \<Rightarrow>
       if meta_version m \<noteq> 1 then Inl MexcBudgetUnavailable
       else if now < last_clock m then Inl MexcBudgetUnavailable
       else (let m = m\<lparr>last_clock := now\<rparr> in
         (case lane of
            None \<Rightarrow>
              Inr (0, db\<lparr>meta := Some (m\<lparr>cooldown_until := max (cooldown_until m) (now + cooldown_ms)\<rparr>)\<rparr>)
          | Some l \<Rightarrow>
              if ''mexc_budget_attempts'' \<notin> set (tables db) then Inl SqliteError else
              (let kept = filter (\<lambda>r. now - window_ms < fst r) (attempts db);
                   rows = sort_key fst kept;
                   delay = admission_delay now (cooldown_until m) l rows
               in Inr (delay, db\<lparr>meta := Some m,
                                 attempts := (if delay = 0 then kept @ [(now, l)] else kept)\<rparr>))))))"

text \<open>A raised exception rolls the transaction back.\<close>

definition transaction ::
    "int \<Rightarrow> budget_lane option \<Rightarrow> int \<Rightarrow> budget_db \<Rightarrow> (budget_exn + int) \<times> budget_db" where
  "transaction now lane cooldown_ms db =
     (case transaction_body now lane cooldown_ms db of
        Inl e \<Rightarrow> (Inl e, db)
      | Inr (delay, db') \<Rightarrow> (Inr delay, db'))"

declare open_schema_def [unfold_code] kth_last_wait_def [unfold_code]
  admission_delay_def [unfold_code] transaction_body_def [unfold_code] transaction_def [unfold_code]


section \<open>Runs of calls\<close>

datatype budget_call = Attempt budget_lane | Cooldown int

fun call_transaction :: "int \<Rightarrow> budget_call \<Rightarrow> budget_db \<Rightarrow> (budget_exn + int) \<times> budget_db" where
  "call_transaction now (Attempt l) db = transaction now (Some l) 0 db"
| "call_transaction now (Cooldown ms) db = transaction now None ms db"

text \<open>
  \<open>admitted\<close> tells which calls let an HTTP request start; \<open>budget_run\<close> collects them, oldest
  first, over any sequence of calls with any clock readings.
\<close>

fun admitted :: "int \<Rightarrow> budget_call \<Rightarrow> budget_exn + int \<Rightarrow> (int \<times> budget_lane) list" where
  "admitted now (Attempt l) (Inr delay) = (if delay = 0 then [(now, l)] else [])"
| "admitted now (Attempt l) (Inl e) = []"
| "admitted now (Cooldown ms) r = []"

fun budget_run :: "(int \<times> budget_call) list \<Rightarrow> budget_db \<Rightarrow> (int \<times> budget_lane) list \<times> budget_db" where
  "budget_run [] db = ([], db)"
| "budget_run ((now, c) # cs) db =
     (let (r, db1) = call_transaction now c db;
          (hist, db2) = budget_run cs db1
      in (admitted now c r @ hist, db2))"

definition fresh_db :: budget_db where
  "fresh_db = \<lparr>application_id = 0, tables = [], meta = None, attempts = []\<rparr>"

declare fresh_db_def [unfold_code]

definition in_window :: "int \<Rightarrow> int \<times> budget_lane \<Rightarrow> bool" where
  "in_window t r \<longleftrightarrow> t - window_ms < fst r \<and> fst r \<le> t"

lemma transaction_error_keeps: "fst (transaction now lane ms db) = Inl e \<Longrightarrow> snd (transaction now lane ms db) = db"
  by (auto simp: transaction_def split: sum.splits)

lemma transaction_clock_rollback:
  assumes "application_id db = budget_application_id" and "meta db = Some m" and "now < last_clock m"
  shows "\<exists>e. transaction now lane ms db = (Inl e, db)"
  using assms by (auto simp: transaction_def transaction_body_def open_schema_def budget_application_id_def Let_def)

subsection \<open>The waits\<close>

lemma foldr_max_ge: "(0::int) \<le> foldr max xs 0" "x \<in> set xs \<Longrightarrow> x \<le> foldr max xs 0"
  by (induction xs) auto

lemma foldr_max_le: "(\<And>x. x \<in> set xs \<Longrightarrow> x \<le> b) \<Longrightarrow> (0::int) \<le> b \<Longrightarrow> foldr max xs 0 \<le> b"
  by (induction xs) auto

lemma admission_delay_nonneg: "0 \<le> admission_delay now c l rows"
  unfolding admission_delay_def Let_def by (rule foldr_max_ge(1))

lemma admission_delay_ge:
  "c - now \<le> admission_delay now c l rows"
  "w \<in> set (kth_last_wait 8 now (map fst rows)) \<Longrightarrow> w \<le> admission_delay now c l rows"
  "w \<in> set (kth_last_wait (lane_limit l) now (map fst (filter (\<lambda>r. snd r = l) rows)))
     \<Longrightarrow> w \<le> admission_delay now c l rows"
  unfolding admission_delay_def Let_def by (rule foldr_max_ge(2); simp)+

lemma lane_limit_pos [simp]: "0 < lane_limit l"
  by (cases l) auto

text \<open>No delay means that both windows still have room.\<close>

lemma kth_last_wait_room:
  assumes "\<And>w. w \<in> set (kth_last_wait k now ats) \<Longrightarrow> w \<le> 0"
    and "\<And>a. a \<in> set ats \<Longrightarrow> now - window_ms < a" and "0 < k"
  shows "length ats < k"
proof (rule ccontr)
  assume "\<not> length ats < k"
  then have k: "k \<le> length ats" by simp
  then have "ats ! (length ats - k) \<in> set ats" using \<open>0 < k\<close> by (intro nth_mem) simp
  then show False using assms(1)[of "ats ! (length ats - k) + window_ms - now"] assms(2) k
    by (force simp: kth_last_wait_def)
qed

lemma admission_room:
  assumes "admission_delay now c l rows = 0" and "\<And>r. r \<in> set rows \<Longrightarrow> now - window_ms < fst r"
  shows "c \<le> now" "length rows < 8" "length (filter (\<lambda>r. snd r = l) rows) < lane_limit l"
proof -
  show "c \<le> now" using admission_delay_ge(1)[of c now l rows] assms(1) by simp
  have "length (map fst rows) < 8"
    using admission_delay_ge(2)[of _ now rows c l] assms by (intro kth_last_wait_room[where now = now]) auto
  then show "length rows < 8" by simp
  have "length (map fst (filter (\<lambda>r. snd r = l) rows)) < lane_limit l"
    using admission_delay_ge(3)[of _ l now rows c] assms by (intro kth_last_wait_room[where now = now]) auto
  then show "length (filter (\<lambda>r. snd r = l) rows) < lane_limit l" by simp
qed

subsection \<open>The hist invariant\<close>

text \<open>
  \<open>hist\<close> is everything admitted so far.  The table holds the suffix of the hist that is later
  than some purge point, which lies at least one window before the recorded clock.
\<close>

definition purged_log :: "(int \<times> budget_lane) list \<Rightarrow> budget_db \<Rightarrow> budget_meta \<Rightarrow> bool" where
  "purged_log hist db m \<longleftrightarrow>
     (\<exists>p. p \<le> last_clock m - window_ms \<and> attempts db = filter (\<lambda>r. p < fst r) hist)"

definition windows_bounded :: "(int \<times> budget_lane) list \<Rightarrow> bool" where
  "windows_bounded hist \<longleftrightarrow>
     (\<forall>t. length (filter (in_window t) hist) \<le> 8
        \<and> (\<forall>l. length (filter (\<lambda>r. in_window t r \<and> snd r = l) hist) \<le> lane_limit l))"

definition budget_inv :: "(int \<times> budget_lane) list \<Rightarrow> budget_db \<Rightarrow> bool" where
  "budget_inv hist db \<longleftrightarrow>
     application_id db = budget_application_id
     \<and> tables db = [''mexc_budget_meta'', ''mexc_budget_attempts'']
     \<and> sorted (map fst hist) \<and> windows_bounded hist
     \<and> (\<exists>m. meta db = Some m \<and> meta_version m = 1 \<and> (\<forall>r\<in>set hist. fst r \<le> last_clock m)
           \<and> purged_log hist db m)"

lemma budget_invI:
  assumes "application_id db = budget_application_id"
    and "tables db = [''mexc_budget_meta'', ''mexc_budget_attempts'']"
    and "sorted (map fst hist)" and "windows_bounded hist"
    and "meta db = Some m" and "meta_version m = 1"
    and "\<And>r. r \<in> set hist \<Longrightarrow> fst r \<le> last_clock m"
    and "p \<le> last_clock m - window_ms" and "attempts db = filter (\<lambda>r. p < fst r) hist"
  shows "budget_inv hist db"
  using assms unfolding budget_inv_def purged_log_def by blast

lemma windows_bounded_Nil [simp]: "windows_bounded []"
  by (simp add: windows_bounded_def)

lemma windows_bounded_snoc:
  assumes "windows_bounded hist" and "\<And>r. r \<in> set hist \<Longrightarrow> fst r \<le> now"
    and rows: "rows = filter (\<lambda>r. now - window_ms < fst r) hist"
    and "length rows < 8" and lane: "length (filter (\<lambda>r. snd r = l) rows) < lane_limit l"
  shows "windows_bounded (hist @ [(now, l)])"
  unfolding windows_bounded_def
proof (intro allI conjI)
  fix t
  have late: "in_window t r \<Longrightarrow> now \<le> t \<Longrightarrow> now - window_ms < fst r" for r
    by (simp add: in_window_def)
  show "length (filter (in_window t) (hist @ [(now, l)])) \<le> 8"
  proof (cases "in_window t (now, l)")
    case True
    then have "length (filter (in_window t) hist) \<le> length rows"
      unfolding rows by (intro length_filter_le_mono late) (auto simp: in_window_def)
    with \<open>length rows < 8\<close> show ?thesis by simp
  next
    case False
    then show ?thesis using assms(1) by (simp add: windows_bounded_def)
  qed
  fix l'
  show "length (filter (\<lambda>r. in_window t r \<and> snd r = l') (hist @ [(now, l)])) \<le> lane_limit l'"
  proof (cases "in_window t (now, l) \<and> l' = l")
    case True
    then have "length (filter (\<lambda>r. in_window t r \<and> snd r = l) hist)
        \<le> length (filter (\<lambda>r. now - window_ms < fst r \<and> snd r = l) hist)"
      by (intro length_filter_le_mono conjI late) (auto simp: in_window_def)
    then show ?thesis using True lane by (simp add: rows conj_commute)
  next
    case False
    then show ?thesis using assms(1) by (auto simp: windows_bounded_def)
  qed
qed

lemma kept_rows:
  assumes "purged_log hist db m" and "last_clock m \<le> now" and "sorted (map fst hist)"
  shows "filter (\<lambda>r. now - window_ms < fst r) (attempts db) = filter (\<lambda>r. now - window_ms < fst r) hist"
    and "sort_key fst (filter (\<lambda>r. now - window_ms < fst r) hist)
       = filter (\<lambda>r. now - window_ms < fst r) hist"
proof -
  obtain p where p: "p \<le> last_clock m - window_ms" "attempts db = filter (\<lambda>r. p < fst r) hist"
    using assms(1) by (auto simp: purged_log_def)
  show "filter (\<lambda>r. now - window_ms < fst r) (attempts db) = filter (\<lambda>r. now - window_ms < fst r) hist"
    unfolding p(2) filter_filter by (rule filter_cong) (use p(1) assms(2) in auto)
  show "sort_key fst (filter (\<lambda>r. now - window_ms < fst r) hist)
       = filter (\<lambda>r. now - window_ms < fst r) hist"
    by (intro sort_key_sorted sorted_map_filter assms(3))
qed

text \<open>The transaction on an initialised database whose clock has not moved backwards.\<close>

lemma transaction_attempt:
  fixes l :: budget_lane and ms :: int
  assumes inv: "budget_inv hist db" and m: "meta db = Some m" and "last_clock m \<le> now"
  defines "rows \<equiv> filter (\<lambda>r. now - window_ms < fst r) hist"
  defines "delay \<equiv> admission_delay now (cooldown_until m) l rows"
  shows "transaction now (Some l) ms db =
    (Inr delay, db\<lparr>meta := Some (m\<lparr>last_clock := now\<rparr>),
                   attempts := (if delay = 0 then rows @ [(now, l)] else rows)\<rparr>)"
proof -
  have log: "purged_log hist db m" "sorted (map fst hist)" and v: "meta_version m = 1"
    and open_db: "application_id db = budget_application_id"
      "tables db = [''mexc_budget_meta'', ''mexc_budget_attempts'']"
    using inv m by (auto simp: budget_inv_def)
  note kept = kept_rows[OF log(1) \<open>last_clock m \<le> now\<close> log(2)]
  show ?thesis
    using open_db m v \<open>last_clock m \<le> now\<close>
    by (simp add: transaction_def transaction_body_def open_schema_def budget_application_id_def
        Let_def kept delay_def rows_def)
qed

lemma transaction_cooldown:
  assumes inv: "budget_inv hist db" and m: "meta db = Some m" and "last_clock m \<le> now"
  shows "transaction now None ms db =
    (Inr 0, db\<lparr>meta := Some (m\<lparr>last_clock := now, cooldown_until := max (cooldown_until m) (now + ms)\<rparr>)\<rparr>)"
  using assms
  by (auto simp: budget_inv_def transaction_def transaction_body_def open_schema_def
      budget_application_id_def Let_def)

lemma budget_inv_attempt:
  assumes inv: "budget_inv hist db" and m: "meta db = Some m" and ge: "last_clock m \<le> now"
  shows "budget_inv (hist @ admitted now (Attempt l) (fst (transaction now (Some l) ms db)))
           (snd (transaction now (Some l) ms db))"
proof -
  define rows where "rows = filter (\<lambda>r. now - window_ms < fst r) hist"
  define delay where "delay = admission_delay now (cooldown_until m) l rows"
  note tr = transaction_attempt[OF inv m ge, of l ms, folded rows_def, folded delay_def]
  have base: "application_id db = budget_application_id" "meta_version m = 1"
    "tables db = [''mexc_budget_meta'', ''mexc_budget_attempts'']"
    "sorted (map fst hist)" "windows_bounded hist"
    and before: "\<And>r. r \<in> set hist \<Longrightarrow> fst r \<le> last_clock m"
    using inv m by (auto simp: budget_inv_def)
  have early: "\<And>r. r \<in> set hist \<Longrightarrow> fst r \<le> now" using before ge by force
  show ?thesis
  proof (cases "delay = 0")
    case True
    have room: "length rows < 8" "length (filter (\<lambda>r. snd r = l) rows) < lane_limit l"
      using admission_room[OF True[unfolded delay_def]] by (auto simp: rows_def)
    have "windows_bounded (hist @ [(now, l)])"
      by (rule windows_bounded_snoc[OF base(5) early rows_def room])
    moreover have "filter (\<lambda>r. now - window_ms < fst r) (hist @ [(now, l)]) = rows @ [(now, l)]"
      by (simp add: rows_def window_ms_def)
    moreover have "sorted (map fst (hist @ [(now, l)]))"
      using base(4) early by (auto simp: sorted_append)
    ultimately have "budget_inv (hist @ [(now, l)]) (snd (transaction now (Some l) ms db))"
      using base early True
      by (intro budget_invI[where m = "m\<lparr>last_clock := now\<rparr>" and p = "now - window_ms"]) (auto simp: tr)
    then show ?thesis using True by (simp add: tr)
  next
    case False
    then have "budget_inv hist (snd (transaction now (Some l) ms db))"
      using base early
      by (intro budget_invI[where m = "m\<lparr>last_clock := now\<rparr>" and p = "now - window_ms"])
        (auto simp: tr rows_def)
    then show ?thesis using False by (simp add: tr)
  qed
qed

lemma budget_inv_cooldown:
  assumes inv: "budget_inv hist db" and m: "meta db = Some m" and ge: "last_clock m \<le> now"
  shows "budget_inv hist (snd (transaction now None ms db))"
proof -
  obtain p where p: "p \<le> last_clock m - window_ms" "attempts db = filter (\<lambda>r. p < fst r) hist"
    using inv m by (auto simp: budget_inv_def purged_log_def)
  have "p \<le> now - window_ms" using p(1) ge by simp
  then show ?thesis using inv m ge p(2)
    by (fastforce simp: budget_inv_def transaction_cooldown[OF inv m ge] purged_log_def)
qed

lemma budget_inv_call:
  assumes "budget_inv hist db"
  shows "budget_inv (hist @ admitted now c (fst (call_transaction now c db))) (snd (call_transaction now c db))"
proof -
  obtain m where m: "meta db = Some m" and app: "application_id db = budget_application_id"
    using assms by (auto simp: budget_inv_def)
  show ?thesis
  proof (cases "now < last_clock m")
    case True
    then obtain e where "call_transaction now c db = (Inl e, db)"
      using transaction_clock_rollback[OF app m] by (cases c) fastforce+
    then show ?thesis using assms by (cases c) auto
  next
    case False
    then show ?thesis using assms m budget_inv_attempt budget_inv_cooldown by (cases c) auto
  qed
qed

text \<open>The first call on an empty database creates the schema and behaves as on an empty log.\<close>

definition initialised_db :: budget_db where
  "initialised_db =
     \<lparr>application_id = budget_application_id, tables = [''mexc_budget_meta'', ''mexc_budget_attempts''],
      meta = Some \<lparr>meta_version = 1, cooldown_until = 0, last_clock = 0\<rparr>, attempts = []\<rparr>"

lemma budget_inv_initialised: "budget_inv [] initialised_db"
  by (auto simp: budget_inv_def initialised_db_def purged_log_def intro: exI[of _ "- window_ms"])

lemma transaction_fresh:
  "fst (transaction now lane ms fresh_db) = fst (transaction now lane ms initialised_db)"
  "transaction now lane ms fresh_db = (Inr d, db') \<Longrightarrow>
   transaction now lane ms initialised_db = (Inr d, db')"
  "transaction now lane ms fresh_db = (Inl e, db') \<Longrightarrow> db' = fresh_db"
  by (auto simp: transaction_def transaction_body_def open_schema_def fresh_db_def initialised_db_def
      budget_application_id_def Let_def split: sum.splits option.splits if_splits)

lemma budget_run_inv:
  "budget_inv hist db \<Longrightarrow> budget_run cs db = (new, db') \<Longrightarrow> budget_inv (hist @ new) db'"
proof (induction cs arbitrary: hist db new)
  case Nil
  then show ?case by simp
next
  case (Cons x cs)
  obtain now c where x: "x = (now, c)" by (cases x)
  let ?r = "call_transaction now c db"
  obtain rest where rest: "budget_run cs (snd ?r) = (rest, db')" and new: "new = admitted now c (fst ?r) @ rest"
    using Cons.prems(2) by (auto simp: x split: prod.splits)
  show ?case using Cons.IH[OF budget_inv_call[OF Cons.prems(1)] rest] by (simp add: new)
qed

lemma budget_run_fresh:
  assumes "budget_run cs fresh_db = (new, db')"
  shows "windows_bounded new"
  using assms
proof (induction cs arbitrary: new)
  case Nil
  then show ?case by simp
next
  case (Cons x cs)
  obtain now c where x: "x = (now, c)" by (cases x)
  obtain r db1 where r: "call_transaction now c fresh_db = (r, db1)" by fastforce
  show ?case
  proof (cases r)
    case (Inl e)
    then have "db1 = fresh_db" using r transaction_fresh(3) by (cases c) auto
    then show ?thesis using Cons x r Inl by (cases c) (auto split: prod.splits)
  next
    case (Inr d)
    then have "call_transaction now c initialised_db = (Inr d, db1)"
      using r transaction_fresh(2) by (cases c) auto
    then have "budget_run (x # cs) initialised_db = (new, db')" using Cons.prems x r Inr by simp
    from budget_run_inv[OF budget_inv_initialised this] show ?thesis by (simp add: budget_inv_def)
  qed
qed


subsection \<open>Cooldown\<close>

definition cooling_until :: "int \<Rightarrow> budget_db \<Rightarrow> bool" where
  "cooling_until c db \<longleftrightarrow>
     application_id db = budget_application_id \<and> (\<exists>m. meta db = Some m \<and> c \<le> cooldown_until m)"

lemma cooling_until_call:
  "cooling_until c db \<Longrightarrow> cooling_until c (snd (call_transaction now call db))"
  by (cases call) (auto simp: cooling_until_def transaction_def transaction_body_def open_schema_def
      budget_application_id_def Let_def)

lemma cooling_until_admitted:
  assumes "cooling_until c db" and "(t, l) \<in> set (admitted now call (fst (call_transaction now call db)))"
  shows "c \<le> t"
proof -
  obtain m where m: "application_id db = budget_application_id" "meta db = Some m" "c \<le> cooldown_until m"
    using assms(1) by (auto simp: cooling_until_def)
  obtain "call = Attempt l" "t = now" and d: "fst (transaction now (Some l) 0 db) = Inr 0"
    using assms(2) by (cases call; cases "fst (call_transaction now call db)") (auto split: if_splits)
  then obtain rows where "admission_delay now (cooldown_until m) l rows = 0"
    using m(1,2) by (auto simp: transaction_def transaction_body_def open_schema_def
        budget_application_id_def Let_def split: if_splits)
  then show ?thesis using admission_delay_ge(1)[of "cooldown_until m" now l rows] m(3) \<open>t = now\<close> by simp
qed

lemma cooldown_establishes:
  "call_transaction t0 (Cooldown ms) db = (Inr d, db') \<Longrightarrow> cooling_until (t0 + ms) db'"
  by (auto simp: cooling_until_def transaction_def transaction_body_def open_schema_def
      budget_application_id_def Let_def split: sum.splits option.splits if_splits)

lemma cooling_until_run:
  "cooling_until c db \<Longrightarrow> r \<in> set (fst (budget_run cs db)) \<Longrightarrow> c \<le> fst r"
proof (induction cs arbitrary: db)
  case Nil
  then show ?case by simp
next
  case (Cons x cs)
  obtain now call where x: "x = (now, call)" by (cases x)
  show ?case
    using Cons cooling_until_admitted[of c db "fst r" "snd r" now call] cooling_until_call[of c db now call]
    by (auto simp: x split: prod.splits)
qed

subsection \<open>The returned delay is long enough\<close>

lemma kth_last_wait_none:
  assumes "sorted ats" and "0 < k" and "\<And>w. w \<in> set (kth_last_wait k now ats) \<Longrightarrow> w \<le> d"
    and "now + d \<le> now'" and "set ats' \<subseteq> {a. now' - window_ms < a}"
    and "length ats' \<le> length (filter (\<lambda>a. now' - window_ms < a) ats)"
  shows "kth_last_wait k now' ats' = []"
proof -
  have "length (filter (\<lambda>a. now' - window_ms < a) ats) < k"
  proof (cases "k \<le> length ats")
    case True
    let ?v = "ats ! (length ats - k)"
    have "?v + window_ms - now \<le> d" using assms(3) True by (simp add: kth_last_wait_def)
    then have "length (filter (\<lambda>a. now' - window_ms < a) ats) \<le> length (filter (\<lambda>a. ?v < a) ats)"
      using assms(4) by (intro length_filter_le_mono) simp
    also have "\<dots> < k" by (rule later_than_kth_last[OF assms(1,2) True])
    finally show ?thesis .
  next
    case False
    then show ?thesis using length_filter_le[of "\<lambda>a. now' - window_ms < a" ats] by linarith
  qed
  then show ?thesis using assms(6) by (simp add: kth_last_wait_def)
qed

lemma sorted_fst_filter_sort: "sorted (map fst (filter P (sort_key fst xs)))"
  by (simp add: filter_sort)

lemma length_filter_conj_le:
  "length (filter P (filter Q xs)) = length (filter (\<lambda>x. Q x \<and> P x) xs)"
  by simp

lemma delay_after_wait:
  fixes kept :: "(int \<times> budget_lane) list"
  defines "rows \<equiv> sort_key fst kept"
  assumes wait: "now + admission_delay now c l rows \<le> now'"
  defines "rows' \<equiv> sort_key fst (filter (\<lambda>r. now' - window_ms < fst r) kept)"
  shows "admission_delay now' c l rows' = 0"
proof -
  let ?d = "admission_delay now c l rows"
  have rows': "rows' = filter (\<lambda>r. now' - window_ms < fst r) rows"
    by (simp add: rows'_def rows_def filter_sort)
  have "kth_last_wait 8 now' (map fst rows') = []"
    by (rule kth_last_wait_none[where ats = "map fst rows" and d = ?d, OF _ _ admission_delay_ge(2) wait])
      (auto simp: rows_def rows' filter_map comp_def)
  moreover have "kth_last_wait (lane_limit l) now' (map fst (filter (\<lambda>r. snd r = l) rows')) = []"
    by (rule kth_last_wait_none[where ats = "map fst (filter (\<lambda>r. snd r = l) rows)" and d = ?d,
          OF _ _ admission_delay_ge(3) wait])
      (auto simp: rows_def rows' filter_map comp_def sorted_fst_filter_sort conj_commute
        simp flip: filter_sort)
  moreover have "c - now' \<le> 0" using admission_delay_ge(1)[of c now l rows] wait by simp
  ultimately show ?thesis by (simp add: admission_delay_def)
qed


lemma transaction_wait:
  assumes r: "transaction now (Some l) ms db = (Inr d, db')" and "0 < d" and "now + d \<le> now'"
  shows "fst (transaction now' (Some l) ms' db') = Inr 0"
proof -
  obtain db0 m where o: "open_schema db = Inr db0" and m: "meta db0 = Some m" "meta_version m = 1"
    and t: "''mexc_budget_meta'' \<in> set (tables db0)" "''mexc_budget_attempts'' \<in> set (tables db0)"
    and d: "d = admission_delay now (cooldown_until m) l
                  (sort_key fst (filter (\<lambda>r. now - window_ms < fst r) (attempts db0)))"
    and db': "db' = db0\<lparr>meta := Some (m\<lparr>last_clock := now\<rparr>),
                        attempts := filter (\<lambda>r. now - window_ms < fst r) (attempts db0)\<rparr>"
    using r \<open>0 < d\<close>
    by (auto simp: transaction_def transaction_body_def Let_def split: sum.splits option.splits if_splits)
  have "application_id db0 = budget_application_id"
    using o by (auto simp: open_schema_def split: if_splits)
  moreover have "now \<le> now'" using assms(2,3) by simp
  moreover have "admission_delay now' (cooldown_until m) l
      (sort_key fst (filter (\<lambda>r. now' - window_ms < fst r)
        (filter (\<lambda>r. now - window_ms < fst r) (attempts db0)))) = 0"
    by (rule delay_after_wait) (use assms(3) d in simp)
  ultimately show ?thesis using m t
    by (simp add: transaction_def transaction_body_def open_schema_def budget_application_id_def
        Let_def db' del: filter_filter)
qed

section \<open>acquire and cooldown\<close>

text \<open>
  One iteration of the loop of \<open>acquire\<close> reads the monotonic clock at the guard, runs the
  transaction in a worker thread (\<open>begin_ok\<close>: the path check and \<open>BEGIN IMMEDIATE\<close> succeeded; it
  reads the wall clock \<open>wall_ms\<close>), reads the monotonic clock again when the delay is 0, and once
  more before it sleeps.  A \<open>poll\<close> holds these readings; a list of polls is the environment of
  one call, and \<open>Polling\<close> is a call that is still waiting when the list ends.  Times in seconds
  are rationals.
\<close>

record poll =
  guard_at :: rat
  begin_ok :: bool
  wall_ms :: int
  checked_at :: rat
  slept_from :: rat

datatype acquire_result = Acquired | AcquireFailed | Polling

definition attempt_at :: "(int \<Rightarrow> 'db \<Rightarrow> (budget_exn + int) \<times> 'db) \<Rightarrow> poll \<Rightarrow> 'db \<Rightarrow> (budget_exn + int) \<times> 'db" where
  "attempt_at admit p db = (if begin_ok p then admit (wall_ms p) db else (Inl SqliteError, db))"

definition sleep_seconds :: "rat \<Rightarrow> int \<Rightarrow> rat" where
  "sleep_seconds remaining delay_ms =
     min remaining (min (max (1/1000) (of_int delay_ms / 1000)) (1/4))"

fun acquire_loop :: "(int \<Rightarrow> 'db \<Rightarrow> (budget_exn + int) \<times> 'db) \<Rightarrow> rat \<Rightarrow> poll list \<Rightarrow> 'db
    \<Rightarrow> acquire_result \<times> rat list \<times> 'db" where
  "acquire_loop admit deadline [] db = (Polling, [], db)"
| "acquire_loop admit deadline (p # ps) db =
     (if guard_at p < deadline then
        (let (r, db1) = attempt_at admit p db in
         if r = Inr 0 \<and> checked_at p < deadline then (Acquired, [], db1)
         else
           (let delay_ms = (case r of Inr d \<Rightarrow> d | Inl _ \<Rightarrow> 50);
                remaining = deadline - slept_from p;
                sleeps = (if 0 < remaining then [sleep_seconds remaining delay_ms] else []);
                (res, rest, db2) = acquire_loop admit deadline ps db1
            in (res, sleeps @ rest, db2)))
      else (AcquireFailed, [], db))"

text \<open>\<open>timeout = None\<close> is a timeout that is not finite.\<close>

definition acquire :: "budget_lane \<Rightarrow> rat option \<Rightarrow> rat \<Rightarrow> poll list \<Rightarrow> budget_db
    \<Rightarrow> acquire_result \<times> rat list \<times> budget_db" where
  "acquire lane timeout started ps db =
     (case timeout of None \<Rightarrow> (AcquireFailed, [], db)
      | Some t \<Rightarrow> if t \<le> 0 then (AcquireFailed, [], db)
                  else acquire_loop (\<lambda>now. transaction now (Some lane) 0) (started + t) ps db)"

text \<open>\<open>seconds = None\<close> is a value that is not finite.\<close>

definition cooldown_request_ms :: "rat option \<Rightarrow> int" where
  "cooldown_request_ms seconds =
     (let s = (case seconds of None \<Rightarrow> 2 | Some s \<Rightarrow> if s < 0 then 2 else s)
      in \<lceil>max 2 s * 1000\<rceil>)"

fun cooldown_loop :: "rat \<Rightarrow> int \<Rightarrow> poll list \<Rightarrow> budget_db \<Rightarrow> acquire_result \<times> rat list \<times> budget_db" where
  "cooldown_loop deadline ms [] db = (Polling, [], db)"
| "cooldown_loop deadline ms (p # ps) db =
     (if guard_at p < deadline then
        (let (r, db1) = attempt_at (\<lambda>now. transaction now None ms) p db in
         (case r of Inr _ \<Rightarrow> (Acquired, [], db1)
          | Inl _ \<Rightarrow>
             (let (res, rest, db2) = cooldown_loop deadline ms ps db1
              in (res, min (1/20) (max 0 (deadline - slept_from p)) # rest, db2))))
      else (AcquireFailed, [], db))"

definition cooldown :: "rat option \<Rightarrow> rat \<Rightarrow> rat \<Rightarrow> poll list \<Rightarrow> budget_db
    \<Rightarrow> acquire_result \<times> rat list \<times> budget_db" where
  "cooldown seconds timeout started ps db =
     cooldown_loop (started + timeout) (cooldown_request_ms seconds) ps db"

declare attempt_at_def [unfold_code] sleep_seconds_def [unfold_code] acquire_def [unfold_code]
  cooldown_request_ms_def [unfold_code] cooldown_def [unfold_code]

lemma sleep_seconds_bounds: "0 < r \<Longrightarrow> 0 < sleep_seconds r d \<and> sleep_seconds r d \<le> 1/4"
  by (auto simp: sleep_seconds_def)

lemma acquire_loop_ConsE:
  assumes "acquire_loop admit deadline (p # ps) db = (res, sleeps, db')"
  obtains (failed) "deadline \<le> guard_at p" "res = AcquireFailed" "sleeps = []" "db' = db"
  | (acquired) "guard_at p < deadline" "checked_at p < deadline" "res = Acquired" "sleeps = []"
      "attempt_at admit p db = (Inr 0, db')"
  | (waits) r db1 d rest where "guard_at p < deadline" "attempt_at admit p db = (r, db1)"
      "acquire_loop admit deadline ps db1 = (res, rest, db')"
      "sleeps = (if 0 < deadline - slept_from p then [sleep_seconds (deadline - slept_from p) d] else []) @ rest"
  using assms by (auto simp: Let_def not_less split: prod.splits if_splits)

text \<open>
  What the waiting loop needs from admission: a good database stays good, and a delay is never
  negative.  The loop then keeps the database good, never sleeps for more than a quarter of a
  second, and reports success only right after a call that admitted the request.
\<close>

locale admission_port =
  fixes admit :: "int \<Rightarrow> 'db \<Rightarrow> (budget_exn + int) \<times> 'db"
    and good :: "'db \<Rightarrow> bool"
  assumes admit_good: "good db \<Longrightarrow> good (snd (admit now db))"
begin

lemma attempt_good: "good db \<Longrightarrow> good (snd (attempt_at admit p db))"
  by (simp add: attempt_at_def admit_good)

lemma loop_good: "good db \<Longrightarrow> acquire_loop admit deadline ps db = (res, sleeps, db') \<Longrightarrow> good db'"
proof (induction ps arbitrary: db sleeps)
  case Nil
  then show ?case by simp
next
  case (Cons p ps)
  from Cons.prems(2) show ?case
    by (rule acquire_loop_ConsE)
      (use Cons attempt_good[OF Cons.prems(1), of p] in \<open>auto dest: arg_cong[where f = snd]\<close>)
qed

lemma loop_sleeps:
  "acquire_loop admit deadline ps db = (res, sleeps, db') \<Longrightarrow> s \<in> set sleeps \<Longrightarrow> 0 < s \<and> s \<le> 1/4"
proof (induction ps arbitrary: db sleeps)
  case Nil
  then show ?case by simp
next
  case (Cons p ps)
  from Cons.prems(1) show ?case
    by (rule acquire_loop_ConsE) (use Cons sleep_seconds_bounds in \<open>auto split: if_splits\<close>)
qed

lemma loop_acquired:
  "good db \<Longrightarrow> acquire_loop admit deadline ps db = (Acquired, sleeps, db') \<Longrightarrow>
   \<exists>p\<in>set ps. \<exists>db0. good db0 \<and> guard_at p < deadline \<and> checked_at p < deadline \<and> begin_ok p
      \<and> admit (wall_ms p) db0 = (Inr 0, db')"
proof (induction ps arbitrary: db sleeps)
  case Nil
  then show ?case by simp
next
  case (Cons p ps)
  from Cons.prems(2) show ?case
  proof (rule acquire_loop_ConsE)
    assume "guard_at p < deadline" "checked_at p < deadline" "attempt_at admit p db = (Inr 0, db')"
    then show ?thesis using Cons.prems(1) by (auto simp: attempt_at_def split: if_splits)
  next
    fix r db1 d rest
    assume "attempt_at admit p db = (r, db1)"
      and rest: "acquire_loop admit deadline ps db1 = (Acquired, rest, db')"
    then have "good db1" using attempt_good[OF Cons.prems(1), of p] by simp
    from Cons.IH[OF this rest] show ?thesis by auto
  qed simp_all
qed

end

definition budget_good :: "budget_db \<Rightarrow> bool" where
  "budget_good db \<longleftrightarrow> db = fresh_db \<or> (\<exists>hist. budget_inv hist db)"

lemma budget_good_transaction: "budget_good db \<Longrightarrow> budget_good (snd (transaction now (Some l) 0 db))"
proof -
  assume "budget_good db"
  then consider "db = fresh_db" | hist where "budget_inv hist db" by (auto simp: budget_good_def)
  then show ?thesis
  proof cases
    case 1
    obtain r db' where r: "transaction now (Some l) 0 fresh_db = (r, db')" by fastforce
    show ?thesis
    proof (cases r)
      case (Inl e)
      then show ?thesis using transaction_fresh(3)[of now "Some l" 0 e db'] r 1 by (simp add: budget_good_def)
    next
      case (Inr d)
      then have "call_transaction now (Attempt l) initialised_db = (Inr d, db')"
        using transaction_fresh(2)[of now "Some l" 0 d db'] r by simp
      then show ?thesis using budget_inv_call[OF budget_inv_initialised, of now "Attempt l"] r 1
        by (auto simp: budget_good_def)
    qed
  next
    case 2
    then show ?thesis using budget_inv_call[of hist db now "Attempt l"] by (auto simp: budget_good_def)
  qed
qed

interpretation mexc_port: admission_port "\<lambda>now. transaction now (Some lane) 0" budget_good
  for lane
  by unfold_locales (rule budget_good_transaction)

section \<open>Properties\<close>

text \<open>
  C3. Whatever the processes call, in whatever order and with whatever clock readings, no window of
  2000 ms ever holds more than 8 admitted attempts, nor more than its limit for any lane.
\<close>

theorem budget_window_bound:
  "\<forall>t. length (filter (in_window t) (fst (budget_run cs fresh_db))) \<le> 8
     \<and> (\<forall>l. length (filter (\<lambda>r. in_window t r \<and> snd r = l) (fst (budget_run cs fresh_db))) \<le> lane_limit l)"
  using budget_run_fresh[of cs "fst (budget_run cs fresh_db)" "snd (budget_run cs fresh_db)"]
  unfolding windows_bounded_def by simp

text \<open>
  After a cooldown of \<open>ms\<close> milliseconds was recorded at \<open>t0\<close>, no later call of any lane is
  admitted before \<open>t0 + ms\<close>, and other cooldowns cannot shorten it.
\<close>

theorem cooldown_blocks_admission:
  assumes "call_transaction t0 (Cooldown ms) db = (Inr d, db')"
    and "r \<in> set (fst (budget_run cs db'))"
  shows "t0 + ms \<le> fst r"
  using cooling_until_run[OF cooldown_establishes[OF assms(1)] assms(2)] .

lemma cooldown_blocks_admission_witness:
  "call_transaction 100 (Cooldown 2000) fresh_db = (Inr 0, snd (call_transaction 100 (Cooldown 2000) fresh_db))
     \<and> (100::int) + 2000 \<le> fst (2200::int, Foreground)"
proof -
  have c: "call_transaction 100 (Cooldown 2000) fresh_db = (Inr 0, snd (call_transaction 100 (Cooldown 2000) fresh_db))"
    by code_simp
  have r: "(2200, Foreground) \<in> set (fst (budget_run [(1000, Attempt Foreground), (2200, Attempt Foreground)]
      (snd (call_transaction 100 (Cooldown 2000) fresh_db))))"
    by code_simp
  show ?thesis by (rule conjI[OF c cooldown_blocks_admission[OF c r]])
qed

text \<open>
  C34. Clock rollback fails closed: a wall clock behind the recorded one is refused for every lane
  and for a cooldown, and the database keeps its contents.
\<close>

theorem clock_rollback_fails_closed:
  assumes "application_id db = budget_application_id" and "meta db = Some m" and "now < last_clock m"
  shows "\<exists>e. call_transaction now c db = (Inl e, db)"
  using transaction_clock_rollback[OF assms] by (cases c) auto

lemma clock_rollback_fails_closed_witness:
  "\<exists>e. call_transaction (-1) (Attempt Funding) initialised_db = (Inl e, initialised_db)"
  by (rule clock_rollback_fails_closed[where m = "\<lparr>meta_version = 1, cooldown_until = 0, last_clock = 0\<rparr>"])
     (simp_all add: initialised_db_def)

text \<open>
  C35. The delay that a refused attempt is told is sufficient: when nobody else uses the database in
  between, the same lane is admitted at any clock that is at least that much later.
\<close>

theorem refused_delay_suffices:
  assumes "transaction now (Some l) 0 db = (Inr d, db')" and "0 < d" and "now + d \<le> now'"
  shows "fst (transaction now' (Some l) 0 db') = Inr 0"
  by (rule transaction_wait[OF assms])

lemma refused_delay_suffices_witness:
  "fst (transaction 2005 (Some Recovery) 0 (initialised_db\<lparr>meta := Some \<lparr>meta_version = 1, cooldown_until = 0, last_clock = 5\<rparr>,
      attempts := [(5, Recovery), (5, Recovery)]\<rparr>)) = Inr 0"
proof -
  define db where "db = initialised_db\<lparr>meta := Some \<lparr>meta_version = 1, cooldown_until = 0, last_clock = 5\<rparr>,
      attempts := [(5, Recovery), (5, Recovery)]\<rparr>"
  have t: "transaction 5 (Some Recovery) 0 db = (Inr 2000, db)"
    unfolding db_def by code_simp
  show ?thesis using refused_delay_suffices[OF t, of 2005] by (simp add: db_def)
qed

text \<open>
  C36. \<open>acquire\<close> returns normally only when one of its transactions admitted the attempt with a
  delay of 0, before the monotonic deadline, on a database in a state that runs of the protocol
  reach; every sleep in between is positive and at most a quarter of a second.
\<close>

theorem acquire_returns_only_admitted:
  assumes "acquire lane (Some timeout) started ps db = (Acquired, sleeps, db')" and "budget_good db"
  shows "(\<forall>s\<in>set sleeps. 0 < s \<and> s \<le> 1/4)
       \<and> (\<exists>p\<in>set ps. \<exists>db0. budget_good db0 \<and> guard_at p < started + timeout
            \<and> checked_at p < started + timeout \<and> begin_ok p
            \<and> transaction (wall_ms p) (Some lane) 0 db0 = (Inr 0, db'))"
proof -
  have loop: "acquire_loop (\<lambda>now. transaction now (Some lane) 0) (started + timeout) ps db = (Acquired, sleeps, db')"
    using assms(1) by (auto simp: acquire_def split: if_splits)
  show ?thesis
    using mexc_port.loop_sleeps[OF loop] mexc_port.loop_acquired[OF assms(2) loop] by blast
qed

lemma acquire_returns_only_admitted_witness:
  "let p = \<lparr>guard_at = 0, begin_ok = True, wall_ms = 7, checked_at = 1, slept_from = 1\<rparr>;
       r = acquire Funding (Some 20) 0 [p] fresh_db
   in fst r = Acquired \<and> (\<exists>db0. transaction 7 (Some Funding) 0 db0 = (Inr 0, snd (snd r)))"
proof -
  define p where "p = \<lparr>guard_at = 0, begin_ok = True, wall_ms = 7, checked_at = 1, slept_from = 1\<rparr>"
  define r where "r = acquire Funding (Some 20) 0 [p] fresh_db"
  have f: "fst r = Acquired" unfolding r_def p_def by code_simp
  then have a: "acquire Funding (Some 20) 0 [p] fresh_db = (Acquired, fst (snd r), snd (snd r))"
    by (simp add: r_def[symmetric] prod_eq_iff)
  have g: "budget_good fresh_db" by (simp add: budget_good_def)
  have "\<exists>db0. transaction 7 (Some Funding) 0 db0 = (Inr 0, snd (snd r))"
    using acquire_returns_only_admitted[OF a g] by (auto simp: p_def)
  with f show ?thesis by (simp add: p_def[symmetric] r_def[symmetric] Let_def)
qed

end
