(* ===== verification/Selection.thy ===== *)
theory Selection
  imports Market_Models
begin

text \<open>
  \<open>SelectionController\<close> of \<open>selection.py\<close> as a state machine.  \<open>reconcile\<close> and \<open>stop\<close> run under one
  lock and suspend at their awaits, where \<open>request\<close> and \<open>heartbeat\<close> may run; \<open>ct_pc\<close> says where the
  holder of the lock is suspended.  Every \<open>ActiveSelection\<close> object carries the number of its
  creation, which is what the \<open>is\<close> test compares.  \<open>ct_live\<close> is a ghost: the ids whose
  subscription was opened and not yet closed.
\<close>

section \<open>State\<close>

record selection_config =
  cfg_debounce :: int
  cfg_ttl :: int
  cfg_heartbeat :: int
  cfg_cleanup_seconds :: rat

definition default_selection_config :: selection_config where
  "default_selection_config = \<lparr>cfg_debounce = 500000, cfg_ttl = 15 * minute_us,
     cfg_heartbeat = 5 * minute_us, cfg_cleanup_seconds = 10\<rparr>"

definition selection_config_ok :: "selection_config \<Rightarrow> unit result" where
  "selection_config_ok cfg =
     (if cfg_debounce cfg < 0 then raise_exn ValueError ''selection debounce cannot be negative''
      else if cfg_ttl cfg \<le> 0 \<or> cfg_heartbeat cfg \<le> 0 then
        raise_exn ValueError ''selection TTL and heartbeat interval must be positive''
      else if cfg_ttl cfg \<le> cfg_heartbeat cfg then
        raise_exn ValueError ''selection heartbeat interval must be below TTL''
      else if cfg_cleanup_seconds cfg \<le> 0 \<or> 10 < cfg_cleanup_seconds cfg then
        raise_exn ValueError ''subscription cleanup timeout must be between 0 and 10 seconds''
      else Inr ())"

record pending_selection =
  ps_revision :: nat
  ps_group :: string
  ps_primary :: string
  ps_requested_at :: int
  ps_activate_at :: int
  ps_expires_at :: "int option"

record active_selection =
  as_object :: nat
  as_id :: nat
  as_group :: string
  as_primary :: string
  as_subscription :: nat
  as_activated_at :: int
  as_heartbeat_at :: int
  as_expires_at :: int

text \<open>Where the holder of the lock is suspended; the arguments are its local variables.\<close>

datatype ctl_pc =
    Unlocked
  | CleanupExpired int active_selection
  | CleanupReplaced int pending_selection int active_selection
  | Subscribing int pending_selection int nat
  | CleanupStale active_selection
  | CleanupStop active_selection

datatype ctl_result = Returned "active_selection option" | Stopped | Raised exn

record controller =
  ct_pending :: "pending_selection option"
  ct_active :: "active_selection option"
  ct_revision :: nat
  ct_pc :: ctl_pc
  ct_next :: nat
  ct_live :: "nat list"
  ct_result :: "ctl_result option"

definition fresh_controller :: controller where
  "fresh_controller = \<lparr>ct_pending = None, ct_active = None, ct_revision = 0, ct_pc = Unlocked,
     ct_next = 0, ct_live = [], ct_result = None\<rparr>"

section \<open>Operations\<close>

definition selection_require_utc :: "pydt \<Rightarrow> string \<Rightarrow> unit result" where
  "selection_require_utc t field =
     (if is_utc t then Inr () else raise_exn ValueError (field @ '' must be timezone-aware UTC''))"

definition request_check :: "string \<Rightarrow> string \<Rightarrow> pydt \<Rightarrow> pydt option \<Rightarrow> unit result" where
  "request_check grp primary requested_at expires_at =
     (case selection_require_utc requested_at ''requested_at'' of Inl e \<Rightarrow> Inl e | Inr _ \<Rightarrow>
      case (case expires_at of None \<Rightarrow> Inr ()
            | Some x \<Rightarrow> (case selection_require_utc x ''expires_at'' of Inl e \<Rightarrow> Inl e
                | Inr _ \<Rightarrow> if instant x \<le> instant requested_at
                          then raise_exn ValueError ''selection expiry must follow its request''
                          else Inr ())) of Inl e \<Rightarrow> Inl e | Inr _ \<Rightarrow>
      if strip grp = [] then raise_exn ValueError ''selected group_id must not be empty''
      else if strip primary = [] then raise_exn ValueError ''primary venue_instrument_id must not be empty''
      else Inr ())"

definition ctl_request ::
    "selection_config \<Rightarrow> string \<Rightarrow> string \<Rightarrow> pydt \<Rightarrow> pydt option \<Rightarrow> controller \<Rightarrow> nat result \<times> controller" where
  "ctl_request cfg grp primary requested_at expires_at s =
     (case request_check grp primary requested_at expires_at of
        Inl e \<Rightarrow> (Inl e, s)
      | Inr _ \<Rightarrow>
          (let rev = ct_revision s + 1 in
           (Inr rev, s\<lparr>ct_revision := rev,
              ct_pending := Some \<lparr>ps_revision = rev, ps_group = grp, ps_primary = primary,
                ps_requested_at = instant requested_at,
                ps_activate_at = instant requested_at + cfg_debounce cfg,
                ps_expires_at = map_option instant expires_at\<rparr>\<rparr>)))"

definition ctl_heartbeat :: "selection_config \<Rightarrow> nat \<Rightarrow> pydt \<Rightarrow> controller \<Rightarrow> bool result \<times> controller" where
  "ctl_heartbeat cfg selection_id heartbeat_at s =
     (case selection_require_utc heartbeat_at ''heartbeat_at'' of Inl e \<Rightarrow> (Inl e, s) | Inr _ \<Rightarrow>
      (case ct_active s of None \<Rightarrow> (Inr False, s)
       | Some a \<Rightarrow>
           if as_id a \<noteq> selection_id then (Inr False, s)
           else if instant heartbeat_at < as_heartbeat_at a then
             (raise_exn ValueError ''selection heartbeat cannot move backwards'', s)
           else (Inr True, s\<lparr>ct_active := Some (a\<lparr>as_object := ct_next s,
                    as_heartbeat_at := instant heartbeat_at,
                    as_expires_at := instant heartbeat_at + cfg_ttl cfg\<rparr>),
                  ct_next := ct_next s + 1\<rparr>)))"

definition finish :: "ctl_result \<Rightarrow> controller \<Rightarrow> controller" where
  "finish r s = s\<lparr>ct_pc := Unlocked, ct_result := Some r\<rparr>"

definition still_pending :: "pending_selection \<Rightarrow> controller \<Rightarrow> bool" where
  "still_pending p s =
     (case ct_pending s of None \<Rightarrow> False | Some q \<Rightarrow> ps_revision q = ps_revision p)"

text \<open>\<open>reconcile\<close> from the revision test before \<open>_subscribe\<close>.\<close>

definition reconcile_subscribe :: "int \<Rightarrow> pending_selection \<Rightarrow> int \<Rightarrow> controller \<Rightarrow> controller" where
  "reconcile_subscribe now p expires s =
     (if \<not> still_pending p s then finish (Returned (ct_active s)) s
      else s\<lparr>ct_pc := Subscribing now p expires (ct_next s), ct_next := ct_next s + 1\<rparr>)"

text \<open>\<open>reconcile\<close> from the reading of \<open>_pending\<close>, with the lock held.\<close>

definition reconcile_pending :: "selection_config \<Rightarrow> int \<Rightarrow> controller \<Rightarrow> controller" where
  "reconcile_pending cfg now s =
     (case ct_pending s of
        None \<Rightarrow> finish (Returned (ct_active s)) s
      | Some p \<Rightarrow>
          if now < ps_activate_at p then finish (Returned (ct_active s)) s
          else if (case ps_expires_at p of None \<Rightarrow> False | Some x \<Rightarrow> x \<le> now) then
            finish (Returned (ct_active s)) (s\<lparr>ct_pending := None\<rparr>)
          else
            (let expires = (case ps_expires_at p of None \<Rightarrow> now + cfg_ttl cfg | Some x \<Rightarrow> x) in
             (case ct_active s of
                Some a \<Rightarrow>
                  if as_group a = ps_group p \<and> as_primary a = ps_primary p then
                    (let a' = a\<lparr>as_object := ct_next s, as_heartbeat_at := now, as_expires_at := expires\<rparr>
                     in finish (Returned (Some a'))
                          (s\<lparr>ct_active := Some a', ct_next := ct_next s + 1, ct_pending := None\<rparr>))
                  else s\<lparr>ct_pc := CleanupReplaced now p expires a\<rparr>
              | None \<Rightarrow> reconcile_subscribe now p expires s)))"

definition reconcile_begin :: "selection_config \<Rightarrow> pydt \<Rightarrow> controller \<Rightarrow> controller" where
  "reconcile_begin cfg now s =
     (case selection_require_utc now ''now'' of
        Inl e \<Rightarrow> s\<lparr>ct_result := Some (Raised e)\<rparr>
      | Inr _ \<Rightarrow>
          (case ct_active s of
             Some a \<Rightarrow> if as_expires_at a \<le> instant now then s\<lparr>ct_pc := CleanupExpired (instant now) a\<rparr>
                       else reconcile_pending cfg (instant now) s
           | None \<Rightarrow> reconcile_pending cfg (instant now) s))"

definition stop_begin :: "controller \<Rightarrow> controller" where
  "stop_begin s =
     (let s = s\<lparr>ct_pending := None\<rparr> in
      (case ct_active s of None \<Rightarrow> finish Stopped s | Some a \<Rightarrow> s\<lparr>ct_pc := CleanupStop a\<rparr>))"

text \<open>How an awaited \<open>_unsubscribe\<close> ends.\<close>

datatype unsubscribe_end = UnsubDone | UnsubTimeout | UnsubRaised exn

definition cleanup_error :: "unsubscribe_end \<Rightarrow> exn option" where
  "cleanup_error u =
     (case u of UnsubDone \<Rightarrow> None
      | UnsubTimeout \<Rightarrow> Some (Exn SelectionCleanupError
          ''old selected-group subscription exceeded the 10-second cleanup deadline'')
      | UnsubRaised e \<Rightarrow> Some e)"

text \<open>\<open>_cleanup_active\<close> after its await: the \<open>is\<close> test on the current object.\<close>

definition drop_active :: "active_selection \<Rightarrow> controller \<Rightarrow> controller" where
  "drop_active a s =
     (case ct_active s of None \<Rightarrow> s
      | Some b \<Rightarrow> if as_object b = as_object a then s\<lparr>ct_active := None\<rparr> else s)"

definition close_live :: "active_selection \<Rightarrow> controller \<Rightarrow> controller" where
  "close_live a s = s\<lparr>ct_live := filter (\<lambda>i. i \<noteq> as_id a) (ct_live s)\<rparr>"

definition unsubscribe_ends :: "selection_config \<Rightarrow> unsubscribe_end \<Rightarrow> controller \<Rightarrow> controller" where
  "unsubscribe_ends cfg u s =
     (case cleanup_error u of
        Some e \<Rightarrow> finish (Raised e) s
      | None \<Rightarrow>
          (case ct_pc s of
             CleanupExpired now a \<Rightarrow> reconcile_pending cfg now (drop_active a (close_live a s))
           | CleanupReplaced now p expires a \<Rightarrow>
               reconcile_subscribe now p expires (drop_active a (close_live a s))
           | CleanupStale a \<Rightarrow> finish (Returned (ct_active s)) (close_live a s)
           | CleanupStop a \<Rightarrow> finish Stopped (drop_active a (close_live a s))
           | _ \<Rightarrow> s))"

definition subscribe_ends :: "exn + nat \<Rightarrow> controller \<Rightarrow> controller" where
  "subscribe_ends r s =
     (case ct_pc s of
        Subscribing now p expires sid \<Rightarrow>
          (case r of
             Inl e \<Rightarrow> finish (Raised e) s
           | Inr token \<Rightarrow>
               (let a = \<lparr>as_object = ct_next s, as_id = sid, as_group = ps_group p, as_primary = ps_primary p,
                         as_subscription = token, as_activated_at = now, as_heartbeat_at = now,
                         as_expires_at = expires\<rparr>;
                    s = s\<lparr>ct_next := ct_next s + 1, ct_live := sid # ct_live s\<rparr>
                in if \<not> still_pending p s then s\<lparr>ct_pc := CleanupStale a\<rparr>
                   else finish (Returned (Some a)) (s\<lparr>ct_active := Some a, ct_pending := None\<rparr>)))
      | _ \<Rightarrow> s)"

declare default_selection_config_def [unfold_code] selection_config_ok_def [unfold_code]
  fresh_controller_def [unfold_code] selection_require_utc_def [unfold_code]
  request_check_def [unfold_code] ctl_request_def [unfold_code] ctl_heartbeat_def [unfold_code]
  finish_def [unfold_code] still_pending_def [unfold_code] reconcile_subscribe_def [unfold_code]
  reconcile_pending_def [unfold_code] reconcile_begin_def [unfold_code] stop_begin_def [unfold_code]
  cleanup_error_def [unfold_code] drop_active_def [unfold_code] close_live_def [unfold_code]
  unsubscribe_ends_def [unfold_code] subscribe_ends_def [unfold_code]

section \<open>Executions\<close>

datatype ctl_action =
    ARequest string string pydt "pydt option"
  | AHeartbeat nat pydt
  | AReconcile pydt
  | AStop
  | AUnsubscribed unsubscribe_end
  | ASubscribed "exn + nat"

fun in_cleanup :: "ctl_pc \<Rightarrow> bool" where
  "in_cleanup (CleanupExpired _ _) = True"
| "in_cleanup (CleanupReplaced _ _ _ _) = True"
| "in_cleanup (CleanupStale _) = True"
| "in_cleanup (CleanupStop _) = True"
| "in_cleanup _ = False"

fun in_subscribe :: "ctl_pc \<Rightarrow> bool" where
  "in_subscribe (Subscribing _ _ _ _) = True"
| "in_subscribe _ = False"

inductive ctl_step :: "selection_config \<Rightarrow> ctl_action \<Rightarrow> controller \<Rightarrow> controller \<Rightarrow> bool" for cfg where
  step_request: "ctl_step cfg (ARequest g p r x) s (snd (ctl_request cfg g p r x s))"
| step_heartbeat: "ctl_step cfg (AHeartbeat i t) s (snd (ctl_heartbeat cfg i t s))"
| step_reconcile: "ct_pc s = Unlocked \<Longrightarrow> ctl_step cfg (AReconcile now) s (reconcile_begin cfg now s)"
| step_stop: "ct_pc s = Unlocked \<Longrightarrow> ctl_step cfg AStop s (stop_begin s)"
| step_unsubscribed: "in_cleanup (ct_pc s) \<Longrightarrow> ctl_step cfg (AUnsubscribed u) s (unsubscribe_ends cfg u s)"
| step_subscribed: "in_subscribe (ct_pc s) \<Longrightarrow> ctl_step cfg (ASubscribed r) s (subscribe_ends r s)"

inductive_cases ctl_stepE: "ctl_step cfg act s s'"

text \<open>Every action of an execution satisfies \<open>ok\<close> in the state where it happens.\<close>

inductive ctl_reach :: "(ctl_action \<Rightarrow> controller \<Rightarrow> bool) \<Rightarrow> selection_config \<Rightarrow> controller \<Rightarrow> bool" for ok cfg where
  reach_start: "ctl_reach ok cfg fresh_controller"
| reach_step: "ctl_reach ok cfg s \<Longrightarrow> ok act s \<Longrightarrow> ctl_step cfg act s s' \<Longrightarrow> ctl_reach ok cfg s'"

definition any_action :: "ctl_action \<Rightarrow> controller \<Rightarrow> bool" where
  "any_action act s = True"

text \<open>
  Careful executions: no heartbeat while the active selection is being closed, and the close of a
  superseded subscription succeeds.
\<close>

definition careful :: "ctl_action \<Rightarrow> controller \<Rightarrow> bool" where
  "careful act s =
     (case act of
        AHeartbeat _ _ \<Rightarrow> \<not> in_cleanup (ct_pc s)
      | AUnsubscribed u \<Rightarrow> (case ct_pc s of CleanupStale _ \<Rightarrow> u = UnsubDone | _ \<Rightarrow> True)
      | _ \<Rightarrow> True)"

section \<open>At most one live subscription\<close>

definition active_ids :: "controller \<Rightarrow> nat list" where
  "active_ids s = (case ct_active s of None \<Rightarrow> [] | Some a \<Rightarrow> [as_id a])"

definition single_inv :: "controller \<Rightarrow> bool" where
  "single_inv s =
     (case ct_pc s of
        Unlocked \<Rightarrow> ct_live s = active_ids s
      | CleanupExpired _ a \<Rightarrow> ct_active s = Some a \<and> ct_live s = [as_id a]
      | CleanupReplaced _ _ _ a \<Rightarrow> ct_active s = Some a \<and> ct_live s = [as_id a]
      | CleanupStop a \<Rightarrow> ct_active s = Some a \<and> ct_live s = [as_id a]
      | CleanupStale a \<Rightarrow> ct_active s = None \<and> ct_live s = [as_id a]
      | Subscribing _ _ _ _ \<Rightarrow> ct_active s = None \<and> ct_live s = [])"

lemma single_inv_live: "single_inv s \<Longrightarrow> length (ct_live s) \<le> 1"
  by (auto simp: single_inv_def active_ids_def split: ctl_pc.splits option.splits)

lemma single_reconcile_subscribe:
  "ct_live s = [] \<Longrightarrow> ct_active s = None \<Longrightarrow> single_inv (reconcile_subscribe now p x s)"
  by (simp add: reconcile_subscribe_def finish_def single_inv_def active_ids_def)

lemma single_reconcile_pending:
  "ct_live s = active_ids s \<Longrightarrow> single_inv (reconcile_pending cfg now s)"
  by (auto simp: reconcile_pending_def finish_def single_inv_def active_ids_def reconcile_subscribe_def Let_def
      split: option.split)

lemma single_request: "single_inv s \<Longrightarrow> single_inv (snd (ctl_request cfg g p r x s))"
  by (auto simp: ctl_request_def single_inv_def active_ids_def Let_def split: sum.split ctl_pc.splits)

lemma single_heartbeat:
  assumes "single_inv s" and "\<not> in_cleanup (ct_pc s)"
  shows "single_inv (snd (ctl_heartbeat cfg i t s))"
  using assms
  by (cases "ct_pc s")
     (auto simp: ctl_heartbeat_def single_inv_def active_ids_def raise_exn_def split: sum.split option.splits)

lemma single_unsubscribe:
  assumes "single_inv s" and "\<And>a. ct_pc s = CleanupStale a \<Longrightarrow> u = UnsubDone"
  shows "single_inv (unsubscribe_ends cfg u s)"
proof (cases "cleanup_error u")
  case None
  with assms(1) show ?thesis
    by (cases "ct_pc s")
       (auto simp: unsubscribe_ends_def single_inv_def[of s] drop_active_def close_live_def
          intro!: single_reconcile_pending single_reconcile_subscribe simp: active_ids_def finish_def
          simp: single_inv_def[of "finish _ _"] single_inv_def[of "ct_result_update _ _"])
next
  case (Some e)
  then have "u \<noteq> UnsubDone" by (auto simp: cleanup_error_def)
  with assms Some show ?thesis
    by (cases "ct_pc s") (auto simp: unsubscribe_ends_def single_inv_def finish_def active_ids_def)
qed

lemma single_subscribe:
  assumes "single_inv s"
  shows "single_inv (subscribe_ends r s)"
  using assms
  by (cases "ct_pc s"; cases r)
     (auto simp: subscribe_ends_def single_inv_def finish_def active_ids_def Let_def)

lemma single_reconcile_begin:
  assumes "single_inv s" and "ct_pc s = Unlocked"
  shows "single_inv (reconcile_begin cfg now s)"
proof -
  have live: "ct_live s = active_ids s" using assms by (simp add: single_inv_def)
  show ?thesis
    using assms live single_reconcile_pending[OF live, of cfg "instant now"]
    by (auto simp: reconcile_begin_def single_inv_def[of s] active_ids_def single_inv_def[of "ct_pc_update _ _"]
        single_inv_def[of "ct_result_update _ _"] split: sum.split option.split)
qed

lemma single_stop_begin:
  "single_inv s \<Longrightarrow> ct_pc s = Unlocked \<Longrightarrow> single_inv (stop_begin s)"
  by (auto simp: stop_begin_def single_inv_def finish_def active_ids_def Let_def split: option.split)

lemma careful_single: "ctl_reach careful cfg s \<Longrightarrow> single_inv s"
proof (induction rule: ctl_reach.induct)
  case reach_start
  show ?case by (simp add: single_inv_def fresh_controller_def active_ids_def)
next
  case (reach_step s act s')
  from reach_step(3) show ?case
    using reach_step(2,4)
    by (cases rule: ctl_step.cases)
       (auto simp: careful_def intro: single_request single_heartbeat single_reconcile_begin
          single_stop_begin single_unsubscribe single_subscribe)
qed

section \<open>The latest request wins\<close>

definition due_for :: "controller \<Rightarrow> int \<Rightarrow> pending_selection \<Rightarrow> int \<Rightarrow> bool" where
  "due_for s now p x \<longleftrightarrow> ps_activate_at p \<le> now \<and> now < x
     \<and> (case ct_pending s of None \<Rightarrow> True | Some q \<Rightarrow> ps_revision q = ps_revision p \<longrightarrow> q = p)
     \<and> ps_revision p \<le> ct_revision s"

definition latest_inv :: "controller \<Rightarrow> bool" where
  "latest_inv s \<longleftrightarrow>
     (case ct_pending s of None \<Rightarrow> True | Some q \<Rightarrow> ps_revision q = ct_revision s)
     \<and> (case ct_pc s of
          CleanupReplaced now p x _ \<Rightarrow> due_for s now p x
        | Subscribing now p x sid \<Rightarrow> due_for s now p x \<and> sid < ct_next s
        | _ \<Rightarrow> True)
     \<and> (case ct_active s of None \<Rightarrow> True | Some a \<Rightarrow> as_id a < ct_next s)"

lemma latest_finish: "latest_inv s \<Longrightarrow> latest_inv (finish r s)"
  by (auto simp: latest_inv_def finish_def split: option.splits)

lemma latest_weaken:
  assumes "latest_inv s" and "ct_pending s' = None \<or> ct_pending s' = ct_pending s"
    and "ct_revision s' = ct_revision s" and "ct_pc s' = Unlocked"
    and "case ct_active s' of None \<Rightarrow> True | Some a \<Rightarrow> as_id a < ct_next s'"
  shows "latest_inv s'"
  using assms by (auto simp: latest_inv_def split: option.splits)

lemma latest_reconcile_subscribe:
  assumes "latest_inv s" and "due_for s now p x"
  shows "latest_inv (reconcile_subscribe now p x s)"
  using assms
  by (auto simp: reconcile_subscribe_def latest_inv_def due_for_def finish_def split: option.splits)

lemma latest_reconcile_pending:
  assumes "latest_inv s" and "0 < cfg_ttl cfg"
  shows "latest_inv (reconcile_pending cfg now s)"
proof (cases "ct_pending s")
  case None
  then show ?thesis using assms(1) by (simp add: reconcile_pending_def latest_finish)
next
  case (Some p)
  let ?x = "case ps_expires_at p of None \<Rightarrow> now + cfg_ttl cfg | Some x \<Rightarrow> x"
  show ?thesis
  proof (cases "now < ps_activate_at p \<or> (case ps_expires_at p of None \<Rightarrow> False | Some x \<Rightarrow> x \<le> now)")
    case True
    then show ?thesis using assms(1) Some
      by (auto simp: reconcile_pending_def latest_inv_def finish_def split: option.splits)
  next
    case False
    then have due: "due_for s now p ?x"
      using assms Some by (auto simp: due_for_def latest_inv_def split: option.splits)
    show ?thesis
    proof (cases "ct_active s")
      case None
      with Some False latest_reconcile_subscribe[OF assms(1) due] show ?thesis
        by (auto simp: reconcile_pending_def Let_def split: option.splits)
    next
      case (Some a)
      with \<open>ct_pending s = Some p\<close> False due assms(1) show ?thesis
        by (auto simp: reconcile_pending_def Let_def latest_inv_def finish_def due_for_def split: option.splits)
    qed
  qed
qed

lemma latest_request: "latest_inv s \<Longrightarrow> latest_inv (snd (ctl_request cfg g p r x s))"
  by (auto simp: ctl_request_def latest_inv_def due_for_def Let_def split: sum.split ctl_pc.splits option.splits)

lemma latest_heartbeat: "latest_inv s \<Longrightarrow> latest_inv (snd (ctl_heartbeat cfg i t s))"
  by (auto simp: ctl_heartbeat_def latest_inv_def due_for_def raise_exn_def
      split: sum.split ctl_pc.splits option.splits)

lemma latest_drop_active:
  "latest_inv s \<Longrightarrow> latest_inv (drop_active a (close_live b s))"
  by (auto simp: drop_active_def close_live_def latest_inv_def due_for_def split: option.splits ctl_pc.splits)

lemma due_drop_active: "due_for s now p x \<Longrightarrow> due_for (drop_active a (close_live b s)) now p x"
  by (auto simp: drop_active_def close_live_def due_for_def split: option.splits)

lemma latest_unsubscribe:
  assumes "latest_inv s" and "0 < cfg_ttl cfg"
  shows "latest_inv (unsubscribe_ends cfg u s)"
proof (cases "cleanup_error u")
  case None
  show ?thesis
  proof (cases "ct_pc s")
    case (CleanupExpired now a)
    with None assms show ?thesis
      by (simp add: unsubscribe_ends_def latest_reconcile_pending latest_drop_active)
  next
    case (CleanupReplaced now p x a)
    then have "due_for s now p x" using assms(1) by (simp add: latest_inv_def)
    with CleanupReplaced None assms show ?thesis
      by (simp add: unsubscribe_ends_def latest_reconcile_subscribe latest_drop_active due_drop_active)
  next
    case (CleanupStale a)
    with None assms show ?thesis
      by (auto simp: unsubscribe_ends_def finish_def close_live_def latest_inv_def split: option.splits)
  next
    case (CleanupStop a)
    with None assms show ?thesis by (simp add: unsubscribe_ends_def latest_finish latest_drop_active)
  qed (use None assms in \<open>simp_all add: unsubscribe_ends_def\<close>)
next
  case (Some e)
  with assms show ?thesis by (simp add: unsubscribe_ends_def latest_finish)
qed

lemma latest_subscribe: "latest_inv s \<Longrightarrow> latest_inv (subscribe_ends r s)"
  by (cases "ct_pc s"; cases r)
     (auto simp: subscribe_ends_def latest_inv_def finish_def due_for_def Let_def split: option.splits)

lemma latest_reconcile_begin:
  assumes "latest_inv s" and "0 < cfg_ttl cfg" and "ct_pc s = Unlocked"
  shows "latest_inv (reconcile_begin cfg now s)"
  using assms latest_reconcile_pending[OF assms(1,2), of "instant now"]
  by (auto simp: reconcile_begin_def latest_inv_def[of "ct_pc_update _ _"] latest_inv_def[of "ct_result_update _ _"]
      latest_inv_def[of s] due_for_def split: sum.split option.splits)

lemma latest_stop_begin: "latest_inv s \<Longrightarrow> ct_pc s = Unlocked \<Longrightarrow> latest_inv (stop_begin s)"
  by (auto simp: stop_begin_def latest_inv_def finish_def Let_def split: option.splits)

lemma reach_latest:
  assumes "ctl_reach ok cfg s" and "0 < cfg_ttl cfg"
  shows "latest_inv s"
  using assms(1)
proof (induction rule: ctl_reach.induct)
  case reach_start
  show ?case by (simp add: latest_inv_def fresh_controller_def)
next
  case (reach_step s act s')
  from reach_step(3) show ?case
    using reach_step(4) assms(2)
    by (cases rule: ctl_step.cases)
       (auto intro: latest_request latest_heartbeat latest_reconcile_begin latest_stop_begin
          latest_unsubscribe latest_subscribe)
qed

section \<open>Running a sequence of actions\<close>

definition ctl_apply :: "selection_config \<Rightarrow> ctl_action \<Rightarrow> controller \<Rightarrow> controller option" where
  "ctl_apply cfg act s =
     (case act of
        ARequest g p r x \<Rightarrow> Some (snd (ctl_request cfg g p r x s))
      | AHeartbeat i t \<Rightarrow> Some (snd (ctl_heartbeat cfg i t s))
      | AReconcile now \<Rightarrow> if ct_pc s = Unlocked then Some (reconcile_begin cfg now s) else None
      | AStop \<Rightarrow> if ct_pc s = Unlocked then Some (stop_begin s) else None
      | AUnsubscribed u \<Rightarrow> if in_cleanup (ct_pc s) then Some (unsubscribe_ends cfg u s) else None
      | ASubscribed r \<Rightarrow> if in_subscribe (ct_pc s) then Some (subscribe_ends r s) else None)"

fun ctl_exec :: "(ctl_action \<Rightarrow> controller \<Rightarrow> bool) \<Rightarrow> selection_config \<Rightarrow> ctl_action list \<Rightarrow> controller \<Rightarrow> controller option" where
  "ctl_exec ok cfg [] s = Some s"
| "ctl_exec ok cfg (act # acts) s =
     (if ok act s then (case ctl_apply cfg act s of None \<Rightarrow> None | Some s' \<Rightarrow> ctl_exec ok cfg acts s') else None)"

lemma ctl_apply_step: "ctl_apply cfg act s = Some s' \<longleftrightarrow> ctl_step cfg act s s'"
  by (cases act) (auto simp: ctl_apply_def intro: ctl_step.intros elim: ctl_stepE)

lemma ctl_exec_reach: "ctl_reach ok cfg s \<Longrightarrow> ctl_exec ok cfg acts s = Some s' \<Longrightarrow> ctl_reach ok cfg s'"
  by (induction acts arbitrary: s) (auto simp: ctl_apply_step intro: reach_step split: if_splits option.splits)

lemma ctl_exec_fresh: "ctl_exec ok cfg acts fresh_controller = Some s' \<Longrightarrow> ctl_reach ok cfg s'"
  by (rule ctl_exec_reach[OF reach_start])

section \<open>Leases\<close>

definition reconcile_time :: "ctl_action \<Rightarrow> controller \<Rightarrow> int option" where
  "reconcile_time act s =
     (case act of
        AReconcile now \<Rightarrow> if is_utc now then Some (instant now) else None
      | AUnsubscribed _ \<Rightarrow> (case ct_pc s of CleanupExpired now _ \<Rightarrow> Some now
                                      | CleanupReplaced now _ _ _ \<Rightarrow> Some now | _ \<Rightarrow> None)
      | ASubscribed _ \<Rightarrow> (case ct_pc s of Subscribing now _ _ _ \<Rightarrow> Some now | _ \<Rightarrow> None)
      | _ \<Rightarrow> None)"

definition lease_after :: "int \<Rightarrow> controller \<Rightarrow> bool" where
  "lease_after now s \<longleftrightarrow> (case ct_active s of None \<Rightarrow> True | Some a \<Rightarrow> now < as_expires_at a)"

definition returns_lease :: "int \<Rightarrow> controller \<Rightarrow> bool" where
  "returns_lease now s \<longleftrightarrow>
     ct_pc s = Unlocked \<longrightarrow>
       (case ct_result s of Some (Returned (Some a)) \<Rightarrow> now < as_expires_at a | _ \<Rightarrow> True)"

lemma returns_finish: "lease_after now s \<Longrightarrow> returns_lease now (finish (Returned (ct_active s)) s)"
  by (auto simp: returns_lease_def lease_after_def finish_def split: option.splits)

lemma returns_subscribe: "lease_after now s \<Longrightarrow> returns_lease now (reconcile_subscribe now p x s)"
  by (auto simp: reconcile_subscribe_def returns_finish) (simp add: returns_lease_def)

lemma returns_pending:
  assumes "lease_after now s" and "0 < cfg_ttl cfg"
  shows "returns_lease now (reconcile_pending cfg now s)"
proof (cases "ct_pending s")
  case None
  with assms show ?thesis by (simp add: reconcile_pending_def returns_finish)
next
  case (Some p)
  have gone: "returns_lease now (finish (Returned (ct_active s)) (s\<lparr>ct_pending := None\<rparr>))"
    using assms(1) by (auto simp: returns_lease_def lease_after_def finish_def split: option.splits)
  show ?thesis
  proof (cases "ct_active s")
    case None
    have kept: "returns_lease now (finish (Returned None) s)" using returns_finish[OF assms(1)] None by simp
    show ?thesis using Some assms gone kept None
      by (auto simp: reconcile_pending_def returns_subscribe Let_def split: option.splits)
  next
    case (Some a)
    show ?thesis
      using Some \<open>ct_pending s = Some p\<close> assms gone returns_finish[OF assms(1)]
      by (auto simp: reconcile_pending_def Let_def returns_lease_def finish_def split: option.splits)
  qed
qed

lemma returns_reconcile_begin:
  assumes "0 < cfg_ttl cfg" and "is_utc now" and "ct_pc s = Unlocked"
  shows "returns_lease (instant now) (reconcile_begin cfg now s)"
proof (cases "ct_active s")
  case None
  then have "lease_after (instant now) s" by (simp add: lease_after_def)
  from returns_pending[OF this assms(1)] None assms(2) show ?thesis
    by (simp add: reconcile_begin_def selection_require_utc_def)
next
  case (Some a)
  show ?thesis
  proof (cases "as_expires_at a \<le> instant now")
    case True
    with Some assms show ?thesis by (simp add: reconcile_begin_def selection_require_utc_def returns_lease_def)
  next
    case False
    then have "lease_after (instant now) s" using Some by (simp add: lease_after_def)
    from returns_pending[OF this assms(1)] Some False assms(2) show ?thesis
      by (simp add: reconcile_begin_def selection_require_utc_def)
  qed
qed

lemma returns_unsubscribe:
  assumes inv: "single_inv s" and "0 < cfg_ttl cfg" and time: "reconcile_time (AUnsubscribed u) s = Some now"
  shows "returns_lease now (unsubscribe_ends cfg u s)"
proof (cases "cleanup_error u")
  case (Some e)
  then show ?thesis by (simp add: unsubscribe_ends_def returns_lease_def finish_def)
next
  case None
  have dropped: "lease_after now (drop_active a (close_live b s))" if "ct_active s = Some a" for a b
    using that by (simp add: lease_after_def drop_active_def close_live_def)
  from time consider (expired) a where "ct_pc s = CleanupExpired now a"
    | (replaced) p x a where "ct_pc s = CleanupReplaced now p x a"
    by (auto simp: reconcile_time_def split: ctl_pc.splits)
  then show ?thesis
  proof cases
    case expired
    then have "ct_active s = Some a" using inv by (simp add: single_inv_def)
    from returns_pending[OF dropped[OF this] assms(2)] None expired show ?thesis
      by (simp add: unsubscribe_ends_def)
  next
    case replaced
    then have "ct_active s = Some a" using inv by (simp add: single_inv_def)
    from returns_subscribe[OF dropped[OF this]] None replaced show ?thesis
      by (simp add: unsubscribe_ends_def)
  qed
qed

lemma returns_subscribed:
  assumes inv: "latest_inv s" and time: "reconcile_time (ASubscribed r) s = Some now"
  shows "returns_lease now (subscribe_ends r s)"
proof -
  obtain p x sid where pc: "ct_pc s = Subscribing now p x sid"
    using time by (auto simp: reconcile_time_def split: ctl_pc.splits)
  then have "now < x" using inv by (simp add: latest_inv_def due_for_def)
  with pc show ?thesis
    by (cases r) (auto simp: subscribe_ends_def returns_lease_def finish_def Let_def)
qed

section \<open>Properties\<close>

text \<open>
  C25. One selection at a time: in every execution in which no heartbeat falls into the closing of the
  active selection and superseded subscriptions close, at most one subscription is ever live, and
  whenever the lock is free the live one is the active one.
\<close>

theorem one_live_subscription:
  assumes "ctl_reach careful cfg s"
  shows "length (ct_live s) \<le> 1 \<and> (if ct_pc s = Unlocked then ct_live s = active_ids s else True)"
proof -
  have inv: "single_inv s" by (rule careful_single[OF assms])
  then have "ct_pc s = Unlocked \<Longrightarrow> ct_live s = active_ids s" by (simp add: single_inv_def)
  with single_inv_live[OF inv] show ?thesis by simp
qed

definition selection_script :: "ctl_action list" where
  "selection_script =
     [ARequest ''crypto:BTC:linear-perp'' ''mexc:BTC_USDT'' (utc 0) None,
      AReconcile (utc 500000), ASubscribed (Inr 1)]"

lemma one_live_subscription_witness:
  "length (ct_live (the (ctl_exec careful default_selection_config selection_script fresh_controller))) \<le> 1"
proof -
  have "ctl_exec careful default_selection_config selection_script fresh_controller
      = Some (the (ctl_exec careful default_selection_config selection_script fresh_controller))" by code_simp
  from one_live_subscription[OF ctl_exec_fresh[OF this]] show ?thesis by simp
qed

text \<open>
  C16. The latest request wins: whatever interleaves with the awaits, a selection that becomes active
  is the one of the latest request, with its debounce elapsed and its lease still running.
\<close>

theorem activation_is_latest_request:
  assumes reach: "ctl_reach ok cfg s" and "0 < cfg_ttl cfg" and step: "ctl_step cfg act s s'"
    and new: "ct_active s' = Some a" "active_ids s \<noteq> [as_id a]"
  shows "\<exists>q. ct_pending s = Some q \<and> ps_revision q = ct_revision s
       \<and> as_group a = ps_group q \<and> as_primary a = ps_primary q
       \<and> ps_activate_at q \<le> as_activated_at a \<and> as_activated_at a < as_expires_at a"
proof -
  have inv: "latest_inv s" by (rule reach_latest[OF reach assms(2)])
  have old: "ct_active s = Some b \<Longrightarrow> as_id b \<noteq> as_id a" for b using new(2) by (simp add: active_ids_def)
  have "\<exists>r. act = ASubscribed r"
    using step new(1) old
    by (cases rule: ctl_step.cases)
       (auto simp: ctl_request_def ctl_heartbeat_def reconcile_begin_def reconcile_pending_def reconcile_subscribe_def
          stop_begin_def unsubscribe_ends_def drop_active_def close_live_def finish_def Let_def raise_exn_def
          split: sum.splits option.splits if_splits ctl_pc.splits)
  then obtain r where "in_subscribe (ct_pc s)" and s': "s' = subscribe_ends r s"
    using step by (auto elim: ctl_stepE)
  then obtain now p x sid where pc: "ct_pc s = Subscribing now p x sid" by (cases "ct_pc s") auto
  have due: "due_for s now p x" using inv pc by (simp add: latest_inv_def)
  obtain token where "r = Inr token" and still: "still_pending p s"
    and a: "as_group a = ps_group p" "as_primary a = ps_primary p" "as_activated_at a = now" "as_expires_at a = x"
    using new(1) old pc unfolding s'
    by (cases r) (auto simp: subscribe_ends_def finish_def Let_def still_pending_def split: if_splits option.splits)
  then have q: "ct_pending s = Some p" using due
    by (auto simp: still_pending_def due_for_def split: option.splits)
  then have "ps_revision p = ct_revision s" using inv by (simp add: latest_inv_def)
  with q a due show ?thesis by (auto simp: due_for_def)
qed

lemma activation_is_latest_request_witness:
  "\<exists>(s :: controller) (a :: active_selection) q. ct_active s = None \<and> ct_pending s = Some q \<and> ps_group q = as_group a \<and> as_group a = ''crypto:BTC:linear-perp''"
proof -
  define acts where "acts = [ARequest ''crypto:BTC:linear-perp'' ''mexc:BTC_USDT'' (utc 0) None, AReconcile (utc 500000)]"
  define s where "s = the (ctl_exec any_action default_selection_config acts fresh_controller)"
  define s' where "s' = subscribe_ends (Inr 1) s"
  have "ctl_exec any_action default_selection_config acts fresh_controller = Some s"
    unfolding s_def acts_def by code_simp
  note r = ctl_exec_fresh[OF this]
  have none: "ct_active s = None" unfolding s_def acts_def by code_simp
  have st: "ctl_step default_selection_config (ASubscribed (Inr 1)) s s'"
    unfolding s'_def by (rule step_subscribed) (unfold s_def acts_def, code_simp)
  have act: "ct_active s' = Some (the (ct_active s'))" unfolding s'_def s_def acts_def by code_simp
  have ttl: "0 < cfg_ttl default_selection_config" by code_simp
  have grp: "as_group (the (ct_active s')) = ''crypto:BTC:linear-perp''" unfolding s'_def s_def acts_def by code_simp
  from activation_is_latest_request[OF r ttl st act] none grp show ?thesis
    by (intro exI[of _ s] exI[of _ "the (ct_active s')"]) (auto simp: active_ids_def)
qed

text \<open>
  A reconcile that returns a selection returns one whose lease runs beyond the time it was
  called with: an expired lease is closed first, a replacement starts a new one.
\<close>

theorem reconcile_returns_running_lease:
  assumes "ctl_reach careful cfg s" and "0 < cfg_ttl cfg" and "ctl_step cfg act s s'"
    and "reconcile_time act s = Some now" and "ct_pc s' = Unlocked"
    and "ct_result s' = Some (Returned (Some a))"
  shows "now < as_expires_at a"
proof -
  have "returns_lease now s'"
    using assms(3,4)
  proof (cases rule: ctl_step.cases)
    case (step_reconcile t)
    with assms(2,4) returns_reconcile_begin[of cfg t s] show ?thesis
      by (auto simp: reconcile_time_def split: if_splits)
  next
    case (step_unsubscribed u)
    with returns_unsubscribe[OF careful_single[OF assms(1)] assms(2)] assms(4) show ?thesis by simp
  next
    case (step_subscribed r)
    with returns_subscribed[OF reach_latest[OF assms(1,2)]] assms(4) show ?thesis by simp
  qed (use assms(4) in \<open>simp_all add: reconcile_time_def\<close>)
  with assms(5,6) show ?thesis by (simp add: returns_lease_def)
qed

lemma reconcile_returns_running_lease_witness:
  "\<exists>(s' :: controller) a. ct_active s' = Some a \<and> (600000::int) < as_expires_at a"
proof -
  define s where "s = the (ctl_exec careful default_selection_config selection_script fresh_controller)"
  define s' where "s' = reconcile_begin default_selection_config (utc 600000) s"
  have "ctl_exec careful default_selection_config selection_script fresh_controller = Some s"
    unfolding s_def by code_simp
  note r = ctl_exec_fresh[OF this]
  have pc: "ct_pc s = Unlocked" unfolding s_def by code_simp
  have st: "ctl_step default_selection_config (AReconcile (utc 600000)) s s'"
    unfolding s'_def by (rule step_reconcile[OF pc])
  have time: "reconcile_time (AReconcile (utc 600000)) s = Some 600000" by (simp add: reconcile_time_def)
  have pc': "ct_pc s' = Unlocked" unfolding s'_def s_def by code_simp
  have res: "ct_result s' = Some (Returned (Some (the (ct_active s'))))" unfolding s'_def s_def by code_simp
  have act: "ct_active s' = Some (the (ct_active s'))" unfolding s'_def s_def by code_simp
  have ttl: "0 < cfg_ttl default_selection_config" by code_simp
  from reconcile_returns_running_lease[OF r ttl st time pc' res] act show ?thesis by blast
qed

text \<open>
  The controller is not safe against a heartbeat that arrives while the active selection is being
  closed: the heartbeat replaces the active object, so the \<open>is\<close> test of \<open>_cleanup_active\<close> fails and
  a selection whose subscription is closed stays active.
\<close>

theorem heartbeat_revives_closed_selection:
  "\<exists>s a. ctl_reach any_action default_selection_config s \<and> ct_pc s = Unlocked
       \<and> ct_active s = Some a \<and> ct_live s = [] \<and> as_expires_at a = 30 * minute_us"
proof -
  define acts where "acts = selection_script @
    [AReconcile (utc (20 * minute_us)), AHeartbeat 0 (utc (15 * minute_us)), AUnsubscribed UnsubDone]"
  define s where "s = the (ctl_exec any_action default_selection_config acts fresh_controller)"
  have "ctl_exec any_action default_selection_config acts fresh_controller = Some s"
    unfolding s_def acts_def by code_simp
  note r = ctl_exec_fresh[OF this]
  have f: "ct_pc s = Unlocked" "ct_active s = Some (the (ct_active s))" "ct_live s = []"
    "as_expires_at (the (ct_active s)) = 30 * minute_us"
    unfolding s_def acts_def by code_simp+
  with r show ?thesis by blast
qed

text \<open>
  A superseded subscription whose close times out is forgotten: after the next activation two
  subscriptions are live.
\<close>

theorem stale_cleanup_failure_leaks:
  "\<exists>s. ctl_reach any_action default_selection_config s \<and> ct_pc s = Unlocked \<and> length (ct_live s) = 2"
proof -
  define acts where "acts =
    [ARequest ''g1'' ''p1'' (utc 0) None, AReconcile (utc 500000),
     ARequest ''g2'' ''p2'' (utc 500000) None, ASubscribed (Inr 1), AUnsubscribed UnsubTimeout,
     AReconcile (utc 1000000), ASubscribed (Inr 2)]"
  define s where "s = the (ctl_exec any_action default_selection_config acts fresh_controller)"
  have "ctl_exec any_action default_selection_config acts fresh_controller = Some s"
    unfolding s_def acts_def by code_simp
  note r = ctl_exec_fresh[OF this]
  have f: "ct_pc s = Unlocked" "length (ct_live s) = 2"
    unfolding s_def acts_def by code_simp+
  with r show ?thesis by blast
qed

end
