(* ===== verification/Book_Walk.thy ===== *)
theory Book_Walk
  imports Market_Models
begin

text \<open>
  Depth of the selected market: the contract of levels, books and trades (\<open>selected_market.py\<close>) and
  the estimates of what a market order would pay (\<open>estimate_book_walks\<close> of \<open>selection.py\<close>).  The walk
  takes the rounding of Decimal arithmetic as the argument \<open>rnd\<close>: \<open>dec_round\<close> is the code,
  the identity is the algorithm in exact arithmetic.
\<close>

section \<open>Depth and trades\<close>

record depth_level =
  lv_price :: pydec
  lv_size :: pydec

definition contract_error :: "bool \<Rightarrow> string \<Rightarrow> unit result" where
  "contract_error b m = (if b then raise_exn SelectedContractError m else Inr ())"

lemma contract_error_Inr [simp]: "contract_error b m = Inr () \<longleftrightarrow> \<not> b"
  by (simp add: contract_error_def)

definition check_level :: "depth_level \<Rightarrow> unit result" where
  "check_level l = first_error
     [contract_error (\<not> dec_finite (lv_price l) \<or> dval (lv_price l) \<le> 0) ''depth price must be positive and finite'',
      contract_error (\<not> dec_finite (lv_size l) \<or> dval (lv_size l) \<le> 0) ''depth size must be positive and finite'']"

definition selected_utc :: "pydt \<Rightarrow> string \<Rightarrow> unit result" where
  "selected_utc t field =
     (if is_utc t then Inr () else raise_exn SelectedContractError (field @ '' must be timezone-aware UTC''))"

definition validate_common :: "string \<Rightarrow> pydt option \<Rightarrow> pydt \<Rightarrow> string \<Rightarrow> unit result" where
  "validate_common symbol source_at received_at channel = first_error
     [contract_error (strip symbol = [] \<or> strip channel = []) ''source symbol and channel must not be empty'',
      selected_utc received_at ''received_at'',
      (case source_at of None \<Rightarrow> Inr () | Some t \<Rightarrow> selected_utc t ''source_at'')]"

record selected_depth =
  sd_venue :: venue
  sd_symbol :: string
  sd_bids :: "depth_level list"
  sd_asks :: "depth_level list"
  sd_source_at :: "pydt option"
  sd_received_at :: pydt
  sd_channel :: string

fun adjacent :: "('a \<Rightarrow> 'a \<Rightarrow> bool) \<Rightarrow> 'a list \<Rightarrow> bool" where
  "adjacent P (x # y # zs) = (P x y \<and> adjacent P (y # zs))"
| "adjacent P _ = True"

definition check_depth :: "selected_depth \<Rightarrow> unit result" where
  "check_depth d = first_error
     [validate_common (sd_symbol d) (sd_source_at d) (sd_received_at d) (sd_channel d),
      contract_error (sd_bids d = [] \<or> sd_asks d = []) ''depth must contain both bid and ask levels'',
      contract_error (20 < length (sd_bids d) \<or> 20 < length (sd_asks d)) ''depth must contain at most 20 levels per side'',
      contract_error (\<not> adjacent (\<lambda>l r. dval (lv_price r) < dval (lv_price l)) (sd_bids d)) ''bids must be strictly descending'',
      contract_error (\<not> adjacent (\<lambda>l r. dval (lv_price l) < dval (lv_price r)) (sd_asks d)) ''asks must be strictly ascending'',
      contract_error (dval (lv_price (hd (sd_asks d))) \<le> dval (lv_price (hd (sd_bids d)))) ''selected depth is crossed'']"

datatype trade_side = Buy | Sell

record selected_trade =
  st_venue :: venue
  st_symbol :: string
  st_id :: string
  st_side :: trade_side
  st_price :: pydec
  st_size :: pydec
  st_source_at :: "pydt option"
  st_received_at :: pydt
  st_channel :: string

definition check_trade :: "selected_trade \<Rightarrow> unit result" where
  "check_trade t = first_error
     [validate_common (st_symbol t) (st_source_at t) (st_received_at t) (st_channel t),
      contract_error (strip (st_id t) = []) ''trade_id must not be empty'',
      contract_error (\<not> dec_finite (st_price t) \<or> dval (st_price t) \<le> 0) ''trade price must be positive and finite'',
      contract_error (\<not> dec_finite (st_size t) \<or> dval (st_size t) \<le> 0) ''trade size must be positive and finite'']"

definition ascii_upper :: "char \<Rightarrow> char" where
  "ascii_upper c = (let n = (of_char c :: nat) in if 97 \<le> n \<and> n \<le> 122 then char_of (n - 32) else c)"

definition usd_like :: "string \<Rightarrow> bool" where
  "usd_like asset = (map ascii_upper asset \<in> {''USD'', ''USDC'', ''USDT''})"

definition validate_selected_instrument :: "instrument \<Rightarrow> unit result" where
  "validate_selected_instrument i = first_error
     [contract_error (\<not> ci_active i) ''selected instrument must be active'',
      contract_error (ci_execution_model i \<noteq> ''clob'') ''selected instrument must use CLOB execution'',
      contract_error (ci_market_type i \<noteq> ''linear_perpetual'') ''selected instrument must be a linear perpetual'',
      contract_error (\<not> (usd_like (ci_quote i) \<and> usd_like (ci_settle i)
          \<and> (case ci_collateral i of None \<Rightarrow> False | Some a \<Rightarrow> usd_like a)))
        ''selected instrument must use USD-like quote and settlement'',
      contract_error (\<not> quantity_normalizable i) ''selected instrument size cannot be normalized to base units'']"

section \<open>The walk\<close>

record book_walk_fill =
  bf_base_size :: rat
  bf_average_price :: rat
  bf_impact_bps :: rat

record book_walk_estimate =
  be_notional :: rat
  be_buy :: "book_walk_fill option"
  be_sell :: "book_walk_fill option"
  be_buy_reason :: "string option"
  be_sell_reason :: "string option"

fun consume_levels :: "(rat \<Rightarrow> rat) \<Rightarrow> depth_level list \<Rightarrow> rat \<Rightarrow> rat \<Rightarrow> rat \<times> rat" where
  "consume_levels rnd [] remaining base = (remaining, base)"
| "consume_levels rnd (l # ls) remaining base =
     (let available = rnd (dval (lv_price l) * dval (lv_size l));
          consumed = min remaining available;
          base' = rnd (base + rnd (consumed / dval (lv_price l)));
          remaining' = rnd (remaining - consumed)
      in if remaining' \<le> 0 then (remaining', base') else consume_levels rnd ls remaining' base')"

definition walk_levels :: "(rat \<Rightarrow> rat) \<Rightarrow> depth_level list \<Rightarrow> rat \<Rightarrow> bool \<Rightarrow> book_walk_fill option" where
  "walk_levels rnd levels notional is_buy =
     (if levels = [] then None
      else
        (let (remaining, base) = consume_levels rnd levels notional 0 in
         if 0 < remaining \<or> base \<le> 0 then None
         else
           (let average = rnd (notional / base);
                top = dval (lv_price (hd levels));
                impact = (if is_buy then rnd (rnd (rnd (average / top) - 1) * 10000)
                          else rnd (rnd (1 - rnd (average / top)) * 10000))
            in Some \<lparr>bf_base_size = base, bf_average_price = average, bf_impact_bps = max 0 impact\<rparr>)))"

definition book_walk_notionals :: "rat list" where
  "book_walk_notionals = [100, 500, 1000]"

definition walk_unavailable :: "string \<Rightarrow> rat \<Rightarrow> book_walk_estimate" where
  "walk_unavailable reason n =
     \<lparr>be_notional = n, be_buy = None, be_sell = None, be_buy_reason = Some reason, be_sell_reason = Some reason\<rparr>"

definition unavailable_book_walks :: "string \<Rightarrow> book_walk_estimate list result" where
  "unavailable_book_walks reason =
     (if strip reason = [] then raise_exn ValueError ''book-walk unavailable reason must not be empty''
      else Inr (map (walk_unavailable reason) book_walk_notionals))"

definition walk_both :: "(rat \<Rightarrow> rat) \<Rightarrow> depth_level list \<Rightarrow> depth_level list \<Rightarrow> rat \<Rightarrow> book_walk_estimate" where
  "walk_both rnd bids asks n =
     (let buy = walk_levels rnd asks n True; sell = walk_levels rnd bids n False in
      \<lparr>be_notional = n, be_buy = buy, be_sell = sell,
       be_buy_reason = (if buy = None then Some ''insufficient_depth'' else None),
       be_sell_reason = (if sell = None then Some ''insufficient_depth'' else None)\<rparr>)"

definition depth_unavailable :: "string \<Rightarrow> int \<Rightarrow> int \<Rightarrow> string option" where
  "depth_unavailable quote received_at now =
     (if \<not> usd_like quote then Some ''non_usd_like_quote''
      else if now < received_at then Some ''invalid_depth_time''
      else if 10 * second_us < now - received_at then Some ''stale_depth''
      else None)"

definition estimate_book_walks ::
    "(rat \<Rightarrow> rat) \<Rightarrow> depth_level list \<Rightarrow> depth_level list \<Rightarrow> string \<Rightarrow> pydt \<Rightarrow> pydt \<Rightarrow> book_walk_estimate list result" where
  "estimate_book_walks rnd bids asks quote received_at now =
     (if \<not> is_utc received_at then raise_exn ValueError ''depth received_at must be timezone-aware UTC''
      else if \<not> is_utc now then raise_exn ValueError ''now must be timezone-aware UTC''
      else (case depth_unavailable quote (instant received_at) (instant now) of
              Some reason \<Rightarrow> Inr (map (walk_unavailable reason) book_walk_notionals)
            | None \<Rightarrow> Inr (map (walk_both rnd bids asks) book_walk_notionals)))"

declare check_level_def [unfold_code] walk_levels_def [unfold_code] book_walk_notionals_def [unfold_code]
  walk_unavailable_def [unfold_code] walk_both_def [unfold_code] unavailable_book_walks_def [unfold_code]
  depth_unavailable_def [unfold_code] estimate_book_walks_def [unfold_code]

section \<open>The walk in exact arithmetic\<close>

definition depth_quote :: "depth_level list \<Rightarrow> rat" where
  "depth_quote levels = (\<Sum>l\<leftarrow>levels. dval (lv_price l) * dval (lv_size l))"

lemma depth_quote_simps [simp]:
  "depth_quote [] = 0"
  "depth_quote (l # ls) = dval (lv_price l) * dval (lv_size l) + depth_quote ls"
  by (simp_all add: depth_quote_def)

lemma check_level_pos:
  "check_level l = Inr () \<Longrightarrow> 0 < dval (lv_price l) \<and> 0 < dval (lv_size l)"
  by (simp add: check_level_def first_error_Inr_all not_le)

lemma depth_quote_nonneg:
  "list_all (\<lambda>l. check_level l = Inr ()) ls \<Longrightarrow> 0 \<le> depth_quote ls"
  by (induction ls) (auto dest!: check_level_pos)

lemma consume_exact:
  assumes "list_all (\<lambda>l. check_level l = Inr ()) ls" and "0 < r"
    and "consume_levels (\<lambda>x. x) ls r b = (r', b')"
    and "\<And>l. l \<in> set ls \<Longrightarrow> lo \<le> dval (lv_price l) \<and> dval (lv_price l) \<le> hi" and "0 < lo"
  shows "r' = max 0 (r - depth_quote ls) \<and> (r - r') / hi \<le> b' - b \<and> b' - b \<le> (r - r') / lo"
  using assms
proof (induction ls arbitrary: r b)
  case Nil
  then show ?case by simp
next
  case (Cons l ls)
  let ?p = "dval (lv_price l)" and ?q = "dval (lv_price l) * dval (lv_size l)"
  let ?c = "min r ?q"
  have pos: "0 < ?p" "0 < ?q" using check_level_pos[of l] Cons.prems(1) by simp_all
  have bounds: "lo \<le> ?p" "?p \<le> hi" using Cons.prems(4)[of l] by simp_all
  have rest: "list_all (\<lambda>l. check_level l = Inr ()) ls" using Cons.prems(1) by simp
  have c: "?c / hi \<le> ?c / ?p" "?c / ?p \<le> ?c / lo"
    using pos bounds Cons.prems(2,5) by (auto intro!: divide_left_mono mult_pos_pos)
  note nonneg = depth_quote_nonneg[OF rest]
  show ?case
  proof (cases "r - ?c \<le> 0")
    case True
    then have cr: "?c = r" by (auto simp: min_def split: if_splits)
    then have rq: "r \<le> ?q" by (metis min.cobounded2)
    with Cons.prems(3) have "r' = 0" "b' = b + r / ?p" by (simp_all add: Let_def min_absorb1)
    with rq show ?thesis using c nonneg cr by simp
  next
    case False
    then have cq: "?c = ?q" by (auto simp: min_def split: if_splits)
    have step: "consume_levels (\<lambda>x. x) ls (r - ?q) (b + ?q / ?p) = (r', b')"
      using False Cons.prems(3) cq by (simp add: Let_def)
    have r1: "0 < r - ?q" using False cq by simp
    have ih: "r' = max 0 (r - ?q - depth_quote ls) \<and> (r - ?q - r') / hi \<le> b' - (b + ?q / ?p)
        \<and> b' - (b + ?q / ?p) \<le> (r - ?q - r') / lo"
      by (rule Cons.IH[OF rest r1 step _ Cons.prems(5)]) (simp add: Cons.prems(4))
    have split: "(r - r') / hi = (r - ?q - r') / hi + ?q / hi" "(r - r') / lo = (r - ?q - r') / lo + ?q / lo"
      by (simp_all add: add_divide_distrib[symmetric])
    have at: "?q / hi \<le> ?q / ?p" "?q / ?p \<le> ?q / lo" using c unfolding cq by blast+
    have "(r - r') / hi \<le> b' - b" using ih split(1) at(1) by linarith
    moreover have "b' - b \<le> (r - r') / lo" using ih split(2) at(2) by linarith
    moreover have "r' = max 0 (r - depth_quote (l # ls))" using ih by (simp add: algebra_simps)
    ultimately show ?thesis by blast
  qed
qed

section \<open>Properties\<close>

text \<open>
  In exact arithmetic the walk fills the notional exactly when the valid levels hold it, and then
  the average price lies between the best and the worst price of the side and the size bought or
  sold at it is worth the notional.
\<close>

theorem walk_fills_notional:
  assumes "list_all (\<lambda>l. check_level l = Inr ()) levels" and "0 < notional"
    and "\<And>l. l \<in> set levels \<Longrightarrow> lo \<le> dval (lv_price l) \<and> dval (lv_price l) \<le> hi" and "0 < lo"
  shows "case walk_levels (\<lambda>x. x) levels notional is_buy of
           None \<Rightarrow> depth_quote levels < notional
         | Some f \<Rightarrow> notional \<le> depth_quote levels \<and> bf_base_size f * bf_average_price f = notional
             \<and> lo \<le> bf_average_price f \<and> bf_average_price f \<le> hi \<and> 0 < bf_base_size f \<and> 0 \<le> bf_impact_bps f"
proof (cases "levels = []")
  case True
  with assms(2) show ?thesis by (simp add: walk_levels_def)
next
  case False
  obtain r' b' where c: "consume_levels (\<lambda>x. x) levels notional 0 = (r', b')" by fastforce
  have hi: "0 < hi" using False assms(3)[of "hd levels"] assms(4) by simp
  note e = consume_exact[OF assms(1,2) c assms(3,4)]
  show ?thesis
  proof (cases "0 < r'")
    case True
    with e False c show ?thesis by (simp add: walk_levels_def max_def split: if_splits)
  next
    case False
    with e have zero: "r' = 0" and depth: "notional \<le> depth_quote levels" by (auto simp: max_def split: if_splits)
    have base: "notional / hi \<le> b'" "b' \<le> notional / lo" using e zero by simp_all
    have pos: "0 < b'" using base(1) hi assms(2) by (meson divide_pos_pos less_le_trans)
    have avg: "lo \<le> notional / b'" "notional / b' \<le> hi"
      using base pos hi assms(4) by (simp_all add: field_simps)
    show ?thesis using \<open>levels \<noteq> []\<close> c zero pos depth avg by (simp add: walk_levels_def Let_def)
  qed
qed

definition sample_levels :: "depth_level list" where
  "sample_levels = [\<lparr>lv_price = DFin False 10 0, lv_size = DFin False 5 0\<rparr>,
                    \<lparr>lv_price = DFin False 20 0, lv_size = DFin False 5 0\<rparr>]"

lemma walk_fills_notional_witness:
  "case walk_levels (\<lambda>x. x) sample_levels 100 True of None \<Rightarrow> False
     | Some f \<Rightarrow> 10 \<le> bf_average_price f \<and> bf_average_price f \<le> 20"
proof -
  have ok: "list_all (\<lambda>l. check_level l = Inr ()) sample_levels" by code_simp
  have some: "walk_levels (\<lambda>x. x) sample_levels 100 True \<noteq> None" by code_simp
  have range: "10 \<le> dval (lv_price l) \<and> dval (lv_price l) \<le> 20" if "l \<in> set sample_levels" for l
    using that by (auto simp: sample_levels_def)
  from walk_fills_notional[OF ok _ range, of 100 True] some show ?thesis
    by (auto split: option.splits)
qed

definition sound_fill :: "book_walk_fill option \<Rightarrow> string option \<Rightarrow> bool" where
  "sound_fill fill reason =
     (case fill of None \<Rightarrow> reason \<noteq> None
      | Some f \<Rightarrow> reason = None \<and> 0 < bf_base_size f \<and> 0 \<le> bf_impact_bps f)"

lemma walk_levels_sound:
  "sound_fill (walk_levels rnd levels n b) (if walk_levels rnd levels n b = None then Some r else None)"
  by (auto simp: sound_fill_def walk_levels_def Let_def split: prod.split)

lemma walk_both_sound:
  "sound_fill (be_buy (walk_both rnd bids asks n)) (be_buy_reason (walk_both rnd bids asks n))"
  "sound_fill (be_sell (walk_both rnd bids asks n)) (be_sell_reason (walk_both rnd bids asks n))"
  unfolding walk_both_def Let_def by (simp_all only: book_walk_estimate.simps walk_levels_sound)



end
