(* ===== verification/Catalog_Store.thy ===== *)
theory Catalog_Store
  imports Market_Identity
begin

text \<open>
  The temporal catalog (\<open>catalog_store.py\<close>): \<open>persist_catalog\<close> writes one venue's catalog and its
  identity resolution in one transaction.  The record \<open>catalog_db\<close> holds the tables, as lists in
  insertion order, with the CHECK, UNIQUE and REFERENCES constraints that an INSERT or UPDATE of
  this code can violate; a violation is the \<open>psycopg.Error\<close> that becomes \<open>CatalogStoreError\<close>.
  \<open>sha\<close> is the canonical hash and \<open>load\<close> is what the database returns for a stored jsonb object.
\<close>

section \<open>Input\<close>

datatype source_kind = NativeRest | NativeWs

record provenance =
  pv_venue :: venue
  pv_source_kind :: source_kind
  pv_endpoint :: string
  pv_documentation_url :: string
  pv_observed_at :: pydt
  pv_source_at :: "pydt option"
  pv_payload_hash :: string

record capability =
  cap_venue :: venue
  cap_name :: string
  cap_available :: bool
  cap_source_kind :: source_kind
  cap_endpoint :: "string option"
  cap_documentation_url :: string
  cap_details :: "(string \<times> json) list"

record exclusion =
  ex_venue :: venue
  ex_symbol :: "string option"
  ex_reason :: string
  ex_raw :: "(string \<times> json) list"

record catalog_batch =
  cb_provenance :: provenance
  cb_instruments :: "instrument list"
  cb_exclusions :: "exclusion list"
  cb_capabilities :: "capability list"
  cb_raw_payload :: json

section \<open>Tables\<close>

record payload_row =
  rp_id :: int
  rp_run :: "string option"
  rp_venue :: venue
  rp_endpoint :: string
  rp_source_kind :: source_kind
  rp_documentation_url :: string
  rp_hash :: string
  rp_observed_at :: int
  rp_last_observed_at :: int
  rp_source_at :: "int option"
  rp_payload :: json

record exclusion_row =
  er_payload_id :: int
  er_exclusion :: exclusion

record version_row =
  vr_id :: int
  vr_instrument :: instrument
  vr_hash :: string
  vr_from :: int
  vr_to :: "int option"
  vr_payload_id :: int
  vr_run :: "string option"

record capability_row =
  cr_capability :: capability
  cr_cap_observed_at :: int
  cr_cap_run :: "string option"

record identity_row =
  idr_id :: int
  idr_version :: int
  idr_group :: "string option"
  idr_method :: "mapping_method option"
  idr_reason :: "unmapped_reason option"
  idr_from :: int
  idr_to :: "int option"

record membership_row =
  gm_id :: int
  gm_group :: string
  gm_version :: int
  gm_method :: "mapping_method option"
  gm_from :: int
  gm_to :: "int option"

record group_row =
  mg_id :: string
  mg_base :: string
  mg_class :: string
  mg_type :: string
  mg_created_at :: int
  mg_updated_at :: int

record catalog_db =
  t_runs :: "string list"
  t_payloads :: "payload_row list"
  t_exclusions :: "exclusion_row list"
  t_versions :: "version_row list"
  t_capabilities :: "capability_row list"
  t_identities :: "identity_row list"
  t_memberships :: "membership_row list"
  t_groups :: "group_row list"
  seq_payload :: int
  seq_version :: int
  seq_identity :: int
  seq_membership :: int

record catalog_result =
  res_payload_id :: int
  res_payload_inserted :: bool
  res_exclusions :: nat
  res_created :: nat
  res_unchanged :: nat
  res_closed :: nat
  res_capabilities :: nat
  res_identities :: nat
  res_opened :: nat
  res_memberships_closed :: nat

definition catalog_error :: "string \<Rightarrow> 'a result" where
  "catalog_error m = raise_exn CatalogStoreError m"

definition sql_failed :: "'a result" where
  "sql_failed = catalog_error ''catalog persistence failed''"

definition run_known :: "catalog_db \<Rightarrow> string option \<Rightarrow> bool" where
  "run_known db run = (case run of None \<Rightarrow> True | Some r \<Rightarrow> r \<in> set (t_runs db))"

definition hex64 :: "string \<Rightarrow> bool" where
  "hex64 h \<longleftrightarrow> length h = 64 \<and> list_all (\<lambda>c. c \<in> set ''0123456789abcdef'') h"

section \<open>Validation\<close>

fun index_instruments :: "venue \<Rightarrow> instrument list \<Rightarrow> string list \<Rightarrow> unit result" where
  "index_instruments v [] seen = Inr ()"
| "index_instruments v (i # is) seen =
     (if ci_venue i \<noteq> v then raise_exn ValueError ''catalog instrument venue does not match provenance''
      else if ci_symbol i \<in> set seen then raise_exn ValueError (''duplicate source symbol: '' @ ci_symbol i)
      else index_instruments v is (ci_symbol i # seen))"

fun check_capabilities :: "venue \<Rightarrow> capability list \<Rightarrow> unit result" where
  "check_capabilities v [] = Inr ()"
| "check_capabilities v (c # cs) =
     (if cap_venue c \<noteq> v then raise_exn ValueError ''catalog capability venue does not match provenance''
      else check_capabilities v cs)"

fun check_exclusions :: "venue \<Rightarrow> exclusion list \<Rightarrow> unit result" where
  "check_exclusions v [] = Inr ()"
| "check_exclusions v (x # xs) =
     (if ex_venue x \<noteq> v then raise_exn ValueError ''catalog exclusion venue does not match provenance''
      else if ex_reason x = [] then raise_exn ValueError ''catalog exclusion reason must not be empty''
      else check_exclusions v xs)"

fun index_identities :: "identity_resolution list \<Rightarrow> string list \<Rightarrow> unit result" where
  "index_identities [] seen = Inr ()"
| "index_identities (r # rs) seen =
     (if ir_id r \<in> set seen then raise_exn ValueError (''duplicate identity resolution: '' @ ir_id r)
      else (case ir_group r of
              None \<Rightarrow>
                if ir_method r \<noteq> None \<or> ir_reason r = None
                then raise_exn ValueError ''unmapped identity must have only an unmapped reason''
                else index_identities rs (ir_id r # seen)
            | Some g \<Rightarrow>
                if ir_method r = None \<or> ir_reason r \<noteq> None
                then raise_exn ValueError ''mapped identity must have a method and no unmapped reason''
                else index_identities rs (ir_id r # seen)))"

definition validate_input ::
    "(json \<Rightarrow> string) \<Rightarrow> catalog_batch \<Rightarrow> identity_resolution list \<Rightarrow> unit result" where
  "validate_input sha batch identities =
     (let p = cb_provenance batch in
      if \<not> is_aware (pv_observed_at p) then raise_exn ValueError ''catalog observed_at must be timezone-aware''
      else if (case pv_source_at p of None \<Rightarrow> False | Some t \<Rightarrow> \<not> is_aware t) then
        raise_exn ValueError ''catalog source_at must be timezone-aware''
      else and_then (canonical_json_sha256 sha (cb_raw_payload batch)) (\<lambda>h.
        if h \<noteq> pv_payload_hash p then raise_exn ValueError ''catalog payload hash does not match raw payload''
        else if cb_instruments batch = [] then
          raise_exn ValueError ''catalog batch must contain at least one instrument''
        else and_then (index_instruments (pv_venue p) (cb_instruments batch) []) (\<lambda>_.
          and_then (check_capabilities (pv_venue p) (cb_capabilities batch)) (\<lambda>_.
            and_then (check_exclusions (pv_venue p) (cb_exclusions batch)) (\<lambda>_.
              and_then (index_identities identities []) (\<lambda>_.
                if set (map ir_id identities) \<noteq> set (map instrument_id (cb_instruments batch)) then
                  raise_exn ValueError
                    ''identity resolutions must cover every catalog instrument exactly once''
                else Inr ()))))))"

section \<open>Payload, exclusions and capabilities\<close>

definition payload_key_matches :: "provenance \<Rightarrow> payload_row \<Rightarrow> bool" where
  "payload_key_matches p r \<longleftrightarrow>
     rp_venue r = pv_venue p \<and> rp_endpoint r = pv_endpoint p \<and> rp_hash r = pv_payload_hash p"

text \<open>\<open>obs\<close> is the instant of \<open>observed_at\<close>.\<close>

definition persist_raw_payload ::
    "string option \<Rightarrow> catalog_batch \<Rightarrow> int \<Rightarrow> catalog_db \<Rightarrow> (int \<times> bool \<times> catalog_db) result" where
  "persist_raw_payload run batch obs db =
     (let p = cb_provenance batch in
      if \<not> hex64 (pv_payload_hash p) then sql_failed
      else (case filter (payload_key_matches p) (t_payloads db) of
              [] \<Rightarrow>
                if \<not> run_known db run then sql_failed
                else Inr (seq_payload db, True, db\<lparr>
                  t_payloads := t_payloads db @
                    [\<lparr>rp_id = seq_payload db, rp_run = run, rp_venue = pv_venue p, rp_endpoint = pv_endpoint p,
                      rp_source_kind = pv_source_kind p, rp_documentation_url = pv_documentation_url p,
                      rp_hash = pv_payload_hash p, rp_observed_at = obs, rp_last_observed_at = obs,
                      rp_source_at = map_option instant (pv_source_at p), rp_payload = cb_raw_payload batch\<rparr>],
                  seq_payload := seq_payload db + 1\<rparr>)
            | r # _ \<Rightarrow>
                Inr (rp_id r, False, db\<lparr>t_payloads := map (\<lambda>q. if payload_key_matches p q
                    then q\<lparr>rp_last_observed_at := max (rp_last_observed_at q) obs\<rparr> else q) (t_payloads db)\<rparr>)))"

definition persist_exclusion :: "int \<Rightarrow> exclusion \<Rightarrow> nat \<times> catalog_db \<Rightarrow> nat \<times> catalog_db" where
  "persist_exclusion payload_id x acc =
     (let (n, db) = acc in
      if list_ex (\<lambda>r. er_payload_id r = payload_id \<and> ex_symbol (er_exclusion r) = ex_symbol x
                     \<and> ex_reason (er_exclusion r) = ex_reason x) (t_exclusions db)
      then (n, db)
      else (n + 1, db\<lparr>t_exclusions := t_exclusions db @ [\<lparr>er_payload_id = payload_id, er_exclusion = x\<rparr>]\<rparr>))"

definition persist_exclusions :: "catalog_batch \<Rightarrow> int \<Rightarrow> catalog_db \<Rightarrow> nat \<times> catalog_db" where
  "persist_exclusions batch payload_id db = fold (persist_exclusion payload_id) (cb_exclusions batch) (0, db)"

definition upsert_capability ::
    "string option \<Rightarrow> int \<Rightarrow> capability \<Rightarrow> nat \<times> catalog_db \<Rightarrow> nat \<times> catalog_db" where
  "upsert_capability run obs c acc =
     (let (n, db) = acc;
          same = (\<lambda>r. cap_venue (cr_capability r) = cap_venue c \<and> cap_name (cr_capability r) = cap_name c);
          row = \<lparr>cr_capability = c, cr_cap_observed_at = obs, cr_cap_run = run\<rparr>
      in (case filter same (t_capabilities db) of
            [] \<Rightarrow> (n + 1, db\<lparr>t_capabilities := t_capabilities db @ [row]\<rparr>)
          | r # _ \<Rightarrow>
              if cr_cap_observed_at r \<le> obs
              then (n + 1, db\<lparr>t_capabilities := map (\<lambda>q. if same q then row else q) (t_capabilities db)\<rparr>)
              else (n, db)))"

definition upsert_capabilities ::
    "string option \<Rightarrow> catalog_batch \<Rightarrow> int \<Rightarrow> catalog_db \<Rightarrow> (nat \<times> catalog_db) result" where
  "upsert_capabilities run batch obs db =
     (let (n, db') = fold (upsert_capability run obs) (cb_capabilities batch) (0, db)
      in if 0 < n \<and> \<not> run_known db run then sql_failed else Inr (n, db'))"

section \<open>Versions\<close>

definition require_later :: "int \<Rightarrow> int \<Rightarrow> string \<Rightarrow> unit result" where
  "require_later obs valid_from subject =
     (if obs \<le> valid_from then
        catalog_error (subject @ '' change must be observed after its current version'')
      else Inr ())"

definition stored_semantic_hash ::
    "(json \<Rightarrow> string) \<Rightarrow> ((string \<times> json) list \<Rightarrow> (string \<times> json) list) \<Rightarrow> version_row \<Rightarrow> string result" where
  "stored_semantic_hash sha load r =
     semantic_definition_sha256 sha ((vr_instrument r)\<lparr>ci_raw := load (ci_raw (vr_instrument r))\<rparr>)"

definition current_rows :: "venue \<Rightarrow> catalog_db \<Rightarrow> version_row list" where
  "current_rows v db = filter (\<lambda>r. ci_venue (vr_instrument r) = v \<and> vr_to r = None) (t_versions db)"

definition current_row_of :: "venue \<Rightarrow> catalog_db \<Rightarrow> string \<Rightarrow> version_row option" where
  "current_row_of v db s = map_of (rev (map (\<lambda>r. (ci_symbol (vr_instrument r), r)) (current_rows v db))) s"

text \<open>Is the current row of the instrument's symbol the same definition?\<close>

definition unchanged ::
    "(json \<Rightarrow> string) \<Rightarrow> ((string \<times> json) list \<Rightarrow> (string \<times> json) list) \<Rightarrow> catalog_db \<Rightarrow> instrument \<Rightarrow> bool result" where
  "unchanged sha load db i =
     (case current_row_of (ci_venue i) db (ci_symbol i) of
        None \<Rightarrow> Inr False
      | Some r \<Rightarrow>
          and_then (definition_sha256 sha i) (\<lambda>h.
            if vr_hash r = h then Inr True
            else and_then (stored_semantic_hash sha load r) (\<lambda>old.
              and_then (semantic_definition_sha256 sha i) (\<lambda>new. Inr (old = new)))))"

text \<open>The symbols of the batch that keep their version.\<close>

fun unchanged_symbols ::
    "(json \<Rightarrow> string) \<Rightarrow> ((string \<times> json) list \<Rightarrow> (string \<times> json) list) \<Rightarrow> catalog_db \<Rightarrow> instrument list
     \<Rightarrow> string list result" where
  "unchanged_symbols sha load db [] = Inr []"
| "unchanged_symbols sha load db (i # is) =
     and_then (unchanged sha load db i) (\<lambda>same.
       and_then (unchanged_symbols sha load db is) (\<lambda>rest.
         Inr (if same then ci_symbol i # rest else rest)))"

text \<open>Set \<open>valid_to\<close> of the selected open rows; a row that would end before it began is refused.\<close>

definition close_rows ::
    "('r \<Rightarrow> bool) \<Rightarrow> ('r \<Rightarrow> int) \<Rightarrow> (int \<Rightarrow> 'r \<Rightarrow> 'r) \<Rightarrow> int \<Rightarrow> 'r list \<Rightarrow> 'r list result" where
  "close_rows selected valid_from set_to obs rows =
     (if list_ex (\<lambda>r. selected r \<and> obs \<le> valid_from r) rows then sql_failed
      else Inr (map (\<lambda>r. if selected r then set_to obs r else r) rows))"

definition close_version :: "int \<Rightarrow> int \<Rightarrow> catalog_db \<Rightarrow> (nat \<times> catalog_db) result" where
  "close_version vid obs db =
     and_then (close_rows (\<lambda>m. gm_version m = vid \<and> gm_to m = None) gm_from (\<lambda>t m. m\<lparr>gm_to := Some t\<rparr>) obs
                 (t_memberships db)) (\<lambda>ms.
       and_then (close_rows (\<lambda>r. idr_version r = vid \<and> idr_to r = None) idr_from (\<lambda>t r. r\<lparr>idr_to := Some t\<rparr>) obs
                   (t_identities db)) (\<lambda>ids.
         and_then (close_rows (\<lambda>r. vr_id r = vid \<and> vr_to r = None) vr_from (\<lambda>t r. r\<lparr>vr_to := Some t\<rparr>) obs
                     (t_versions db)) (\<lambda>vs.
           Inr (length (filter (\<lambda>m. gm_version m = vid \<and> gm_to m = None) (t_memberships db)),
                db\<lparr>t_memberships := ms, t_identities := ids, t_versions := vs\<rparr>))))"

text \<open>Close the current versions that the batch drops or redefines.\<close>

fun close_changed :: "string list \<Rightarrow> int \<Rightarrow> version_row list \<Rightarrow> catalog_db \<Rightarrow> (nat \<times> nat \<times> catalog_db) result" where
  "close_changed same obs [] db = Inr (0, 0, db)"
| "close_changed same obs (r # rs) db =
     (if ci_symbol (vr_instrument r) \<in> set same then close_changed same obs rs db
      else and_then (require_later obs (vr_from r) ''instrument definition'') (\<lambda>_.
        and_then (close_version (vr_id r) obs db) (\<lambda>(m, db1).
          and_then (close_changed same obs rs db1) (\<lambda>(n, ms, db2). Inr (n + 1, m + ms, db2)))))"

fun sql_positive :: "pydec \<Rightarrow> bool" where
  "sql_positive (DFin sg c e) = (0 < dval (DFin sg c e))"
| "sql_positive (DInf negative) = (\<not> negative)"
| "sql_positive DNaN = True"

definition positive_option :: "pydec option \<Rightarrow> bool" where
  "positive_option d = (case d of None \<Rightarrow> True | Some x \<Rightarrow> sql_positive x)"

definition insert_version ::
    "(json \<Rightarrow> string) \<Rightarrow> string option \<Rightarrow> int \<Rightarrow> int \<Rightarrow> instrument \<Rightarrow> catalog_db \<Rightarrow> (int \<times> catalog_db) result" where
  "insert_version sha run payload_id obs i db =
     and_then (definition_sha256 sha i) (\<lambda>h.
       if \<not> hex64 h \<or> \<not> run_known db run
          \<or> \<not> positive_option (ci_multiplier i) \<or> \<not> positive_option (ci_price_tick i)
          \<or> \<not> positive_option (ci_amount_step i)
          \<or> (case ci_funding_interval i of None \<Rightarrow> False | Some n \<Rightarrow> n \<le> 0)
          \<or> list_ex (\<lambda>r. ci_venue (vr_instrument r) = ci_venue i \<and> ci_symbol (vr_instrument r) = ci_symbol i
                         \<and> (vr_from r = obs \<or> vr_to r = None)) (t_versions db)
       then sql_failed
       else Inr (seq_version db, db\<lparr>
         t_versions := t_versions db @
           [\<lparr>vr_id = seq_version db, vr_instrument = i, vr_hash = h, vr_from = obs, vr_to = None,
             vr_payload_id = payload_id, vr_run = run\<rparr>],
         seq_version := seq_version db + 1\<rparr>))"

text \<open>
  Keep or create the version of every instrument; the result lists the current version id of each
  instrument, in order, with the counts of created and unchanged ones.
\<close>

fun open_versions ::
    "(json \<Rightarrow> string) \<Rightarrow> string option \<Rightarrow> int \<Rightarrow> int \<Rightarrow> (string \<Rightarrow> version_row option) \<Rightarrow> string list
     \<Rightarrow> instrument list \<Rightarrow> catalog_db \<Rightarrow> (int list \<times> nat \<times> nat \<times> catalog_db) result" where
  "open_versions sha run payload_id obs current same [] db = Inr ([], 0, 0, db)"
| "open_versions sha run payload_id obs current same (i # is) db =
     and_then (definition_sha256 sha i) (\<lambda>_.
       (case (current (ci_symbol i), ci_symbol i \<in> set same) of
          (Some r, True) \<Rightarrow>
            and_then (open_versions sha run payload_id obs current same is db) (\<lambda>(vids, c, u, db1).
              Inr (vr_id r # vids, c, u + 1, db1))
        | _ \<Rightarrow>
            and_then (insert_version sha run payload_id obs i db) (\<lambda>(vid, db1).
              and_then (open_versions sha run payload_id obs current same is db1) (\<lambda>(vids, c, u, db2).
                Inr (vid # vids, c + 1, u, db2)))))"

declare payload_key_matches_def [unfold_code] persist_raw_payload_def [unfold_code]
  persist_exclusion_def [unfold_code] persist_exclusions_def [unfold_code]
  upsert_capability_def [unfold_code] upsert_capabilities_def [unfold_code] require_later_def [unfold_code]
  stored_semantic_hash_def [unfold_code] current_rows_def [unfold_code] current_row_of_def [unfold_code]
  unchanged_def [unfold_code] close_rows_def [unfold_code] close_version_def [unfold_code]
  insert_version_def [unfold_code]

section \<open>Identities\<close>

definition ensure_group :: "string \<Rightarrow> instrument \<Rightarrow> int \<Rightarrow> catalog_db \<Rightarrow> catalog_db result" where
  "ensure_group g i obs db =
     (let groups = (if list_ex (\<lambda>r. mg_id r = g) (t_groups db) then t_groups db
                    else t_groups db @ [\<lparr>mg_id = g, mg_base = ci_base i, mg_class = ci_asset_class i,
                           mg_type = ci_market_type i, mg_created_at = obs, mg_updated_at = obs\<rparr>])
      in (case filter (\<lambda>r. mg_id r = g) groups of
            [] \<Rightarrow> catalog_error ''market group definition conflicts with an existing group''
          | r # _ \<Rightarrow>
              if mg_base r \<noteq> ci_base i \<or> mg_class r \<noteq> ci_asset_class i \<or> mg_type r \<noteq> ci_market_type i then
                catalog_error ''market group definition conflicts with an existing group''
              else Inr (db\<lparr>t_groups := map (\<lambda>q. if mg_id q = g
                     then q\<lparr>mg_updated_at := max (mg_updated_at q) obs\<rparr> else q) groups\<rparr>)))"

definition open_identity :: "catalog_db \<Rightarrow> int \<Rightarrow> identity_row option" where
  "open_identity db vid =
     map_of (rev (map (\<lambda>r. (idr_version r, r)) (filter (\<lambda>r. idr_to r = None) (t_identities db)))) vid"

definition open_membership :: "catalog_db \<Rightarrow> int \<Rightarrow> membership_row option" where
  "open_membership db vid =
     map_of (rev (map (\<lambda>m. (gm_version m, m)) (filter (\<lambda>m. gm_to m = None) (t_memberships db)))) vid"

definition end_identity :: "int \<Rightarrow> int \<Rightarrow> catalog_db \<Rightarrow> catalog_db result" where
  "end_identity rid obs db =
     and_then (close_rows (\<lambda>r. idr_id r = rid) idr_from (\<lambda>t r. r\<lparr>idr_to := Some t\<rparr>) obs (t_identities db))
       (\<lambda>ids. Inr (db\<lparr>t_identities := ids\<rparr>))"

definition add_identity :: "int \<Rightarrow> identity_resolution \<Rightarrow> int \<Rightarrow> catalog_db \<Rightarrow> catalog_db result" where
  "add_identity vid res obs db =
     (if list_ex (\<lambda>r. idr_version r = vid \<and> idr_to r = None) (t_identities db) then sql_failed
      else Inr (db\<lparr>t_identities := t_identities db @
             [\<lparr>idr_id = seq_identity db, idr_version = vid, idr_group = ir_group res, idr_method = ir_method res,
               idr_reason = ir_reason res, idr_from = obs, idr_to = None\<rparr>],
             seq_identity := seq_identity db + 1\<rparr>))"

definition end_membership :: "int \<Rightarrow> int \<Rightarrow> catalog_db \<Rightarrow> catalog_db result" where
  "end_membership mid obs db =
     and_then (close_rows (\<lambda>m. gm_id m = mid) gm_from (\<lambda>t m. m\<lparr>gm_to := Some t\<rparr>) obs (t_memberships db))
       (\<lambda>ms. Inr (db\<lparr>t_memberships := ms\<rparr>))"

definition add_membership :: "int \<Rightarrow> string \<Rightarrow> mapping_method option \<Rightarrow> int \<Rightarrow> catalog_db \<Rightarrow> catalog_db result" where
  "add_membership vid g meth obs db =
     (if list_ex (\<lambda>m. gm_version m = vid \<and> (gm_to m = None \<or> gm_group m = g \<and> gm_from m = obs)) (t_memberships db)
      then sql_failed
      else Inr (db\<lparr>t_memberships := t_memberships db @
             [\<lparr>gm_id = seq_membership db, gm_group = g, gm_version = vid, gm_method = meth,
               gm_from = obs, gm_to = None\<rparr>],
             seq_membership := seq_membership db + 1\<rparr>))"

text \<open>The identity part of one instrument; \<open>existing\<close> is its open row before the loop.\<close>

definition sync_identity ::
    "int \<Rightarrow> identity_resolution \<Rightarrow> int \<Rightarrow> identity_row option \<Rightarrow> catalog_db \<Rightarrow> (nat \<times> catalog_db) result" where
  "sync_identity vid res obs existing db =
     (if (case existing of None \<Rightarrow> False
          | Some r \<Rightarrow> (idr_group r, idr_method r, idr_reason r) = (ir_group res, ir_method res, ir_reason res))
      then Inr (0, db)
      else
        and_then (case existing of None \<Rightarrow> Inr db
                  | Some r \<Rightarrow> and_then (require_later obs (idr_from r) ''identity resolution'')
                                (\<lambda>_. end_identity (idr_id r) obs db)) (\<lambda>db1.
          and_then (add_identity vid res obs db1) (\<lambda>db2. Inr (1, db2))))"

definition sync_membership ::
    "int \<Rightarrow> identity_resolution \<Rightarrow> int \<Rightarrow> membership_row option \<Rightarrow> catalog_db
     \<Rightarrow> (nat \<times> nat \<times> catalog_db) result" where
  "sync_membership vid res obs existing db =
     (let state = map_option (\<lambda>m. (gm_group m, gm_method m)) existing;
          desired = map_option (\<lambda>g. (g, ir_method res)) (ir_group res)
      in if state = desired then Inr (0, 0, db)
         else
           and_then (case existing of None \<Rightarrow> Inr (0, db)
                     | Some m \<Rightarrow> and_then (require_later obs (gm_from m) ''group membership'')
                                   (\<lambda>_. and_then (end_membership (gm_id m) obs db) (\<lambda>d. Inr (1, d)))) (\<lambda>(closed, db1).
             (case desired of None \<Rightarrow> Inr (0, closed, db1)
              | Some (g, meth) \<Rightarrow> and_then (add_membership vid g meth obs db1) (\<lambda>db2. Inr (1, closed, db2)))))"

fun sync_identities ::
    "identity_resolution list \<Rightarrow> int \<Rightarrow> (int \<Rightarrow> identity_row option) \<Rightarrow> (int \<Rightarrow> membership_row option)
     \<Rightarrow> (instrument \<times> int) list \<Rightarrow> catalog_db \<Rightarrow> (nat \<times> nat \<times> nat \<times> catalog_db) result" where
  "sync_identities resolutions obs ids mems [] db = Inr (0, 0, 0, db)"
| "sync_identities resolutions obs ids mems ((i, vid) # rest) db =
     (case map_of (map (\<lambda>r. (ir_id r, r)) resolutions) (instrument_id i) of
        None \<Rightarrow> raise_exn ValueError ''identity resolutions must cover every catalog instrument exactly once''
      | Some res \<Rightarrow>
          and_then (case ir_group res of None \<Rightarrow> Inr db | Some g \<Rightarrow> ensure_group g i obs db) (\<lambda>db1.
            and_then (sync_identity vid res obs (ids vid) db1) (\<lambda>(created, db2).
              and_then (sync_membership vid res obs (mems vid) db2) (\<lambda>(opened, closed, db3).
                and_then (sync_identities resolutions obs ids mems rest db3) (\<lambda>(cr, op, cl, db4).
                  Inr (created + cr, opened + op, closed + cl, db4))))))"

section \<open>The transaction\<close>

definition persist_body ::
    "(json \<Rightarrow> string) \<Rightarrow> ((string \<times> json) list \<Rightarrow> (string \<times> json) list) \<Rightarrow> string option \<Rightarrow> catalog_batch
     \<Rightarrow> identity_resolution list \<Rightarrow> catalog_db \<Rightarrow> (catalog_result \<times> catalog_db) result" where
  "persist_body sha load run batch resolutions db =
     (let p = cb_provenance batch; obs = instant (pv_observed_at p); is = cb_instruments batch in
      and_then (persist_raw_payload run batch obs db) (\<lambda>(payload_id, inserted, db1).
        (let (excluded, db2) = persist_exclusions batch payload_id db1;
             rows = current_rows (pv_venue p) db2; current = current_row_of (pv_venue p) db2 in
         and_then (unchanged_symbols sha load db2 is) (\<lambda>same.
           and_then (close_changed same obs rows db2) (\<lambda>(closed, mclosed, db3).
             and_then (open_versions sha run payload_id obs current same is db3) (\<lambda>(vids, created, kept, db4).
               and_then (upsert_capabilities run batch obs db4) (\<lambda>(caps, db5).
                 and_then (sync_identities resolutions obs (open_identity db5) (open_membership db5)
                             (zip is vids) db5) (\<lambda>(ids, opened, mclosed2, db6).
                   Inr (\<lparr>res_payload_id = payload_id, res_payload_inserted = inserted, res_exclusions = excluded,
                          res_created = created, res_unchanged = kept, res_closed = closed,
                          res_capabilities = caps, res_identities = ids, res_opened = opened,
                          res_memberships_closed = mclosed + mclosed2\<rparr>, db6)))))))))"

definition persist_catalog ::
    "(json \<Rightarrow> string) \<Rightarrow> ((string \<times> json) list \<Rightarrow> (string \<times> json) list) \<Rightarrow> bool \<Rightarrow> string option \<Rightarrow> catalog_batch
     \<Rightarrow> identity_resolution list \<Rightarrow> catalog_db \<Rightarrow> catalog_result result \<times> catalog_db" where
  "persist_catalog sha load sql_ok run batch resolutions db =
     (case and_then (validate_input sha batch resolutions) (\<lambda>_.
             if sql_ok then persist_body sha load run batch resolutions db else sql_failed) of
        Inl e \<Rightarrow> (Inl e, db)
      | Inr (r, db') \<Rightarrow> (Inr r, db'))"

declare ensure_group_def [unfold_code] open_identity_def [unfold_code] open_membership_def [unfold_code]
  end_identity_def [unfold_code] add_identity_def [unfold_code] end_membership_def [unfold_code]
  add_membership_def [unfold_code] sync_identity_def [unfold_code] sync_membership_def [unfold_code]
  persist_body_def [unfold_code] persist_catalog_def [unfold_code]

section \<open>What each step writes\<close>

text \<open>The tables of versions, identities and memberships, with their sequences.\<close>

definition same_core :: "catalog_db \<Rightarrow> catalog_db \<Rightarrow> bool" where
  "same_core db db' \<longleftrightarrow> t_versions db' = t_versions db \<and> t_identities db' = t_identities db
     \<and> t_memberships db' = t_memberships db \<and> seq_version db' = seq_version db
     \<and> seq_identity db' = seq_identity db \<and> seq_membership db' = seq_membership db
     \<and> t_runs db' = t_runs db"

lemma same_core_refl [simp]: "same_core db db"
  by (simp add: same_core_def)

lemma same_core_trans: "same_core a b \<Longrightarrow> same_core b c \<Longrightarrow> same_core a c"
  by (simp add: same_core_def)

lemma sql_failed_simps [simp]: "sql_failed \<noteq> Inr x" "Inr x \<noteq> sql_failed" "catalog_error m \<noteq> Inr x"
  by (simp_all add: sql_failed_def catalog_error_def)

lemma persist_raw_payload_core:
  "persist_raw_payload run batch obs db = Inr (pid, ins, db') \<Longrightarrow> same_core db db'"
  by (auto simp: persist_raw_payload_def same_core_def Let_def split: if_splits list.splits)

lemma persist_exclusion_core: "same_core db0 (snd acc) \<Longrightarrow> same_core db0 (snd (persist_exclusion pid x acc))"
  by (cases acc) (auto simp: persist_exclusion_def same_core_def)

lemma persist_exclusions_core: "same_core db (snd (persist_exclusions batch pid db))"
proof -
  have "same_core db (snd (fold (persist_exclusion pid) xs acc))" if "same_core db (snd acc)" for xs acc
    using that by (induction xs arbitrary: acc) (simp_all add: persist_exclusion_core)
  then show ?thesis by (simp add: persist_exclusions_def)
qed

lemma upsert_capability_core: "same_core db0 (snd acc) \<Longrightarrow> same_core db0 (snd (upsert_capability run obs c acc))"
  by (cases acc) (auto simp: upsert_capability_def same_core_def Let_def split: list.split)

lemma upsert_capabilities_core:
  "upsert_capabilities run batch obs db = Inr (n, db') \<Longrightarrow> same_core db db'"
proof -
  have "same_core db (snd (fold (upsert_capability run obs) xs acc))" if "same_core db (snd acc)" for xs acc
    using that by (induction xs arbitrary: acc) (simp_all add: upsert_capability_core)
  from this[of "(0, db)" "cb_capabilities batch"]
  show "upsert_capabilities run batch obs db = Inr (n, db') \<Longrightarrow> same_core db db'"
    by (auto simp: upsert_capabilities_def split: prod.splits if_splits)
qed

lemma close_rows_Inr:
  "close_rows selected valid_from set_to obs rows = Inr rows' \<longleftrightarrow>
     rows' = map (\<lambda>r. if selected r then set_to obs r else r) rows
     \<and> (\<forall>r\<in>set rows. selected r \<longrightarrow> valid_from r < obs)"
  by (auto simp: close_rows_def list_ex_iff not_le)

definition ended_versions :: "int set \<Rightarrow> int \<Rightarrow> version_row list \<Rightarrow> version_row list" where
  "ended_versions vids obs = map (\<lambda>r. if vr_id r \<in> vids \<and> vr_to r = None then r\<lparr>vr_to := Some obs\<rparr> else r)"

definition ended_identities :: "int set \<Rightarrow> int \<Rightarrow> identity_row list \<Rightarrow> identity_row list" where
  "ended_identities vids obs =
     map (\<lambda>r. if idr_version r \<in> vids \<and> idr_to r = None then r\<lparr>idr_to := Some obs\<rparr> else r)"

definition ended_memberships :: "int set \<Rightarrow> int \<Rightarrow> membership_row list \<Rightarrow> membership_row list" where
  "ended_memberships vids obs =
     map (\<lambda>m. if gm_version m \<in> vids \<and> gm_to m = None then m\<lparr>gm_to := Some obs\<rparr> else m)"

text \<open>\<open>closes vids obs db db'\<close>: the open rows of the versions \<open>vids\<close> ended at \<open>obs\<close>, and nothing else changed.\<close>

definition closes :: "int set \<Rightarrow> int \<Rightarrow> catalog_db \<Rightarrow> catalog_db \<Rightarrow> bool" where
  "closes vids obs db db' \<longleftrightarrow>
     db' = db\<lparr>t_versions := ended_versions vids obs (t_versions db),
              t_identities := ended_identities vids obs (t_identities db),
              t_memberships := ended_memberships vids obs (t_memberships db)\<rparr>
     \<and> (\<forall>r\<in>set (t_versions db). vr_id r \<in> vids \<longrightarrow> vr_to r = None \<longrightarrow> vr_from r < obs)
     \<and> (\<forall>r\<in>set (t_identities db). idr_version r \<in> vids \<longrightarrow> idr_to r = None \<longrightarrow> idr_from r < obs)
     \<and> (\<forall>m\<in>set (t_memberships db). gm_version m \<in> vids \<longrightarrow> gm_to m = None \<longrightarrow> gm_from m < obs)"

lemma ended_empty [simp]:
  "ended_versions {} obs rs = rs" "ended_identities {} obs is = is" "ended_memberships {} obs ms = ms"
  by (simp_all add: ended_versions_def ended_identities_def ended_memberships_def)

lemma ended_ended:
  "ended_versions vs obs (ended_versions us obs rs) = ended_versions (us \<union> vs) obs rs"
  "ended_identities vs obs (ended_identities us obs is) = ended_identities (us \<union> vs) obs is"
  "ended_memberships vs obs (ended_memberships us obs ms) = ended_memberships (us \<union> vs) obs ms"
  by (auto simp: ended_versions_def ended_identities_def ended_memberships_def)

lemma close_version_closes:
  "close_version vid obs db = Inr (n, db') \<Longrightarrow> closes {vid} obs db db'"
  by (auto simp: close_version_def and_then_Inr close_rows_Inr closes_def ended_versions_def
      ended_identities_def ended_memberships_def)

lemma closes_trans:
  assumes "closes us obs db db1" and "closes vs obs db1 db2"
  shows "closes (us \<union> vs) obs db db2"
proof -
  have db1: "db1 = db\<lparr>t_versions := ended_versions us obs (t_versions db),
      t_identities := ended_identities us obs (t_identities db),
      t_memberships := ended_memberships us obs (t_memberships db)\<rparr>"
    using assms(1) by (simp add: closes_def)
  have "vr_from r < obs" if "r \<in> set (t_versions db)" "vr_id r \<in> us \<union> vs" "vr_to r = None" for r
  proof (cases "vr_id r \<in> us")
    case True
    with assms(1) that show ?thesis by (auto simp: closes_def)
  next
    case False
    then have "r \<in> set (t_versions db1)" using that by (force simp: db1 ended_versions_def)
    with assms(2) that False show ?thesis by (auto simp: closes_def)
  qed
  moreover have "idr_from r < obs" if "r \<in> set (t_identities db)" "idr_version r \<in> us \<union> vs" "idr_to r = None" for r
  proof (cases "idr_version r \<in> us")
    case True
    with assms(1) that show ?thesis by (auto simp: closes_def)
  next
    case False
    then have "r \<in> set (t_identities db1)" using that by (force simp: db1 ended_identities_def)
    with assms(2) that False show ?thesis by (auto simp: closes_def)
  qed
  moreover have "gm_from r < obs" if "r \<in> set (t_memberships db)" "gm_version r \<in> us \<union> vs" "gm_to r = None" for r
  proof (cases "gm_version r \<in> us")
    case True
    with assms(1) that show ?thesis by (auto simp: closes_def)
  next
    case False
    then have "r \<in> set (t_memberships db1)" using that by (force simp: db1 ended_memberships_def)
    with assms(2) that False show ?thesis by (auto simp: closes_def)
  qed
  moreover have "db2 = db\<lparr>t_versions := ended_versions (us \<union> vs) obs (t_versions db),
      t_identities := ended_identities (us \<union> vs) obs (t_identities db),
      t_memberships := ended_memberships (us \<union> vs) obs (t_memberships db)\<rparr>"
    using assms(2) by (simp add: closes_def db1 ended_ended)
  ultimately show ?thesis unfolding closes_def by blast
qed

lemma closes_none [simp]: "closes {} obs db db"
  by (simp add: closes_def)

definition changed_ids :: "string list \<Rightarrow> version_row list \<Rightarrow> int list" where
  "changed_ids same rows = map vr_id (filter (\<lambda>r. ci_symbol (vr_instrument r) \<notin> set same) rows)"

lemma close_changed_closes:
  "close_changed same obs rows db = Inr (n, ms, db') \<Longrightarrow>
     closes (set (changed_ids same rows)) obs db db' \<and> n = length (changed_ids same rows)"
proof (induction rows arbitrary: db n ms)
  case Nil
  then show ?case by (simp add: changed_ids_def)
next
  case (Cons r rows)
  show ?case
  proof (cases "ci_symbol (vr_instrument r) \<in> set same")
    case True
    with Cons show ?thesis by (simp add: changed_ids_def)
  next
    case False
    then obtain m db1 n1 ms1 where c: "close_version (vr_id r) obs db = Inr (m, db1)"
      and rest: "close_changed same obs rows db1 = Inr (n1, ms1, db')" and "n = n1 + 1"
      using Cons.prems by (auto simp: and_then_Inr split: prod.splits)
    note ih = Cons.IH[OF rest]
    have "closes ({vr_id r} \<union> set (changed_ids same rows)) obs db db'"
      by (rule closes_trans[OF close_version_closes[OF c]]) (use ih in blast)
    with False ih \<open>n = n1 + 1\<close> show ?thesis by (simp add: changed_ids_def)
  qed
qed

definition listing :: "version_row \<Rightarrow> venue \<times> string" where
  "listing r = (ci_venue (vr_instrument r), ci_symbol (vr_instrument r))"

definition same_listing :: "version_row \<Rightarrow> instrument \<Rightarrow> bool" where
  "same_listing r i \<longleftrightarrow> ci_venue (vr_instrument r) = ci_venue i \<and> ci_symbol (vr_instrument r) = ci_symbol i"

lemma insert_version_Inr:
  assumes "insert_version sha run pid obs i db = Inr (vid, db')"
  obtains row where "vr_instrument row = i" "vr_from row = obs" "vr_to row = None" "vr_id row = vid"
    "definition_sha256 sha i = Inr (vr_hash row)" "vid = seq_version db"
    "db' = db\<lparr>t_versions := t_versions db @ [row], seq_version := seq_version db + 1\<rparr>"
    "\<And>r. r \<in> set (t_versions db) \<Longrightarrow> same_listing r i \<Longrightarrow> vr_from r \<noteq> obs \<and> vr_to r \<noteq> None"
  using assms that[of "\<lparr>vr_id = seq_version db, vr_instrument = i,
      vr_hash = (case definition_sha256 sha i of Inr h \<Rightarrow> h | _ \<Rightarrow> []), vr_from = obs, vr_to = None,
      vr_payload_id = pid, vr_run = run\<rparr>"]
  by (auto simp: insert_version_def and_then_Inr list_ex_iff same_listing_def split: if_splits)

definition kept :: "(string \<Rightarrow> version_row option) \<Rightarrow> string list \<Rightarrow> instrument \<Rightarrow> bool" where
  "kept current same i \<longleftrightarrow> current (ci_symbol i) \<noteq> None \<and> ci_symbol i \<in> set same"

definition version_of :: "(string \<Rightarrow> version_row option) \<Rightarrow> string list \<Rightarrow> version_row list \<Rightarrow> instrument \<Rightarrow> int \<Rightarrow> bool" where
  "version_of current same new i vid =
     (if kept current same i then (\<exists>r. current (ci_symbol i) = Some r \<and> vid = vr_id r)
      else (\<exists>r\<in>set new. vr_instrument r = i \<and> vr_id r = vid))"

text \<open>The rows that \<open>open_versions\<close> appends.\<close>

definition opened :: "(json \<Rightarrow> string) \<Rightarrow> int \<Rightarrow> catalog_db \<Rightarrow> version_row list \<Rightarrow> catalog_db \<Rightarrow> bool" where
  "opened sha obs db new db' \<longleftrightarrow>
     db' = db\<lparr>t_versions := t_versions db @ new, seq_version := seq_version db + int (length new)\<rparr>
     \<and> map vr_id new = map (\<lambda>k. seq_version db + int k) [0..<length new]
     \<and> (\<forall>r\<in>set new. vr_from r = obs \<and> vr_to r = None \<and> definition_sha256 sha (vr_instrument r) = Inr (vr_hash r)
          \<and> (\<forall>q\<in>set (t_versions db). same_listing q (vr_instrument r) \<longrightarrow> vr_from q \<noteq> obs \<and> vr_to q \<noteq> None))
     \<and> distinct (map listing new)"

lemma opened_none: "opened sha obs db [] db"
  by (simp add: opened_def)

lemma opened_Cons:
  assumes row: "vr_from row = obs" "vr_to row = None" "vr_id row = seq_version db"
    "definition_sha256 sha (vr_instrument row) = Inr (vr_hash row)"
    and free: "\<And>r. r \<in> set (t_versions db) \<Longrightarrow> same_listing r (vr_instrument row) \<Longrightarrow> vr_from r \<noteq> obs \<and> vr_to r \<noteq> None"
    and db1: "db1 = db\<lparr>t_versions := t_versions db @ [row], seq_version := seq_version db + 1\<rparr>"
    and rest: "opened sha obs db1 new db'"
  shows "opened sha obs db (row # new) db'"
proof -
  have ids: "map vr_id (row # new) = map (\<lambda>k. seq_version db + int k) [0..<length (row # new)]"
  proof -
    have "map vr_id new = map (\<lambda>k. seq_version db + int (Suc k)) [0..<length new]"
      using rest by (simp add: opened_def db1 add.assoc)
    also have "\<dots> = map (\<lambda>k. seq_version db + int k) (map Suc [0..<length new])" by simp
    also have "map Suc [0..<length new] = [1..<Suc (length new)]" by (simp add: map_Suc_upt)
    finally show ?thesis using row(3) by (simp add: upt_conv_Cons del: upt_Suc)
  qed
  have other: "\<not> same_listing row (vr_instrument r)" if "r \<in> set new" for r
    using rest that row(1) by (auto simp: opened_def db1)
  have "listing row \<notin> listing ` set new"
    using other by (fastforce simp: same_listing_def listing_def)
  then show ?thesis using rest ids row free unfolding opened_def db1 by auto
qed

lemma open_versions_opened:
  assumes "open_versions sha run pid obs current same insts db = Inr (vids, c, u, db')"
  shows "\<exists>new. opened sha obs db new db' \<and> map vr_instrument new = filter (\<lambda>i. \<not> kept current same i) insts
     \<and> list_all2 (version_of current same new) insts vids \<and> c = length new \<and> c + u = length insts"
  using assms
proof (induction insts arbitrary: db vids c u)
  case Nil
  then show ?case using opened_none by auto
next
  case (Cons i insts)
  show ?case
  proof (cases "kept current same i")
    case True
    then obtain r where r: "current (ci_symbol i) = Some r" "ci_symbol i \<in> set same" by (auto simp: kept_def)
    with Cons.prems obtain vids1 u1 where rest: "open_versions sha run pid obs current same insts db = Inr (vids1, c, u1, db')"
      and v: "vids = vr_id r # vids1" "u = u1 + 1"
      by (auto simp: and_then_Inr split: prod.splits)
    from Cons.IH[OF rest] True r v show ?thesis by (auto simp: version_of_def)
  next
    case False
    with Cons.prems obtain vid db1 vids1 c1 where ins: "insert_version sha run pid obs i db = Inr (vid, db1)"
      and rest: "open_versions sha run pid obs current same insts db1 = Inr (vids1, c1, u, db')"
      and v: "vids = vid # vids1" "c = c1 + 1"
      by (cases "current (ci_symbol i)") (auto simp: and_then_Inr kept_def split: prod.splits if_splits bool.splits)
    obtain row where row: "vr_instrument row = i" "vr_from row = obs" "vr_to row = None" "vr_id row = vid"
      "definition_sha256 sha i = Inr (vr_hash row)" "vid = seq_version db"
      "db1 = db\<lparr>t_versions := t_versions db @ [row], seq_version := seq_version db + 1\<rparr>"
      "\<And>r. r \<in> set (t_versions db) \<Longrightarrow> same_listing r i \<Longrightarrow> vr_from r \<noteq> obs \<and> vr_to r \<noteq> None"
      using insert_version_Inr[OF ins] by blast
    from Cons.IH[OF rest] obtain new where new: "opened sha obs db1 new db'"
      "map vr_instrument new = filter (\<lambda>i. \<not> kept current same i) insts"
      "list_all2 (version_of current same new) insts vids1" "c1 = length new" "c1 + u = length insts" by blast
    have "opened sha obs db (row # new) db'"
      by (rule opened_Cons[OF row(2,3) _ _ _ row(7) new(1)]) (use row in auto)
    moreover have "list_all2 (version_of current same (row # new)) insts vids1"
      by (rule list_all2_mono[OF new(3)]) (auto simp: version_of_def split: if_splits)
    moreover have "version_of current same (row # new) i vid"
      using False row by (auto simp: version_of_def)
    ultimately show ?thesis using False row new v by (intro exI[of _ "row # new"]) auto
  qed
qed

section \<open>The version history\<close>

definition open_rows :: "version_row list \<Rightarrow> version_row list" where
  "open_rows = filter (\<lambda>r. vr_to r = None)"

definition versions_inv :: "catalog_db \<Rightarrow> bool" where
  "versions_inv db \<longleftrightarrow>
     distinct (map vr_id (t_versions db)) \<and> list_all (\<lambda>r. vr_id r < seq_version db) (t_versions db)
     \<and> list_all (\<lambda>r. case vr_to r of None \<Rightarrow> True | Some t \<Rightarrow> vr_from r < t) (t_versions db)
     \<and> distinct (map listing (open_rows (t_versions db)))"

lemma ended_versions_ids [simp]: "map vr_id (ended_versions C obs rs) = map vr_id rs"
  by (simp add: ended_versions_def comp_def if_distrib cong: if_cong)

lemma open_rows_ended: "open_rows (ended_versions C obs rs) = filter (\<lambda>r. vr_id r \<notin> C) (open_rows rs)"
  by (induction rs) (auto simp: open_rows_def ended_versions_def)

lemma open_rows_append [simp]: "open_rows (xs @ ys) = open_rows xs @ open_rows ys"
  by (simp add: open_rows_def)

lemma versions_inv_closes:
  assumes "versions_inv db" and "closes C obs db db'"
  shows "versions_inv db'"
proof -
  have t: "t_versions db' = ended_versions C obs (t_versions db)" and q: "seq_version db' = seq_version db"
    using assms(2) by (auto simp: closes_def)
  have "list_all (\<lambda>r. vr_id r < seq_version db) (ended_versions C obs (t_versions db))"
    using assms(1) by (auto simp: versions_inv_def ended_versions_def list_all_iff)
  moreover have "list_all (\<lambda>r. case vr_to r of None \<Rightarrow> True | Some t \<Rightarrow> vr_from r < t) (ended_versions C obs (t_versions db))"
    using assms by (auto simp: versions_inv_def closes_def ended_versions_def list_all_iff)
  moreover have "distinct (map listing (open_rows (ended_versions C obs (t_versions db))))"
    using assms(1) unfolding open_rows_ended by (simp add: versions_inv_def distinct_map_filter)
  ultimately show ?thesis using assms(1) unfolding versions_inv_def t q by simp
qed

lemma opened_open_rows: "opened sha obs db new db' \<Longrightarrow> open_rows new = new"
  by (auto simp: opened_def open_rows_def)

lemma versions_inv_opened:
  assumes inv: "versions_inv db" and op: "opened sha obs db new db'"
  shows "versions_inv db'"
proof -
  have t: "t_versions db' = t_versions db @ new" and q: "seq_version db' = seq_version db + int (length new)"
    using op by (auto simp: opened_def)
  have ids: "map vr_id new = map (\<lambda>k. seq_version db + int k) [0..<length new]" using op by (simp add: opened_def)
  have new_ids: "seq_version db \<le> x \<and> x < seq_version db + int (length new)" if "x \<in> vr_id ` set new" for x
  proof -
    have "x \<in> set (map vr_id new)" using that by simp
    then show ?thesis unfolding ids by auto
  qed
  have old_ids: "vr_id r < seq_version db" if "r \<in> set (t_versions db)" for r
    using inv that by (auto simp: versions_inv_def list_all_iff)
  have "distinct (map vr_id new)" unfolding ids by (simp add: distinct_map inj_on_def)
  then have d: "distinct (map vr_id (t_versions db @ new))"
    using inv new_ids old_ids by (fastforce simp: versions_inv_def)
  have bound: "list_all (\<lambda>r. vr_id r < seq_version db + int (length new)) (t_versions db @ new)"
    using new_ids old_ids by (force simp: list_all_iff)
  have proper: "list_all (\<lambda>r. case vr_to r of None \<Rightarrow> True | Some t \<Rightarrow> vr_from r < t) (t_versions db @ new)"
    using inv op by (auto simp: versions_inv_def opened_def list_all_iff)
  have "listing r \<noteq> listing q" if "r \<in> set new" "q \<in> set (open_rows (t_versions db))" for r q
  proof -
    have "\<forall>q\<in>set (t_versions db). same_listing q (vr_instrument r) \<longrightarrow> vr_from q \<noteq> obs \<and> vr_to q \<noteq> None"
      using op that(1) by (simp add: opened_def)
    with that(2) show ?thesis by (fastforce simp: open_rows_def same_listing_def listing_def)
  qed
  then have "listing ` set (open_rows (t_versions db)) \<inter> listing ` set new = {}" by fastforce
  then have "distinct (map listing (open_rows (t_versions db) @ new))"
    using inv op by (simp add: versions_inv_def opened_def)
  then show ?thesis using d bound proper unfolding versions_inv_def t q by (simp add: opened_open_rows[OF op])
qed

lemma versions_inv_core: "same_core db db' \<Longrightarrow> versions_inv db \<Longrightarrow> versions_inv db'"
  by (simp add: same_core_def versions_inv_def)

definition same_versions :: "catalog_db \<Rightarrow> catalog_db \<Rightarrow> bool" where
  "same_versions db db' \<longleftrightarrow> t_versions db' = t_versions db \<and> seq_version db' = seq_version db"

lemma ensure_group_keeps:
  "ensure_group g i obs db = Inr db' \<Longrightarrow> same_core db db'"
  by (auto simp: ensure_group_def same_core_def Let_def split: list.splits if_splits)

lemma sync_identity_versions: "sync_identity vid res obs ex db = Inr (n, db') \<Longrightarrow> same_versions db db'"
  by (auto simp: sync_identity_def end_identity_def add_identity_def same_versions_def and_then_Inr
      split: option.splits if_splits)

lemma sync_membership_versions: "sync_membership vid res obs ex db = Inr (n, m, db') \<Longrightarrow> same_versions db db'"
  by (auto simp: sync_membership_def end_membership_def add_membership_def same_versions_def and_then_Inr Let_def
      split: option.splits if_splits prod.splits)

lemma sync_identities_versions:
  "sync_identities rs obs ids mems ps db = Inr (a, b, c, db') \<Longrightarrow> same_versions db db'"
proof (induction ps arbitrary: db a b c)
  case Nil
  then show ?case by (simp add: same_versions_def)
next
  case (Cons p ps)
  obtain i vid where p: "p = (i, vid)" by (cases p)
  obtain res where res: "map_of (map (\<lambda>r. (ir_id r, r)) rs) (instrument_id i) = Some res"
    using Cons.prems p by (auto simp: raise_exn_def split: option.splits)
  obtain db1 where g: "(case ir_group res of None \<Rightarrow> Inr db | Some g \<Rightarrow> ensure_group g i obs db) = Inr db1"
    and "and_then (sync_identity vid res obs (ids vid) db1) (\<lambda>(created, db2).
              and_then (sync_membership vid res obs (mems vid) db2) (\<lambda>(opened, closed, db3).
                and_then (sync_identities rs obs ids mems ps db3) (\<lambda>(cr, op, cl, db4).
                  Inr (created + cr, opened + op, closed + cl, db4)))) = Inr (a, b, c, db')"
    using Cons.prems p res by (auto simp: and_then_Inr)
  then obtain n db2 m k db3 a' b' c' where "sync_identity vid res obs (ids vid) db1 = Inr (n, db2)"
    "sync_membership vid res obs (mems vid) db2 = Inr (m, k, db3)"
    "sync_identities rs obs ids mems ps db3 = Inr (a', b', c', db')"
    by (auto simp: and_then_Inr split: prod.splits)
  moreover have "same_versions db db1"
    using g ensure_group_keeps by (auto simp: same_versions_def same_core_def split: option.splits)
  ultimately show ?case
    using Cons.IH sync_identity_versions sync_membership_versions by (fastforce simp: same_versions_def)
qed

text \<open>The intermediate databases of a successful transaction.\<close>

lemma persist_catalogE:
  assumes "persist_catalog sha load ok run batch rs db = (Inr res, db')"
  obtains db2 same db3 new vids db4 db5 a b c where
    "validate_input sha batch rs = Inr ()" "same_core db db2"
    "unchanged_symbols sha load db2 (cb_instruments batch) = Inr same"
    "closes (set (changed_ids same (current_rows (pv_venue (cb_provenance batch)) db2)))
       (instant (pv_observed_at (cb_provenance batch))) db2 db3"
    "opened sha (instant (pv_observed_at (cb_provenance batch))) db3 new db4"
    "map vr_instrument new = filter (\<lambda>i. \<not> kept (current_row_of (pv_venue (cb_provenance batch)) db2) same i)
       (cb_instruments batch)"
    "list_all2 (version_of (current_row_of (pv_venue (cb_provenance batch)) db2) same new) (cb_instruments batch) vids"
    "same_core db4 db5"
    "sync_identities rs (instant (pv_observed_at (cb_provenance batch))) (open_identity db5) (open_membership db5)
       (zip (cb_instruments batch) vids) db5 = Inr (a, b, c, db')"
    "res_closed res = length (changed_ids same (current_rows (pv_venue (cb_provenance batch)) db2))"
    "res_created res = length new" "res_created res + res_unchanged res = length (cb_instruments batch)"
proof -
  let ?v = "pv_venue (cb_provenance batch)" and ?obs = "instant (pv_observed_at (cb_provenance batch))"
  obtain u where valid: "validate_input sha batch rs = Inr u" and "ok"
    and body: "persist_body sha load run batch rs db = Inr (res, db')"
    using assms by (auto simp: persist_catalog_def and_then_def split: sum.splits if_splits)
  obtain pid ins db1 where p1: "persist_raw_payload run batch ?obs db = Inr (pid, ins, db1)"
    and body1: "(let (excluded, db2) = persist_exclusions batch pid db1;
             rows = current_rows ?v db2; current = current_row_of ?v db2 in
         and_then (unchanged_symbols sha load db2 (cb_instruments batch)) (\<lambda>same.
           and_then (close_changed same ?obs rows db2) (\<lambda>(closed, mclosed, db3).
             and_then (open_versions sha run pid ?obs current same (cb_instruments batch) db3) (\<lambda>(vids, created, kept, db4).
               and_then (upsert_capabilities run batch ?obs db4) (\<lambda>(caps, db5).
                 and_then (sync_identities rs ?obs (open_identity db5) (open_membership db5)
                             (zip (cb_instruments batch) vids) db5) (\<lambda>(ids, opened, mclosed2, db6).
                   Inr (\<lparr>res_payload_id = pid, res_payload_inserted = ins, res_exclusions = excluded,
                          res_created = created, res_unchanged = kept, res_closed = closed,
                          res_capabilities = caps, res_identities = ids, res_opened = opened,
                          res_memberships_closed = mclosed + mclosed2\<rparr>, db6))))))) = Inr (res, db')"
    using body unfolding persist_body_def Let_def by (auto simp: and_then_Inr)
  define db2 where "db2 = snd (persist_exclusions batch pid db1)"
  have core: "same_core db db2"
    unfolding db2_def by (rule same_core_trans[OF persist_raw_payload_core[OF p1] persist_exclusions_core])
  obtain same closed mclosed db3 vids created kep db4 caps db5 a b c where
      same: "unchanged_symbols sha load db2 (cb_instruments batch) = Inr same"
    and cl: "close_changed same ?obs (current_rows ?v db2) db2 = Inr (closed, mclosed, db3)"
    and op: "open_versions sha run pid ?obs (current_row_of ?v db2) same (cb_instruments batch) db3 = Inr (vids, created, kep, db4)"
    and cap: "upsert_capabilities run batch ?obs db4 = Inr (caps, db5)"
    and sync: "sync_identities rs ?obs (open_identity db5) (open_membership db5)
        (zip (cb_instruments batch) vids) db5 = Inr (a, b, c, db')"
    and counts: "res_closed res = closed" "res_created res = created" "res_unchanged res = kep"
    using body1 by (auto simp: and_then_Inr db2_def split: prod.splits)
  obtain new where new: "opened sha ?obs db3 new db4"
    "map vr_instrument new = filter (\<lambda>i. \<not> kept (current_row_of ?v db2) same i) (cb_instruments batch)"
    "list_all2 (version_of (current_row_of ?v db2) same new) (cb_instruments batch) vids"
    "created = length new" "created + kep = length (cb_instruments batch)"
    using open_versions_opened[OF op] by blast
  show thesis
    by (rule that[OF _ core same _ new(1-3) upsert_capabilities_core[OF cap] sync])
       (use valid close_changed_closes[OF cl] counts new in auto)
qed

lemma persist_error_keeps: "persist_catalog sha load ok run batch rs db = (Inl e, db') \<Longrightarrow> db' = db"
  by (auto simp: persist_catalog_def split: sum.splits prod.splits)

lemma persist_versions_inv:
  assumes "versions_inv db" and "persist_catalog sha load ok run batch rs db = (Inr res, db')"
  shows "versions_inv db'"
  using assms(2)
proof (rule persist_catalogE)
  fix db2 same db3 new vids db4 db5 a b c
  assume "same_core db db2" and "same_core db4 db5"
    and "closes (set (changed_ids same (current_rows (pv_venue (cb_provenance batch)) db2)))
       (instant (pv_observed_at (cb_provenance batch))) db2 db3"
    and "opened sha (instant (pv_observed_at (cb_provenance batch))) db3 new db4"
    and "sync_identities rs (instant (pv_observed_at (cb_provenance batch))) (open_identity db5) (open_membership db5)
       (zip (cb_instruments batch) vids) db5 = Inr (a, b, c, db')"
  then have "versions_inv db5"
    using assms(1) by (meson versions_inv_closes versions_inv_core versions_inv_opened)
  moreover have "same_versions db5 db'"
    by (rule sync_identities_versions) fact
  ultimately show ?thesis by (simp add: versions_inv_def same_versions_def)
qed

lemma unchanged_symbols_set:
  "unchanged_symbols sha load db insts = Inr same \<Longrightarrow>
     set same = ci_symbol ` {i \<in> set insts. unchanged sha load db i = Inr True}"
  by (induction insts arbitrary: same) (auto simp: and_then_Inr split: if_splits)

lemma current_rows_open: "current_rows v db = filter (\<lambda>r. ci_venue (vr_instrument r) = v) (open_rows (t_versions db))"
  by (auto simp: current_rows_def open_rows_def intro: filter_cong)

lemma current_rows_symbols_distinct:
  assumes "distinct (map listing (open_rows (t_versions db)))"
  shows "distinct (map (\<lambda>r. ci_symbol (vr_instrument r)) (current_rows v db))"
proof -
  have "distinct (map listing (current_rows v db))"
    using assms unfolding current_rows_open by (rule distinct_map_filter)
  moreover have "map snd (map listing (current_rows v db)) = map (\<lambda>r. ci_symbol (vr_instrument r)) (current_rows v db)"
    by (simp add: listing_def)
  moreover have "inj_on snd (set (map listing (current_rows v db)))"
    by (auto simp: inj_on_def listing_def current_rows_def)
  ultimately show ?thesis by (metis distinct_map)
qed

lemma current_row_of_iff:
  assumes "distinct (map listing (open_rows (t_versions db)))"
  shows "current_row_of v db s = Some r \<longleftrightarrow> r \<in> set (current_rows v db) \<and> ci_symbol (vr_instrument r) = s"
proof -
  have "distinct (map fst (rev (map (\<lambda>r. (ci_symbol (vr_instrument r), r)) (current_rows v db))))"
    using current_rows_symbols_distinct[OF assms, of v] by (simp add: comp_def flip: rev_map)
  then show ?thesis by (auto simp: current_row_of_def map_of_eq_Some_iff simp del: distinct_rev)
qed

lemma index_instruments_ok:
  "index_instruments v insts seen = Inr () \<Longrightarrow>
     (\<forall>i\<in>set insts. ci_venue i = v) \<and> distinct (map ci_symbol insts) \<and> set (map ci_symbol insts) \<inter> set seen = {}"
  by (induction insts arbitrary: seen) (fastforce simp: raise_exn_def split: if_splits)+

lemma index_identities_ok:
  "index_identities rs seen = Inr () \<Longrightarrow>
     distinct (map ir_id rs) \<and> set (map ir_id rs) \<inter> set seen = {}
     \<and> (\<forall>r\<in>set rs. ir_group r = None \<longleftrightarrow> ir_method r = None)"
  by (induction rs arbitrary: seen) (fastforce simp: raise_exn_def split: if_splits option.splits)+

lemma validate_inputD:
  assumes "validate_input sha batch rs = Inr u"
  shows "is_aware (pv_observed_at (cb_provenance batch))"
    "\<And>i. i \<in> set (cb_instruments batch) \<Longrightarrow> ci_venue i = pv_venue (cb_provenance batch)"
    "distinct (map ci_symbol (cb_instruments batch))" "cb_instruments batch \<noteq> []"
    "distinct (map ir_id rs)" "set (map ir_id rs) = set (map instrument_id (cb_instruments batch))"
    "\<And>r. r \<in> set rs \<Longrightarrow> ir_group r = None \<longleftrightarrow> ir_method r = None"
  using assms index_instruments_ok[of "pv_venue (cb_provenance batch)" "cb_instruments batch" "[]"]
    index_identities_ok[of rs "[]"]
  by (auto simp: validate_input_def and_then_Inr raise_exn_def Let_def split: if_splits option.splits)

lemma changed_ids_iff:
  assumes "distinct (map vr_id (t_versions db))" and "r \<in> set (t_versions db)" and "vr_to r = None"
  shows "vr_id r \<in> set (changed_ids same (current_rows v db)) \<longleftrightarrow>
    ci_venue (vr_instrument r) = v \<and> ci_symbol (vr_instrument r) \<notin> set same"
proof -
  have "q = r" if "q \<in> set (t_versions db)" "vr_id q = vr_id r" for q
    using assms(1,2) that by (metis distinct_map inj_onD)
  then show ?thesis using assms by (force simp: changed_ids_def current_rows_def)
qed

section \<open>Identities and memberships\<close>

type_synonym identity_state = "string option \<times> mapping_method option \<times> unmapped_reason option"

definition resolution_state :: "identity_resolution \<Rightarrow> identity_state" where
  "resolution_state res = (ir_group res, ir_method res, ir_reason res)"

definition id_state :: "catalog_db \<Rightarrow> int \<Rightarrow> identity_state option" where
  "id_state db vid = map_option (\<lambda>r. (idr_group r, idr_method r, idr_reason r)) (open_identity db vid)"

definition mem_state :: "catalog_db \<Rightarrow> int \<Rightarrow> (string \<times> mapping_method option) option" where
  "mem_state db vid = map_option (\<lambda>m. (gm_group m, gm_method m)) (open_membership db vid)"

fun membership_of :: "identity_state option \<Rightarrow> (string \<times> mapping_method option) option" where
  "membership_of None = None"
| "membership_of (Some (g, m, r)) = map_option (\<lambda>x. (x, m)) g"

definition ids_ok :: "catalog_db \<Rightarrow> bool" where
  "ids_ok db \<longleftrightarrow>
     distinct (map idr_id (t_identities db)) \<and> list_all (\<lambda>r. idr_id r < seq_identity db) (t_identities db)
     \<and> distinct (map gm_id (t_memberships db)) \<and> list_all (\<lambda>m. gm_id m < seq_membership db) (t_memberships db)
     \<and> distinct (map gm_version (filter (\<lambda>m. gm_to m = None) (t_memberships db)))"

lemma open_after_ending:
  "filter (\<lambda>m. gm_to m = None) (map (\<lambda>m. if P m then m\<lparr>gm_to := Some t\<rparr> else m) ms)
   = filter (\<lambda>m. \<not> P m) (filter (\<lambda>m. gm_to m = None) ms)"
  by (induction ms) auto

text \<open>The last open row of a version in a table, generically in the table.\<close>

lemma map_of_rev_map_filter:
  "map_of (rev (map (\<lambda>r. (key r, r)) (filter P rows))) k
   = map_of (rev (map (\<lambda>r. (key r, r)) (filter (\<lambda>r. P r \<and> key r = k) rows))) k"
  by (induction rows) (auto simp: map_add_def split: option.split)

lemma open_identity_cong:
  assumes "filter (\<lambda>r. idr_to r = None \<and> idr_version r = vid) (t_identities db')
         = filter (\<lambda>r. idr_to r = None \<and> idr_version r = vid) (t_identities db)"
  shows "open_identity db' vid = open_identity db vid"
  unfolding open_identity_def by (subst (1 2) map_of_rev_map_filter) (simp add: assms)

lemma open_membership_cong:
  assumes "filter (\<lambda>m. gm_to m = None \<and> gm_version m = vid) (t_memberships db')
         = filter (\<lambda>m. gm_to m = None \<and> gm_version m = vid) (t_memberships db)"
  shows "open_membership db' vid = open_membership db vid"
  unfolding open_membership_def by (subst (1 2) map_of_rev_map_filter) (simp add: assms)

lemma open_identity_mem: "open_identity db vid = Some r \<Longrightarrow> r \<in> set (t_identities db) \<and> idr_version r = vid \<and> idr_to r = None"
  unfolding open_identity_def by (auto dest!: map_of_SomeD)

lemma open_membership_mem: "open_membership db vid = Some m \<Longrightarrow> m \<in> set (t_memberships db) \<and> gm_version m = vid \<and> gm_to m = None"
  unfolding open_membership_def by (auto dest!: map_of_SomeD)

lemma open_identity_none:
  "open_identity db vid = None \<longleftrightarrow> (\<forall>r\<in>set (t_identities db). idr_to r = None \<longrightarrow> idr_version r \<noteq> vid)"
  unfolding open_identity_def by (auto simp: map_of_eq_None_iff image_iff)

lemma open_membership_none:
  "open_membership db vid = None \<longleftrightarrow> (\<forall>m\<in>set (t_memberships db). gm_to m = None \<longrightarrow> gm_version m \<noteq> vid)"
  unfolding open_membership_def by (auto simp: map_of_eq_None_iff image_iff)

lemma core_states:
  assumes "t_identities db' = t_identities db" and "t_memberships db' = t_memberships db"
  shows "open_identity db' = open_identity db" "open_membership db' = open_membership db"
  using assms by (simp_all add: fun_eq_iff open_identity_def open_membership_def)

lemma ended_identities_open:
  "filter (\<lambda>r. idr_to r = None \<and> idr_version r = vid) (ended_identities C obs rows)
   = (if vid \<in> C then [] else filter (\<lambda>r. idr_to r = None \<and> idr_version r = vid) rows)"
  by (induction rows) (auto simp: ended_identities_def)

lemma ended_memberships_open:
  "filter (\<lambda>m. gm_to m = None \<and> gm_version m = vid) (ended_memberships C obs rows)
   = (if vid \<in> C then [] else filter (\<lambda>m. gm_to m = None \<and> gm_version m = vid) rows)"
  by (induction rows) (auto simp: ended_memberships_def)

lemma closes_states:
  assumes "closes C obs db db'"
  shows "id_state db' vid = (if vid \<in> C then None else id_state db vid)"
    and "mem_state db' vid = (if vid \<in> C then None else mem_state db vid)"
proof -
  have t: "t_identities db' = ended_identities C obs (t_identities db)"
    "t_memberships db' = ended_memberships C obs (t_memberships db)"
    using assms by (simp_all add: closes_def)
  show "id_state db' vid = (if vid \<in> C then None else id_state db vid)"
  proof (cases "vid \<in> C")
    case True
    then have "open_identity db' vid = None"
      unfolding open_identity_def by (subst map_of_rev_map_filter) (simp add: t ended_identities_open)
    with True show ?thesis by (simp add: id_state_def)
  next
    case False
    then have "open_identity db' vid = open_identity db vid"
      by (intro open_identity_cong) (simp add: t ended_identities_open)
    with False show ?thesis by (simp add: id_state_def)
  qed
  show "mem_state db' vid = (if vid \<in> C then None else mem_state db vid)"
  proof (cases "vid \<in> C")
    case True
    then have "open_membership db' vid = None"
      unfolding open_membership_def by (subst map_of_rev_map_filter) (simp add: t ended_memberships_open)
    with True show ?thesis by (simp add: mem_state_def)
  next
    case False
    then have "open_membership db' vid = open_membership db vid"
      by (intro open_membership_cong) (simp add: t ended_memberships_open)
    with False show ?thesis by (simp add: mem_state_def)
  qed
qed

lemma closes_ids_ok: "ids_ok db \<Longrightarrow> closes C obs db db' \<Longrightarrow> ids_ok db'"
  by (auto simp: ids_ok_def closes_def ended_identities_def ended_memberships_def open_after_ending comp_def
      list_all_iff if_distrib[of idr_id] if_distrib[of gm_id] cong: if_cong intro!: distinct_map_filter_conj)

subsection \<open>One identity, one membership\<close>

lemma end_identity_other:
  assumes "ids_ok db" and "r \<in> set (t_identities db)" and "end_identity (idr_id r) obs db = Inr db1" and "vid \<noteq> idr_version r"
  shows "open_identity db1 vid = open_identity db vid"
proof (rule open_identity_cong)
  have "q = r" if "q \<in> set (t_identities db)" "idr_id q = idr_id r" for q
    using assms(1,2) that by (metis distinct_map ids_ok_def inj_onD)
  then have "filter (\<lambda>q. idr_to q = None \<and> idr_version q = vid)
        (map (\<lambda>q. if idr_id q = idr_id r then q\<lparr>idr_to := Some obs\<rparr> else q) rows)
      = filter (\<lambda>q. idr_to q = None \<and> idr_version q = vid) rows" if "set rows \<subseteq> set (t_identities db)" for rows
    using that assms(4) by (induction rows) auto
  then show "filter (\<lambda>r. idr_to r = None \<and> idr_version r = vid) (t_identities db1)
         = filter (\<lambda>r. idr_to r = None \<and> idr_version r = vid) (t_identities db)"
    using assms(3) by (auto simp: end_identity_def and_then_Inr close_rows_Inr)
qed

lemma end_membership_other:
  assumes "ids_ok db" and "m \<in> set (t_memberships db)" and "end_membership (gm_id m) obs db = Inr db1" and "vid \<noteq> gm_version m"
  shows "open_membership db1 vid = open_membership db vid"
proof (rule open_membership_cong)
  have "q = m" if "q \<in> set (t_memberships db)" "gm_id q = gm_id m" for q
    using assms(1,2) that by (metis distinct_map ids_ok_def inj_onD)
  then have "filter (\<lambda>q. gm_to q = None \<and> gm_version q = vid)
        (map (\<lambda>q. if gm_id q = gm_id m then q\<lparr>gm_to := Some obs\<rparr> else q) rows)
      = filter (\<lambda>q. gm_to q = None \<and> gm_version q = vid) rows" if "set rows \<subseteq> set (t_memberships db)" for rows
    using that assms(4) by (induction rows) auto
  then show "filter (\<lambda>m. gm_to m = None \<and> gm_version m = vid) (t_memberships db1)
         = filter (\<lambda>m. gm_to m = None \<and> gm_version m = vid) (t_memberships db)"
    using assms(3) by (auto simp: end_membership_def and_then_Inr close_rows_Inr)
qed

lemma end_identity_ids_ok: "ids_ok db \<Longrightarrow> end_identity rid obs db = Inr db1 \<Longrightarrow> ids_ok db1"
  by (auto simp: end_identity_def and_then_Inr close_rows_Inr ids_ok_def list_all_iff comp_def
      if_distrib[of idr_id] cong: if_cong)

lemma end_membership_ids_ok: "ids_ok db \<Longrightarrow> end_membership mid obs db = Inr db1 \<Longrightarrow> ids_ok db1"
  by (auto simp: end_membership_def and_then_Inr close_rows_Inr ids_ok_def list_all_iff comp_def open_after_ending
      if_distrib[of gm_id] cong: if_cong intro!: distinct_map_filter_conj)

lemma add_identity_states:
  assumes "ids_ok db" and "add_identity vid res obs db = Inr db'"
  shows "ids_ok db'" "id_state db' w = (if w = vid then Some (resolution_state res) else id_state db w)"
    "open_membership db' = open_membership db"
    "w \<noteq> vid \<Longrightarrow> open_identity db' w = open_identity db w"
proof -
  have "seq_identity db \<notin> idr_id ` set (t_identities db)"
    "list_all (\<lambda>r. idr_id r < seq_identity db + 1) (t_identities db)"
    using assms(1) by (force simp: ids_ok_def list_all_iff)+
  then show "ids_ok db'" using assms by (auto simp: add_identity_def ids_ok_def split: if_splits)
  show "id_state db' w = (if w = vid then Some (resolution_state res) else id_state db w)"
    "open_membership db' = open_membership db" "w \<noteq> vid \<Longrightarrow> open_identity db' w = open_identity db w"
    using assms(2)
    by (auto simp: add_identity_def id_state_def resolution_state_def open_identity_def
        open_membership_def fun_eq_iff split: if_splits)
qed

lemma add_membership_states:
  assumes "ids_ok db" and "add_membership vid g meth obs db = Inr db'"
  shows "ids_ok db'" "mem_state db' w = (if w = vid then Some (g, meth) else mem_state db w)"
    "open_identity db' = open_identity db"
    "w \<noteq> vid \<Longrightarrow> open_membership db' w = open_membership db w"
proof -
  have "seq_membership db \<notin> gm_id ` set (t_memberships db)"
    "list_all (\<lambda>m. gm_id m < seq_membership db + 1) (t_memberships db)"
    using assms(1) by (force simp: ids_ok_def list_all_iff)+
  moreover have "vid \<notin> gm_version ` set (filter (\<lambda>m. gm_to m = None) (t_memberships db))"
    using assms(2) by (auto simp: add_membership_def list_ex_iff split: if_splits)
  ultimately show "ids_ok db'" using assms by (auto simp: add_membership_def ids_ok_def split: if_splits)
  show "mem_state db' w = (if w = vid then Some (g, meth) else mem_state db w)"
    "open_identity db' = open_identity db" "w \<noteq> vid \<Longrightarrow> open_membership db' w = open_membership db w"
    using assms(2)
    by (auto simp: add_membership_def mem_state_def open_identity_def
        open_membership_def fun_eq_iff split: if_splits)
qed

lemma sync_identity_states:
  assumes ok: "ids_ok db" and sync: "sync_identity vid res obs (open_identity db vid) db = Inr (n, db')"
  shows "ids_ok db'" "id_state db' w = (if w = vid then Some (resolution_state res) else id_state db w)"
    "open_membership db' = open_membership db" "w \<noteq> vid \<Longrightarrow> open_identity db' w = open_identity db w"
proof -
  have "ids_ok db' \<and> id_state db' w = (if w = vid then Some (resolution_state res) else id_state db w)
    \<and> open_membership db' = open_membership db \<and> (w \<noteq> vid \<longrightarrow> open_identity db' w = open_identity db w)"
  proof (cases "id_state db vid = Some (resolution_state res)")
    case True
    then have "db' = db" using sync
      by (auto simp: sync_identity_def id_state_def resolution_state_def split: option.splits)
    with True ok show ?thesis by auto
  next
    case False
    then have differs: "\<not> (case open_identity db vid of None \<Rightarrow> False
        | Some r \<Rightarrow> (idr_group r, idr_method r, idr_reason r) = (ir_group res, ir_method res, ir_reason res))"
      by (auto simp: id_state_def resolution_state_def split: option.splits)
    obtain db1 where ended: "(case open_identity db vid of None \<Rightarrow> Inr db
        | Some r \<Rightarrow> and_then (require_later obs (idr_from r) ''identity resolution'')
                      (\<lambda>_. end_identity (idr_id r) obs db)) = Inr db1"
      and added: "add_identity vid res obs db1 = Inr db'"
      using sync differs by (auto simp: sync_identity_def and_then_Inr)
    have mid: "ids_ok db1" "open_membership db1 = open_membership db"
      "w \<noteq> vid \<Longrightarrow> open_identity db1 w = open_identity db w"
    proof -
      show "ids_ok db1" using ended ok end_identity_ids_ok
        by (auto simp: and_then_Inr split: option.splits)
      show "open_membership db1 = open_membership db" using ended
        by (auto simp: and_then_Inr end_identity_def open_membership_def fun_eq_iff split: option.splits)
      show "open_identity db1 w = open_identity db w" if "w \<noteq> vid"
      proof (cases "open_identity db vid")
        case None
        with ended show ?thesis by simp
      next
        case (Some r)
        with ended have e: "end_identity (idr_id r) obs db = Inr db1" by (auto simp: and_then_Inr)
        show ?thesis
          by (rule end_identity_other[OF ok _ e]) (use open_identity_mem[OF Some] that in auto)
      qed
    qed
    have "id_state db1 w = id_state db w" if "w \<noteq> vid" using mid(3)[OF that] by (simp add: id_state_def)
    with add_identity_states[OF mid(1) added] mid show ?thesis by auto
  qed
  then show "ids_ok db'" "id_state db' w = (if w = vid then Some (resolution_state res) else id_state db w)"
    "open_membership db' = open_membership db" "w \<noteq> vid \<Longrightarrow> open_identity db' w = open_identity db w" by blast+
qed

lemma sync_membership_states:
  assumes ok: "ids_ok db" and sync: "sync_membership vid res obs (open_membership db vid) db = Inr (n, m, db')"
  shows "ids_ok db'" "mem_state db' w = (if w = vid then membership_of (Some (resolution_state res)) else mem_state db w)"
    "open_identity db' = open_identity db" "w \<noteq> vid \<Longrightarrow> open_membership db' w = open_membership db w"
proof -
  let ?want = "membership_of (Some (resolution_state res))"
  have want: "?want = map_option (\<lambda>g. (g, ir_method res)) (ir_group res)" by (simp add: resolution_state_def)
  have "ids_ok db' \<and> mem_state db' w = (if w = vid then ?want else mem_state db w)
    \<and> open_identity db' = open_identity db \<and> (w \<noteq> vid \<longrightarrow> open_membership db' w = open_membership db w)"
  proof (cases "mem_state db vid = ?want")
    case True
    then have "db' = db" using sync by (simp add: sync_membership_def mem_state_def want Let_def)
    with True ok show ?thesis by auto
  next
    case False
    then obtain db1 where ended: "(case open_membership db vid of None \<Rightarrow> Inr (0, db)
        | Some x \<Rightarrow> and_then (require_later obs (gm_from x) ''group membership'')
                      (\<lambda>_. and_then (end_membership (gm_id x) obs db) (\<lambda>d. Inr (1, d)))) = Inr (m, db1)"
      and added: "(case ?want of None \<Rightarrow> Inr (0, m, db1)
         | Some (g, meth) \<Rightarrow> and_then (add_membership vid g meth obs db1) (\<lambda>db2. Inr (1, m, db2))) = Inr (n, m, db')"
      using sync
      by (auto simp: sync_membership_def mem_state_def want Let_def and_then_Inr split: option.splits prod.splits)
    have mid: "ids_ok db1" "open_identity db1 = open_identity db"
      "w \<noteq> vid \<Longrightarrow> open_membership db1 w = open_membership db w"
    proof -
      show "ids_ok db1" using ended ok end_membership_ids_ok
        by (auto simp: and_then_Inr split: option.splits)
      show "open_identity db1 = open_identity db" using ended
        by (auto simp: and_then_Inr end_membership_def open_identity_def fun_eq_iff split: option.splits)
      show "open_membership db1 w = open_membership db w" if "w \<noteq> vid"
      proof (cases "open_membership db vid")
        case None
        with ended show ?thesis by simp
      next
        case (Some x)
        with ended have e: "end_membership (gm_id x) obs db = Inr db1" by (auto simp: and_then_Inr)
        show ?thesis
          by (rule end_membership_other[OF ok _ e]) (use open_membership_mem[OF Some] that in auto)
      qed
    qed
    have keep: "mem_state db1 w = mem_state db w" if "w \<noteq> vid" using mid(3)[OF that] by (simp add: mem_state_def)
    have gone: "mem_state db1 vid = None" if "?want = None"
    proof -
      from that False obtain x where x: "open_membership db vid = Some x" by (auto simp: mem_state_def)
      with ended have e: "end_membership (gm_id x) obs db = Inr db1" by (auto simp: and_then_Inr)
      note xm = open_membership_mem[OF x]
      have unique: "q = x" if "q \<in> set (t_memberships db)" "gm_to q = None" "gm_version q = vid" for q
      proof -
        have "inj_on gm_version (set (filter (\<lambda>m. gm_to m = None) (t_memberships db)))"
          using ok by (auto simp: ids_ok_def distinct_map)
        then show ?thesis by (rule inj_onD) (use that xm in auto)
      qed
      have "open_membership db1 vid = None"
        unfolding open_membership_none using e unique
        by (auto simp: end_membership_def and_then_Inr close_rows_Inr split: if_splits)
      then show ?thesis by (simp add: mem_state_def)
    qed
    show ?thesis
    proof (cases ?want)
      case None
      with added have "db' = db1" by simp
      with None gone keep mid show ?thesis by auto
    next
      case (Some gm)
      then obtain g meth where "?want = Some (g, meth)" "add_membership vid g meth obs db1 = Inr db'"
        using added by (cases gm) (auto simp: and_then_Inr)
      with add_membership_states[OF mid(1) this(2)] mid keep show ?thesis by auto
    qed
  qed
  then show "ids_ok db'" "mem_state db' w = (if w = vid then membership_of (Some (resolution_state res)) else mem_state db w)"
    "open_identity db' = open_identity db" "w \<noteq> vid \<Longrightarrow> open_membership db' w = open_membership db w" by blast+
qed

definition resolution_for :: "identity_resolution list \<Rightarrow> instrument \<Rightarrow> identity_resolution option" where
  "resolution_for rs i = map_of (map (\<lambda>r. (ir_id r, r)) rs) (instrument_id i)"

lemma ensure_group_states:
  assumes "ensure_group g i obs db = Inr db'"
  shows "open_identity db' = open_identity db" "open_membership db' = open_membership db" "ids_ok db' = ids_ok db"
  using ensure_group_keeps[OF assms] core_states[of db' db] by (auto simp: same_core_def ids_ok_def)

lemma sync_identities_states:
  assumes "ids_ok db" and "sync_identities rs obs ids mems ps db = Inr (a, b, c, db')"
    and "distinct (map snd ps)"
    and "\<And>vid. vid \<in> snd ` set ps \<Longrightarrow> ids vid = open_identity db vid \<and> mems vid = open_membership db vid"
  shows "ids_ok db'
     \<and> (\<forall>(i, vid)\<in>set ps. \<exists>res. resolution_for rs i = Some res \<and> id_state db' vid = Some (resolution_state res)
          \<and> mem_state db' vid = membership_of (Some (resolution_state res)))
     \<and> (\<forall>w. w \<notin> snd ` set ps \<longrightarrow> id_state db' w = id_state db w \<and> mem_state db' w = mem_state db w)"
  using assms
proof (induction ps arbitrary: db a b c)
  case Nil
  then show ?case by simp
next
  case (Cons p ps)
  obtain i vid where p: "p = (i, vid)" by (cases p)
  obtain res where res: "resolution_for rs i = Some res"
    using Cons.prems(2) p by (auto simp: raise_exn_def resolution_for_def split: option.splits)
  obtain db1 where g: "(case ir_group res of None \<Rightarrow> Inr db | Some g \<Rightarrow> ensure_group g i obs db) = Inr db1"
    and "and_then (sync_identity vid res obs (ids vid) db1) (\<lambda>(created, db2).
              and_then (sync_membership vid res obs (mems vid) db2) (\<lambda>(opened, closed, db3).
                and_then (sync_identities rs obs ids mems ps db3) (\<lambda>(cr, op, cl, db4).
                  Inr (created + cr, opened + op, closed + cl, db4)))) = Inr (a, b, c, db')"
    using Cons.prems(2) p res by (auto simp: and_then_Inr resolution_for_def)
  then obtain n db2 m k db3 a' b' c' where si: "sync_identity vid res obs (ids vid) db1 = Inr (n, db2)"
    and sm: "sync_membership vid res obs (mems vid) db2 = Inr (m, k, db3)"
    and rest: "sync_identities rs obs ids mems ps db3 = Inr (a', b', c', db')"
    by (auto simp: and_then_Inr split: prod.splits)
  have g1: "open_identity db1 = open_identity db" "open_membership db1 = open_membership db" "ids_ok db1"
    using g Cons.prems(1) ensure_group_states by (auto split: option.splits)
  have idv: "ids vid = open_identity db1 vid" "mems vid = open_membership db1 vid"
    using Cons.prems(4)[of vid] g1 p by auto
  note s2 = sync_identity_states[OF g1(3) si[unfolded idv(1)]]
  have memv: "mems vid = open_membership db2 vid" using idv(2) s2(3) by simp
  note s3 = sync_membership_states[OF s2(1) sm[unfolded memv]]
  have fresh: "vid \<notin> snd ` set ps" and d: "distinct (map snd ps)" using Cons.prems(3) p by auto
  have agree: "ids w = open_identity db3 w \<and> mems w = open_membership db3 w" if "w \<in> snd ` set ps" for w
  proof -
    have "w \<noteq> vid" using that fresh by auto
    moreover have "ids w = open_identity db w \<and> mems w = open_membership db w" using Cons.prems(4)[of w] that by auto
    ultimately show ?thesis using s2(3) s2(4)[of w] s3(3) s3(4)[of w] g1 by simp
  qed
  note ih = Cons.IH[OF s3(1) rest d agree]
  have here: "id_state db3 vid = Some (resolution_state res)" "mem_state db3 vid = membership_of (Some (resolution_state res))"
    using s2(2)[of vid] s3(2)[of vid] s3(3) by (simp_all add: id_state_def)
  have away: "id_state db3 w = id_state db w \<and> mem_state db3 w = mem_state db w" if "w \<noteq> vid" for w
    using that s2(2)[of w] s2(3) s3(2)[of w] s3(3) g1 by (simp add: id_state_def mem_state_def)
  show ?case
  proof (intro conjI)
    show "ids_ok db'" using ih by blast
    show "\<forall>(i, vid)\<in>set (p # ps). \<exists>res. resolution_for rs i = Some res \<and> id_state db' vid = Some (resolution_state res)
          \<and> mem_state db' vid = membership_of (Some (resolution_state res))"
      using ih fresh here res p by auto
    show "\<forall>w. w \<notin> snd ` set (p # ps) \<longrightarrow> id_state db' w = id_state db w \<and> mem_state db' w = mem_state db w"
      using ih away p by auto
  qed
qed

text \<open>
  A consistent catalog: the version table is well formed, exactly the open versions have an open
  identity, and the open membership of a version is the group of its open identity.
\<close>

definition open_ids :: "catalog_db \<Rightarrow> int set" where
  "open_ids db = vr_id ` set (open_rows (t_versions db))"

definition catalog_consistent :: "catalog_db \<Rightarrow> bool" where
  "catalog_consistent db \<longleftrightarrow> versions_inv db \<and> ids_ok db
     \<and> (\<forall>vid. id_state db vid \<noteq> None \<longleftrightarrow> vid \<in> open_ids db)
     \<and> (\<forall>vid. mem_state db vid = membership_of (id_state db vid))"

lemma states_cong:
  assumes "same_core db db'"
  shows "id_state db' = id_state db" "mem_state db' = mem_state db" "ids_ok db' = ids_ok db" "open_ids db' = open_ids db"
  using assms core_states[of db' db]
  by (auto simp: same_core_def id_state_def mem_state_def ids_ok_def open_ids_def fun_eq_iff)

lemma opened_states:
  assumes "opened sha obs db new db'"
  shows "id_state db' = id_state db" "mem_state db' = mem_state db" "ids_ok db' = ids_ok db"
    "open_ids db' = open_ids db \<union> vr_id ` set new"
  using assms core_states[of db' db] opened_open_rows[OF assms]
  by (auto simp: opened_def id_state_def mem_state_def ids_ok_def open_ids_def fun_eq_iff)

lemma closes_open_ids: "closes C obs db db' \<Longrightarrow> open_ids db' = open_ids db - C"
  by (auto simp: closes_def open_ids_def open_rows_ended)

lemma persist_versions_table:
  assumes "persist_catalog sha load ok run batch rs db = (Inr res, db')"
  defines "v \<equiv> pv_venue (cb_provenance batch)" and "obs \<equiv> instant (pv_observed_at (cb_provenance batch))"
  obtains same new vids db5 a b c where
    "unchanged_symbols sha load db (cb_instruments batch) = Inr same"
    "t_versions db' = ended_versions (set (changed_ids same (current_rows v db))) obs (t_versions db) @ new"
    "\<And>r. r \<in> set (t_versions db) \<Longrightarrow> vr_id r \<in> set (changed_ids same (current_rows v db)) \<Longrightarrow> vr_to r = None
        \<Longrightarrow> vr_from r < obs"
    "\<And>r. r \<in> set new \<Longrightarrow> vr_from r = obs \<and> vr_to r = None \<and> definition_sha256 sha (vr_instrument r) = Inr (vr_hash r)"
    "map vr_instrument new = filter (\<lambda>i. \<not> kept (current_row_of v db) same i) (cb_instruments batch)"
    "res_closed res = length (changed_ids same (current_rows v db))" "res_created res = length new"
    "res_created res + res_unchanged res = length (cb_instruments batch)"
    "list_all2 (version_of (current_row_of v db) same new) (cb_instruments batch) vids"
    "sync_identities rs obs (open_identity db5) (open_membership db5) (zip (cb_instruments batch) vids) db5
       = Inr (a, b, c, db')"
    "\<And>vid. id_state db5 vid = (if vid \<in> set (changed_ids same (current_rows v db)) then None else id_state db vid)"
    "\<And>vid. mem_state db5 vid = (if vid \<in> set (changed_ids same (current_rows v db)) then None else mem_state db vid)"
    "ids_ok db \<Longrightarrow> ids_ok db5"
    "open_ids db' = open_ids db - set (changed_ids same (current_rows v db)) \<union> vr_id ` set new"
  using assms(1)
proof (rule persist_catalogE, goal_cases)
  case (1 db2 same db3 new vids db4 db5 a b c)
  have t2: "t_versions db2 = t_versions db" using 1(3) by (simp add: same_core_def)
  have cur: "current_rows w db2 = current_rows w db" "current_row_of w db2 = current_row_of w db" for w
    by (simp_all add: current_rows_def current_row_of_def t2 fun_eq_iff)
  have un: "unchanged_symbols sha load db2 is = unchanged_symbols sha load db is" for "is"
    by (induction "is") (simp_all add: unchanged_def cur)
  have t': "t_versions db' = t_versions db4"
    using sync_identities_versions[OF 1(10)] 1(9) by (simp add: same_versions_def same_core_def)
  let ?C = "set (changed_ids same (current_rows (pv_venue (cb_provenance batch)) db2))"
  note s2 = states_cong[OF 1(3)] and s5 = states_cong[OF 1(9)] and s4 = opened_states[OF 1(6)]
  note s3 = closes_states[OF 1(5)]
  have i5: "id_state db5 vid = (if vid \<in> ?C then None else id_state db vid)"
    "mem_state db5 vid = (if vid \<in> ?C then None else mem_state db vid)" for vid
    using s2 s3[of vid] s4 s5 by simp_all
  have k5: "ids_ok db \<Longrightarrow> ids_ok db5" using s2 s4 s5 closes_ids_ok[OF _ 1(5)] by simp
  have "open_ids db' = open_ids db4" by (simp add: open_ids_def t')
  then have o5: "open_ids db' = open_ids db - ?C \<union> vr_id ` set new"
    using s2 s4 closes_open_ids[OF 1(5)] by simp
  have vs: "t_versions db' = ended_versions ?C obs (t_versions db) @ new"
    and later: "\<And>r. r \<in> set (t_versions db) \<Longrightarrow> vr_id r \<in> ?C \<Longrightarrow> vr_to r = None \<Longrightarrow> vr_from r < obs"
    and fresh: "\<And>r. r \<in> set new \<Longrightarrow> vr_from r = obs \<and> vr_to r = None \<and> definition_sha256 sha (vr_instrument r) = Inr (vr_hash r)"
    using 1(5,6) t2 t' by (auto simp: closes_def opened_def obs_def)
  show ?case
    by (rule 1(1)[of same new vids db5 a b c])
       (use 1(4,7,8,10-13) vs later fresh i5 k5 o5 in \<open>simp_all add: cur un v_def obs_def\<close>)
qed

lemma persist_current_rows:
  assumes inv: "versions_inv db" and "persist_catalog sha load ok run batch rs db = (Inr res, db')"
  defines "v \<equiv> pv_venue (cb_provenance batch)" and "obs \<equiv> instant (pv_observed_at (cb_provenance batch))"
  obtains same new vids db5 a b c where
    "unchanged_symbols sha load db (cb_instruments batch) = Inr same"
    "current_rows v db' = filter (\<lambda>r. ci_symbol (vr_instrument r) \<in> set same) (current_rows v db) @ new"
    "\<And>w. w \<noteq> v \<Longrightarrow> filter (\<lambda>r. ci_venue (vr_instrument r) = w) (t_versions db')
        = filter (\<lambda>r. ci_venue (vr_instrument r) = w) (t_versions db)"
    "\<And>r. r \<in> set new \<Longrightarrow> vr_from r = obs \<and> definition_sha256 sha (vr_instrument r) = Inr (vr_hash r)"
    "map vr_instrument new = filter (\<lambda>i. ci_symbol i \<notin> set same) (cb_instruments batch)"
    "\<And>s. s \<in> set same \<Longrightarrow> \<exists>i\<in>set (cb_instruments batch). ci_symbol i = s \<and> unchanged sha load db i = Inr True
        \<and> current_row_of v db s \<noteq> None"
    "list_all2 (\<lambda>i vid. \<exists>r\<in>set (current_rows v db'). ci_symbol (vr_instrument r) = ci_symbol i \<and> vr_id r = vid)
       (cb_instruments batch) vids"
    "sync_identities rs obs (open_identity db5) (open_membership db5) (zip (cb_instruments batch) vids) db5
       = Inr (a, b, c, db')"
    "\<And>vid. id_state db5 vid = (if vid \<in> set (changed_ids same (current_rows v db)) then None else id_state db vid)"
    "\<And>vid. mem_state db5 vid = (if vid \<in> set (changed_ids same (current_rows v db)) then None else mem_state db vid)"
    "ids_ok db \<Longrightarrow> ids_ok db5"
    "open_ids db' = open_ids db - set (changed_ids same (current_rows v db)) \<union> vr_id ` set new"
proof -
  obtain same new vids db5 a b c where un: "unchanged_symbols sha load db (cb_instruments batch) = Inr same"
    and t': "t_versions db' = ended_versions (set (changed_ids same (current_rows v db))) obs (t_versions db) @ new"
    and new: "\<And>r. r \<in> set new \<Longrightarrow> vr_from r = obs \<and> vr_to r = None \<and> definition_sha256 sha (vr_instrument r) = Inr (vr_hash r)"
    and insts: "map vr_instrument new = filter (\<lambda>i. \<not> kept (current_row_of v db) same i) (cb_instruments batch)"
    and vids: "list_all2 (version_of (current_row_of v db) same new) (cb_instruments batch) vids"
    and sync: "sync_identities rs obs (open_identity db5) (open_membership db5) (zip (cb_instruments batch) vids) db5
       = Inr (a, b, c, db')"
    and states: "\<And>vid. id_state db5 vid = (if vid \<in> set (changed_ids same (current_rows v db)) then None else id_state db vid)"
      "\<And>vid. mem_state db5 vid = (if vid \<in> set (changed_ids same (current_rows v db)) then None else mem_state db vid)"
      "ids_ok db \<Longrightarrow> ids_ok db5"
      "open_ids db' = open_ids db - set (changed_ids same (current_rows v db)) \<union> vr_id ` set new"
    by (rule persist_versions_table[OF assms(2), folded v_def obs_def]) blast
  obtain u where "validate_input sha batch rs = Inr u"
    using assms(2) by (auto simp: persist_catalog_def and_then_def split: sum.splits if_splits)
  note valid = validate_inputD[OF this, folded v_def]
  have same: "\<exists>i\<in>set (cb_instruments batch). ci_symbol i = s \<and> unchanged sha load db i = Inr True
        \<and> current_row_of v db s \<noteq> None" if "s \<in> set same" for s
  proof -
    have "s \<in> ci_symbol ` {i \<in> set (cb_instruments batch). unchanged sha load db i = Inr True}"
      using that unchanged_symbols_set[OF un] by simp
    then obtain i where "i \<in> set (cb_instruments batch)" "ci_symbol i = s" "unchanged sha load db i = Inr True"
      by auto
    moreover from this have "current_row_of v db s \<noteq> None"
      using valid(2) by (auto simp: unchanged_def split: option.splits)
    ultimately show ?thesis by blast
  qed
  have kept: "kept (current_row_of v db) same i \<longleftrightarrow> ci_symbol i \<in> set same" for i
    using same by (auto simp: kept_def)
  have venue: "ci_venue (vr_instrument r) = v" if "r \<in> set new" for r
  proof -
    have "vr_instrument r \<in> set (map vr_instrument new)" using that by simp
    then show ?thesis unfolding insts using valid(2) by auto
  qed
  have ids: "distinct (map vr_id (t_versions db))" using inv by (simp add: versions_inv_def)
  have open_new: "open_rows new = new" using new by (auto simp: open_rows_def)
  define C where "C = set (changed_ids same (current_rows v db))"
  have inC: "vr_id r \<in> C \<longleftrightarrow> ci_venue (vr_instrument r) = v \<and> ci_symbol (vr_instrument r) \<notin> set same"
    if "r \<in> set (open_rows (t_versions db))" for r
    unfolding C_def by (rule changed_ids_iff[OF ids]) (use that in \<open>auto simp: open_rows_def\<close>)
  have "filter (\<lambda>r. ci_venue (vr_instrument r) = v) (filter (\<lambda>r. vr_id r \<notin> C) (open_rows (t_versions db)))
      = filter (\<lambda>r. ci_symbol (vr_instrument r) \<in> set same) (filter (\<lambda>r. ci_venue (vr_instrument r) = v) (open_rows (t_versions db)))"
    unfolding filter_filter by (rule filter_cong) (use inC in auto)
  moreover have "filter (\<lambda>r. ci_venue (vr_instrument r) = v) new = new"
    using venue by (simp add: filter_id_conv)
  ultimately have cur: "current_rows v db' = filter (\<lambda>r. ci_symbol (vr_instrument r) \<in> set same) (current_rows v db) @ new"
    unfolding current_rows_open t' C_def[symmetric, unfolded current_rows_open] open_rows_append open_rows_ended open_new
    by (simp only: filter_append)
  have other: "filter (\<lambda>r. ci_venue (vr_instrument r) = w) (t_versions db')
        = filter (\<lambda>r. ci_venue (vr_instrument r) = w) (t_versions db)" if w: "w \<noteq> v" for w
  proof -
    have "filter (\<lambda>r. ci_venue (vr_instrument r) = w) (ended_versions C obs rows)
       = filter (\<lambda>r. ci_venue (vr_instrument r) = w) rows" if "set rows \<subseteq> set (t_versions db)" for rows
      using that inC w by (induction rows) (auto simp: ended_versions_def open_rows_def)
    moreover have "filter (\<lambda>r. ci_venue (vr_instrument r) = w) new = []"
      using venue w by (auto simp: filter_empty_conv)
    ultimately show ?thesis by (simp add: t' C_def)
  qed
  have rows: "list_all2 (\<lambda>i vid. \<exists>r\<in>set (current_rows v db'). ci_symbol (vr_instrument r) = ci_symbol i \<and> vr_id r = vid)
       (cb_instruments batch) vids"
  proof (rule list_all2_mono[OF vids])
    fix i vid
    assume "version_of (current_row_of v db) same new i vid"
    moreover have "r \<in> set (current_rows v db) \<and> ci_symbol (vr_instrument r) = ci_symbol i"
      if "current_row_of v db (ci_symbol i) = Some r" for r
      using that inv by (simp add: current_row_of_iff versions_inv_def)
    ultimately show "\<exists>r\<in>set (current_rows v db'). ci_symbol (vr_instrument r) = ci_symbol i \<and> vr_id r = vid"
      unfolding cur version_of_def by (auto simp: kept split: if_splits)
  qed
  show thesis by (rule that[OF un cur other _ _ same rows sync states]) (use new insts kept in auto)
qed

lemma current_rows_subset_open: "set (current_rows v db) \<subseteq> set (open_rows (t_versions db))"
  by (auto simp: current_rows_open)

lemma persist_consistent:
  assumes cons: "catalog_consistent db" and run: "persist_catalog sha load ok run batch rs db = (Inr res, db')"
  shows "catalog_consistent db'
     \<and> (\<forall>i\<in>set (cb_instruments batch). \<exists>r resl. current_row_of (ci_venue i) db' (ci_symbol i) = Some r
          \<and> resolution_for rs i = Some resl \<and> id_state db' (vr_id r) = Some (resolution_state resl)
          \<and> mem_state db' (vr_id r) = membership_of (Some (resolution_state resl)))"
proof -
  let ?v = "pv_venue (cb_provenance batch)"
  have inv: "versions_inv db" and ids: "ids_ok db" using cons by (simp_all add: catalog_consistent_def)
  have inv': "versions_inv db'" by (rule persist_versions_inv[OF inv run])
  obtain u where "validate_input sha batch rs = Inr u"
    using run by (auto simp: persist_catalog_def and_then_def split: sum.splits if_splits)
  note valid = validate_inputD[OF this]
  obtain same new vids db5 a b c where
      rows: "list_all2 (\<lambda>i vid. \<exists>r\<in>set (current_rows ?v db'). ci_symbol (vr_instrument r) = ci_symbol i \<and> vr_id r = vid)
         (cb_instruments batch) vids"
    and sync: "sync_identities rs (instant (pv_observed_at (cb_provenance batch))) (open_identity db5) (open_membership db5)
         (zip (cb_instruments batch) vids) db5 = Inr (a, b, c, db')"
    and st5: "\<And>vid. id_state db5 vid = (if vid \<in> set (changed_ids same (current_rows ?v db)) then None else id_state db vid)"
      "\<And>vid. mem_state db5 vid = (if vid \<in> set (changed_ids same (current_rows ?v db)) then None else mem_state db vid)"
    and ids5: "ids_ok db \<Longrightarrow> ids_ok db5"
    and opens: "open_ids db' = open_ids db - set (changed_ids same (current_rows ?v db)) \<union> vr_id ` set new"
    and cur: "current_rows ?v db' = filter (\<lambda>r. ci_symbol (vr_instrument r) \<in> set same) (current_rows ?v db) @ new"
    and news: "map vr_instrument new = filter (\<lambda>i. ci_symbol i \<notin> set same) (cb_instruments batch)"
    by (rule persist_current_rows[OF inv run]) blast
  define insts where "insts = cb_instruments batch"
  have len: "length insts = length vids" using rows by (simp add: insts_def list_all2_lengthD)
  have at: "\<exists>r\<in>set (current_rows ?v db'). ci_symbol (vr_instrument r) = ci_symbol (insts ! k) \<and> vr_id r = vids ! k"
    if "k < length insts" for k
    using rows that by (auto simp: insts_def list_all2_conv_all_nth)
  have id_inj: "r = q" if "r \<in> set (current_rows ?v db')" "q \<in> set (current_rows ?v db')" "vr_id r = vr_id q" for r q
    using inv' that unfolding versions_inv_def current_rows_def
    by (metis (no_types, lifting) distinct_map filter_is_subset inj_onD subsetD)
  have dist: "distinct vids"
    unfolding distinct_conv_nth
  proof (intro allI impI)
    fix j k
    assume jk: "j < length vids" "k < length vids" "j \<noteq> k"
    then have "ci_symbol (insts ! j) \<noteq> ci_symbol (insts ! k)"
      using valid(3) len by (auto simp: insts_def distinct_conv_nth)
    then show "vids ! j \<noteq> vids ! k" using at[of j] at[of k] jk len id_inj by metis
  qed
  have zipped: "map snd (zip insts vids) = vids" "snd ` set (zip insts vids) = set vids"
    using len by (simp_all flip: set_map)
  have "distinct (map snd (zip insts vids))" using dist zipped by simp
  note st = sync_identities_states[OF ids5[OF ids] sync[folded insts_def] this]
  have done_ids: "ids_ok db'" and outside: "\<And>w. w \<notin> set vids \<Longrightarrow> id_state db' w = id_state db5 w \<and> mem_state db' w = mem_state db5 w"
    and inside: "\<And>i vid. (i, vid) \<in> set (zip insts vids) \<Longrightarrow> \<exists>res. resolution_for rs i = Some res
        \<and> id_state db' vid = Some (resolution_state res) \<and> mem_state db' vid = membership_of (Some (resolution_state res))"
    using st zipped by auto
  have in_vids: "\<exists>res. id_state db' w = Some (resolution_state res) \<and> mem_state db' w = membership_of (Some (resolution_state res))"
    if w: "w \<in> set vids" for w
  proof -
    obtain k where "k < length vids" "w = vids ! k" using w by (auto simp: in_set_conv_nth)
    then have "(insts ! k, w) \<in> set (zip insts vids)" using len by (auto simp: in_set_zip)
    from inside[OF this] show ?thesis by blast
  qed
  have vids_open: "w \<in> open_ids db'" if w: "w \<in> set vids" for w
  proof -
    obtain k where "k < length vids" "w = vids ! k" using w by (auto simp: in_set_conv_nth)
    then obtain r where "r \<in> set (current_rows ?v db')" "vr_id r = w" using at[of k] len by auto
    then show ?thesis using current_rows_subset_open by (auto simp: open_ids_def)
  qed
  have new_vids: "vr_id r \<in> set vids" if r: "r \<in> set new" for r
  proof -
    have "vr_instrument r \<in> set insts" using news r by (metis (no_types, lifting) filter_is_subset image_eqI insts_def set_map subsetD)
    then obtain k where k: "k < length insts" "insts ! k = vr_instrument r" by (auto simp: in_set_conv_nth)
    obtain q where q: "q \<in> set (current_rows ?v db')" "ci_symbol (vr_instrument q) = ci_symbol (vr_instrument r)" "vr_id q = vids ! k"
      using at[OF k(1)] k(2) by auto
    have "r \<in> set (current_rows ?v db')" using r cur by simp
    moreover have "distinct (map (\<lambda>r. ci_symbol (vr_instrument r)) (current_rows ?v db'))"
      using inv' by (intro current_rows_symbols_distinct) (simp add: versions_inv_def)
    ultimately have "q = r" using q by (metis distinct_map inj_onD)
    then show ?thesis using q k len by (metis nth_mem)
  qed
  have consistent: "(id_state db' w \<noteq> None \<longleftrightarrow> w \<in> open_ids db') \<and> mem_state db' w = membership_of (id_state db' w)" for w
  proof (cases "w \<in> set vids")
    case True
    from in_vids[OF True] vids_open[OF True] show ?thesis by (metis option.distinct(1))
  next
    case False
    then have "w \<notin> vr_id ` set new" using new_vids by auto
    then show ?thesis using False outside[OF False] st5[of w] cons opens by (auto simp: catalog_consistent_def)
  qed
  have recorded: "\<exists>r resl. current_row_of (ci_venue i) db' (ci_symbol i) = Some r
          \<and> resolution_for rs i = Some resl \<and> id_state db' (vr_id r) = Some (resolution_state resl)
          \<and> mem_state db' (vr_id r) = membership_of (Some (resolution_state resl))" if i: "i \<in> set insts" for i
  proof -
    obtain k where k: "k < length insts" "insts ! k = i" using i by (auto simp: in_set_conv_nth)
    obtain r where r: "r \<in> set (current_rows ?v db')" "ci_symbol (vr_instrument r) = ci_symbol i" "vr_id r = vids ! k"
      using at[OF k(1)] k(2) by auto
    have "current_row_of ?v db' (ci_symbol i) = Some r"
      using r inv' by (simp add: current_row_of_iff versions_inv_def)
    moreover have "(i, vids ! k) \<in> set (zip insts vids)" using k len by (auto simp: in_set_zip)
    ultimately show ?thesis using inside[of i "vids ! k"] valid(2)[of i] i r(3) by (auto simp: insts_def)
  qed
  show ?thesis using inv' done_ids consistent recorded by (auto simp: catalog_consistent_def insts_def)
qed

lemma catalog_empty_consistent:
  "catalog_consistent \<lparr>t_runs = runs, t_payloads = [], t_exclusions = [], t_versions = [], t_capabilities = [],
     t_identities = [], t_memberships = [], t_groups = [], seq_payload = 1, seq_version = 1,
     seq_identity = 1, seq_membership = 1\<rparr>"
  by (simp add: catalog_consistent_def versions_inv_def ids_ok_def id_state_def mem_state_def open_identity_def
      open_membership_def open_ids_def open_rows_def)

section \<open>Properties\<close>

text \<open>
  C24. History is append-only: a successful \<open>persist_catalog\<close> keeps every version row in place, ends
  some open ones at the observation time, which must lie after they began, and appends the new ones,
  which begin at the observation time and carry the hash of their definition; a failed call changes
  nothing at all.
\<close>

theorem catalog_history_append_only:
  "case persist_catalog sha load ok run batch rs db of
     (Inl e, db') \<Rightarrow> db' = db
   | (Inr res, db') \<Rightarrow>
       (let obs = instant (pv_observed_at (cb_provenance batch)) in
        \<exists>closed new. t_versions db' = ended_versions closed obs (t_versions db) @ new
          \<and> list_all (\<lambda>r. vr_from r < obs) (filter (\<lambda>r. vr_id r \<in> closed \<and> vr_to r = None) (t_versions db))
          \<and> list_all (\<lambda>r. vr_from r = obs \<and> vr_to r = None \<and> definition_sha256 sha (vr_instrument r) = Inr (vr_hash r)) new
          \<and> res_created res = length new \<and> res_created res + res_unchanged res = length (cb_instruments batch))"
proof (cases "persist_catalog sha load ok run batch rs db")
  case (Pair r db')
  show ?thesis
  proof (cases r)
    case (Inl e)
    with Pair persist_error_keeps show ?thesis by auto
  next
    case (Inr res)
    note run = Pair[unfolded Inr]
    obtain same new where
      "t_versions db' = ended_versions (set (changed_ids same (current_rows (pv_venue (cb_provenance batch)) db)))
         (instant (pv_observed_at (cb_provenance batch))) (t_versions db) @ new"
      "\<And>r. r \<in> set (t_versions db) \<Longrightarrow> vr_id r \<in> set (changed_ids same (current_rows (pv_venue (cb_provenance batch)) db))
         \<Longrightarrow> vr_to r = None \<Longrightarrow> vr_from r < instant (pv_observed_at (cb_provenance batch))"
      "\<And>r. r \<in> set new \<Longrightarrow> vr_from r = instant (pv_observed_at (cb_provenance batch)) \<and> vr_to r = None
         \<and> definition_sha256 sha (vr_instrument r) = Inr (vr_hash r)"
      "res_created res = length new" "res_created res + res_unchanged res = length (cb_instruments batch)"
      by (rule persist_versions_table[OF run]) blast
    then show ?thesis unfolding Pair Inr Let_def prod.case sum.case
      by (intro exI[of _ "set (changed_ids same (current_rows (pv_venue (cb_provenance batch)) db))"] exI[of _ new])
         (simp add: list_all_iff)
  qed
qed

text \<open>
  C2. After a successful call the open versions of the venue are exactly the instruments of the
  batch, one each: an instrument whose full or semantic definition did not change keeps its version,
  any other one gets a new version of itself; the other venues are untouched.
\<close>

theorem catalog_current_is_batch:
  assumes "versions_inv db" and "persist_catalog sha load ok run batch rs db = (Inr res, db')"
  shows "set (map (\<lambda>r. ci_symbol (vr_instrument r)) (current_rows (pv_venue (cb_provenance batch)) db'))
          = set (map ci_symbol (cb_instruments batch))
       \<and> distinct (map (\<lambda>r. ci_symbol (vr_instrument r)) (current_rows (pv_venue (cb_provenance batch)) db'))
       \<and> list_all (\<lambda>r. r \<in> set (t_versions db)
             \<and> list_ex (\<lambda>i. ci_symbol i = ci_symbol (vr_instrument r) \<and> unchanged sha load db i = Inr True) (cb_instruments batch)
           \<or> vr_instrument r \<in> set (cb_instruments batch)
             \<and> vr_from r = instant (pv_observed_at (cb_provenance batch)))
          (current_rows (pv_venue (cb_provenance batch)) db')
       \<and> (\<forall>w. w = pv_venue (cb_provenance batch)
            \<or> filter (\<lambda>r. ci_venue (vr_instrument r) = w) (t_versions db')
                = filter (\<lambda>r. ci_venue (vr_instrument r) = w) (t_versions db))
       \<and> versions_inv db'"
proof -
  let ?v = "pv_venue (cb_provenance batch)"
  obtain same new where
      cur: "current_rows ?v db' = filter (\<lambda>r. ci_symbol (vr_instrument r) \<in> set same) (current_rows ?v db) @ new"
    and other: "\<And>w. w \<noteq> ?v \<Longrightarrow> filter (\<lambda>r. ci_venue (vr_instrument r) = w) (t_versions db')
        = filter (\<lambda>r. ci_venue (vr_instrument r) = w) (t_versions db)"
    and new: "\<And>r. r \<in> set new \<Longrightarrow> vr_from r = instant (pv_observed_at (cb_provenance batch))
        \<and> definition_sha256 sha (vr_instrument r) = Inr (vr_hash r)"
    and news: "map vr_instrument new = filter (\<lambda>i. ci_symbol i \<notin> set same) (cb_instruments batch)"
    and same: "\<And>s. s \<in> set same \<Longrightarrow> \<exists>i\<in>set (cb_instruments batch). ci_symbol i = s \<and> unchanged sha load db i = Inr True
        \<and> current_row_of ?v db s \<noteq> None"
    by (rule persist_current_rows[OF assms]) blast
  have inv': "versions_inv db'" by (rule persist_versions_inv[OF assms])
  have d: "distinct (map listing (open_rows (t_versions db)))" using assms(1) by (simp add: versions_inv_def)
  have new_mem: "vr_instrument r \<in> set (cb_instruments batch)" if "r \<in> set new" for r
  proof -
    have "vr_instrument r \<in> set (map vr_instrument new)" using that by simp
    then show ?thesis unfolding news by simp
  qed
  have "s \<in> (\<lambda>r. ci_symbol (vr_instrument r)) ` set (current_rows ?v db')" if s: "s \<in> ci_symbol ` set (cb_instruments batch)" for s
  proof (cases "s \<in> set same")
    case True
    then obtain r where "current_row_of ?v db s = Some r" using same by blast
    then have "r \<in> set (current_rows ?v db)" "ci_symbol (vr_instrument r) = s"
      using current_row_of_iff[OF d] by auto
    with True show ?thesis unfolding cur by force
  next
    case False
    from s obtain i where "i \<in> set (cb_instruments batch)" "ci_symbol i = s" by auto
    with False have "i \<in> set (map vr_instrument new)" unfolding news by simp
    then obtain r where "r \<in> set new" "vr_instrument r = i" by auto
    with \<open>ci_symbol i = s\<close> show ?thesis unfolding cur by force
  qed
  moreover have row: "ci_symbol (vr_instrument r) \<in> ci_symbol ` set (cb_instruments batch)
      \<and> (r \<in> set (t_versions db)
             \<and> list_ex (\<lambda>i. ci_symbol i = ci_symbol (vr_instrument r) \<and> unchanged sha load db i = Inr True) (cb_instruments batch)
           \<or> vr_instrument r \<in> set (cb_instruments batch)
             \<and> vr_from r = instant (pv_observed_at (cb_provenance batch)))" if r: "r \<in> set (current_rows ?v db')" for r
  proof (cases "r \<in> set new")
    case True
    with new[OF True] new_mem[OF True] show ?thesis by simp
  next
    case False
    with r have k: "r \<in> set (current_rows ?v db)" "ci_symbol (vr_instrument r) \<in> set same" unfolding cur by auto
    from same[OF k(2)] obtain i where "i \<in> set (cb_instruments batch)" "ci_symbol i = ci_symbol (vr_instrument r)"
      "unchanged sha load db i = Inr True" by blast
    moreover have "r \<in> set (t_versions db)" using k(1) by (simp add: current_rows_def)
    ultimately show ?thesis by (auto simp: list_ex_iff intro: rev_image_eqI)
  qed
  moreover have "distinct (map (\<lambda>r. ci_symbol (vr_instrument r)) (current_rows ?v db'))"
    by (rule current_rows_symbols_distinct) (use inv' in \<open>simp add: versions_inv_def\<close>)
  ultimately show ?thesis using other inv' by (auto simp: list_all_iff)
qed


definition empty_catalog :: catalog_db where
  "empty_catalog = \<lparr>t_runs = [], t_payloads = [], t_exclusions = [], t_versions = [], t_capabilities = [],
     t_identities = [], t_memberships = [], t_groups = [], seq_payload = 1, seq_version = 1,
     seq_identity = 1, seq_membership = 1\<rparr>"

definition sample_sha :: "json \<Rightarrow> string" where
  "sample_sha j = replicate 64 (CHR ''a'')"

definition sample_batch :: catalog_batch where
  "sample_batch = \<lparr>cb_provenance = \<lparr>pv_venue = Mexc, pv_source_kind = NativeRest, pv_endpoint = ''/detail'',
       pv_documentation_url = ''doc'', pv_observed_at = utc 100, pv_source_at = None,
       pv_payload_hash = replicate 64 (CHR ''a'')\<rparr>,
     cb_instruments = [sample_instrument], cb_exclusions = [], cb_capabilities = [], cb_raw_payload = JList []\<rparr>"

definition sample_run :: "catalog_result result \<times> catalog_db" where
  "sample_run = persist_catalog sample_sha (\<lambda>raw. raw) True None sample_batch
     (resolve_market_groups [sample_instrument]) empty_catalog"

lemma sample_run_ok: "is_ok (fst sample_run)"
  by code_simp


lemma catalog_current_is_batch_witness:
  "map (\<lambda>r. ci_symbol (vr_instrument r)) (current_rows Mexc (snd sample_run)) = [''BTC_USDT'']
   \<and> versions_inv (snd sample_run)"
proof -
  obtain res where run: "persist_catalog sample_sha (\<lambda>raw. raw) True None sample_batch
     (resolve_market_groups [sample_instrument]) empty_catalog = (Inr res, snd sample_run)"
    using sample_run_ok unfolding sample_run_def is_ok_iff by (metis prod.collapse)
  have c: "versions_inv empty_catalog"
    using catalog_empty_consistent[of "[]"] by (simp add: empty_catalog_def catalog_consistent_def)
  have "map (\<lambda>r. ci_symbol (vr_instrument r)) (current_rows Mexc (snd sample_run)) = [''BTC_USDT'']" by code_simp
  with catalog_current_is_batch[OF c run] show ?thesis by simp
qed

section \<open>Disjoint versions\<close>

definition before :: "version_row \<Rightarrow> version_row \<Rightarrow> bool" where
  "before r q = (case vr_to r of None \<Rightarrow> False | Some t \<Rightarrow> t \<le> vr_from q)"

definition disjoint_history :: "catalog_db \<Rightarrow> bool" where
  "disjoint_history db \<longleftrightarrow>
     (\<forall>r\<in>set (t_versions db). \<forall>q\<in>set (t_versions db). r = q \<or> listing r \<noteq> listing q \<or> before r q \<or> before q r)"

definition ended_by :: "int \<Rightarrow> catalog_db \<Rightarrow> bool" where
  "ended_by obs db = list_all (\<lambda>r. case vr_to r of None \<Rightarrow> True | Some t \<Rightarrow> t \<le> obs) (t_versions db)"

lemma open_listing_unique:
  assumes "versions_inv db" and "r \<in> set (t_versions db)" and "q \<in> set (t_versions db)"
    and "vr_to r = None" and "vr_to q = None" and "listing r = listing q"
  shows "r = q"
proof -
  have "inj_on listing (set (open_rows (t_versions db)))"
    using assms(1) by (simp add: versions_inv_def distinct_map)
  then show ?thesis by (rule inj_onD) (use assms in \<open>auto simp: open_rows_def\<close>)
qed

text \<open>
  C29. The versions of one listing never overlap in time, as long as a catalog is not observed before
  an already recorded end of a version.
\<close>

theorem catalog_versions_disjoint:
  assumes "versions_inv db" and "disjoint_history db"
    and "ended_by (instant (pv_observed_at (cb_provenance batch))) db"
    and "persist_catalog sha load ok run batch rs db = (Inr res, db')"
  shows "disjoint_history db' \<and> ended_by (instant (pv_observed_at (cb_provenance batch))) db'"
proof -
  let ?obs = "instant (pv_observed_at (cb_provenance batch))"
  obtain same new where
      t': "t_versions db' = ended_versions (set (changed_ids same (current_rows (pv_venue (cb_provenance batch)) db)))
         ?obs (t_versions db) @ new"
    and new: "\<And>r. r \<in> set new \<Longrightarrow> vr_from r = ?obs \<and> vr_to r = None \<and> definition_sha256 sha (vr_instrument r) = Inr (vr_hash r)"
    by (rule persist_versions_table[OF assms(4)]) blast
  define C where "C = set (changed_ids same (current_rows (pv_venue (cb_provenance batch)) db))"
  define fin :: "version_row \<Rightarrow> version_row" where "fin r = (if vr_id r \<in> C \<and> vr_to r = None then r\<lparr>vr_to := Some ?obs\<rparr> else r)" for r
  have old: "t_versions db' = map fin (t_versions db) @ new" by (simp add: t' ended_versions_def fin_def C_def)
  have inv': "versions_inv db'" by (rule persist_versions_inv[OF assms(1,4)])
  have ended: "t \<le> ?obs" if "r \<in> set (t_versions db')" "vr_to r = Some t" for r t
    using that assms(3) new unfolding old by (auto simp: fin_def ended_by_def list_all_iff split: if_splits)
  have lifted: "before (fin r) (fin q)" if "before r q" for r q
    using that by (auto simp: before_def fin_def split: option.splits)
  have same_listing: "listing (fin r) = listing r" for r by (simp add: fin_def listing_def)
  have apart: "r = q \<or> listing r \<noteq> listing q \<or> before r q \<or> before q r"
    if r: "r \<in> set (t_versions db')" and q: "q \<in> set (t_versions db')" for r q
  proof -
    have from_new: "x = y \<or> listing x \<noteq> listing y \<or> before y x"
      if "x \<in> set new" "y \<in> set (t_versions db')" for x y
    proof (cases "vr_to y")
      case None
      have "x \<in> set (t_versions db')" using that(1) by (simp add: old)
      from open_listing_unique[OF inv' this that(2)] None new[OF that(1)] show ?thesis by auto
    next
      case (Some t)
      with ended[OF that(2)] new[OF that(1)] show ?thesis by (simp add: before_def)
    qed
    show ?thesis
    proof (cases "r \<in> set new \<or> q \<in> set new")
      case True
      with from_new[of r q] from_new[of q r] r q show ?thesis by auto
    next
      case False
      then obtain a b where ab: "a \<in> set (t_versions db)" "b \<in> set (t_versions db)" "r = fin a" "q = fin b"
        using r q by (auto simp: old)
      then have "a = b \<or> listing a \<noteq> listing b \<or> before a b \<or> before b a"
        using assms(2) by (auto simp: disjoint_history_def)
      with ab lifted[of a b] lifted[of b a] same_listing show ?thesis by auto
    qed
  qed
  have "ended_by ?obs db'" using ended by (auto simp: ended_by_def list_all_iff split: option.split)
  with apart show ?thesis by (auto simp: disjoint_history_def)
qed

lemma catalog_versions_disjoint_witness:
  "disjoint_history (snd sample_run) \<and> ended_by 100 (snd sample_run)"
proof -
  obtain res where run: "persist_catalog sample_sha (\<lambda>raw. raw) True None sample_batch
     (resolve_market_groups [sample_instrument]) empty_catalog = (Inr res, snd sample_run)"
    using sample_run_ok unfolding sample_run_def is_ok_iff by (metis prod.collapse)
  have c: "versions_inv empty_catalog"
    using catalog_empty_consistent[of "[]"] by (simp add: empty_catalog_def catalog_consistent_def)
  have d: "disjoint_history empty_catalog" by (simp add: disjoint_history_def empty_catalog_def)
  have e: "ended_by (instant (pv_observed_at (cb_provenance sample_batch))) empty_catalog" by code_simp
  have "instant (pv_observed_at (cb_provenance sample_batch)) = 100" by code_simp
  with catalog_versions_disjoint[OF c d e run] show ?thesis by simp
qed

definition later_batch :: "int \<Rightarrow> instrument list \<Rightarrow> catalog_batch" where
  "later_batch t is = sample_batch\<lparr>cb_provenance := (cb_provenance sample_batch)\<lparr>pv_observed_at := utc t\<rparr>,
     cb_instruments := is\<rparr>"

definition step_catalog :: "int \<Rightarrow> instrument list \<Rightarrow> catalog_db \<Rightarrow> catalog_db" where
  "step_catalog t is db = snd (persist_catalog sample_sha (\<lambda>raw. raw) True None (later_batch t is)
     (resolve_market_groups is) db)"

text \<open>
  Without that ordering the guard is not enough: a listing that disappeared at 200 and is seen
  again in a catalog observed at 150 gets a second version that overlaps the first.
\<close>

theorem relisting_can_overlap:
  "let a = sample_instrument; b = sample_instrument\<lparr>ci_symbol := ''ETH_USDT'', ci_base := ''ETH''\<rparr>;
       db = step_catalog 150 [a, b] (step_catalog 200 [b] (step_catalog 100 [a, b] empty_catalog))
   in map (\<lambda>r. (vr_from r, vr_to r)) (filter (\<lambda>r. ci_symbol (vr_instrument r) = ''BTC_USDT'') (t_versions db))
      = [(100, Some 200), (150, None)]"
  by code_simp

end
