(* ===== verification/Ranking_Store.thy ===== *)
theory Ranking_Store
  imports Py_Float "HOL-Library.List_Lexorder" "HOL-Library.Char_ord"
begin

text \<open>
  Minute bars of the ranking service: the validated \<open>MinuteBar\<close> of \<open>models.py\<close> and the table
  \<open>minute_bars\<close> of \<open>storage.py\<close>, a list of rows with one row per reference key and minute.  Times
  are UTC milliseconds.
\<close>

section \<open>Bars\<close>

definition minute_ms :: int where "minute_ms = 60000"
definition history_minutes :: int where "history_minutes = 3 * 1440"
definition retention_minutes :: int where "retention_minutes = 4 * 1440 + 1"
definition day_ms :: int where "day_ms = 1440 * minute_ms"
definition jst_ms :: int where "jst_ms = 9 * 60 * minute_ms"

lemmas ranking_times = minute_ms_def history_minutes_def retention_minutes_def day_ms_def jst_ms_def
declare ranking_times [unfold_code]

lemma minute_ms_pos [simp]: "0 < minute_ms" by (simp add: minute_ms_def)

record minute_bar =
  mb_key :: string
  mb_end :: int
  mb_open :: pyfloat
  mb_high :: pyfloat
  mb_low :: pyfloat
  mb_close :: pyfloat
  mb_turnover :: pyfloat

definition bar_values :: "minute_bar \<Rightarrow> pyfloat list" where
  "bar_values b = [mb_open b, mb_high b, mb_low b, mb_close b, mb_turnover b]"

text \<open>\<open>MinuteBar.valid_bar\<close>; past the finiteness test the comparisons are on the values.\<close>

definition valid_bar :: "minute_bar \<Rightarrow> unit result" where
  "valid_bar b =
     (let open_v = fval (mb_open b); high_v = fval (mb_high b); low_v = fval (mb_low b);
          close_v = fval (mb_close b); turnover_v = fval (mb_turnover b)
      in if mb_end b \<le> 0 \<or> mb_end b mod minute_ms \<noteq> 0 then
           raise_exn ValueError ''bar end must be a UTC minute boundary''
         else if \<not> list_all float_finite (bar_values b) then
           raise_exn ValueError ''bar values must be finite''
         else if min (min (min open_v high_v) low_v) close_v \<le> 0 \<or> turnover_v < 0 then
           raise_exn ValueError ''invalid price or turnover''
         else if \<not> (low_v \<le> min open_v close_v \<and> min open_v close_v \<le> max open_v close_v
                    \<and> max open_v close_v \<le> high_v) then
           raise_exn ValueError ''OHLC is inconsistent''
         else Inr ())"

section \<open>The table\<close>

type_synonym bar_table = "minute_bar list"

definition same_minute :: "minute_bar \<Rightarrow> minute_bar \<Rightarrow> bool" where
  "same_minute a b \<longleftrightarrow> mb_key a = mb_key b \<and> mb_end a = mb_end b"

text \<open>One statement of \<open>Store.put\<close>: insert, or update the row of the same key and minute.\<close>

definition put_bar :: "minute_bar \<Rightarrow> bar_table \<Rightarrow> bar_table" where
  "put_bar b tbl =
     (if \<exists>r\<in>set tbl. same_minute r b then map (\<lambda>r. if same_minute r b then b else r) tbl
      else tbl @ [b])"

definition store_put :: "minute_bar list \<Rightarrow> int \<Rightarrow> bar_table \<Rightarrow> nat result \<times> bar_table" where
  "store_put bars now tbl =
     (if \<exists>b\<in>set bars. now div minute_ms * minute_ms < mb_end b then
        (raise_exn ValueError ''unclosed or future minute bar'', tbl)
      else (Inr (length bars), fold put_bar bars tbl))"

record bar_row =
  br_end :: int
  br_close :: pyfloat
  br_turnover :: pyfloat
  br_high :: pyfloat
  br_low :: pyfloat

definition row_of_bar :: "minute_bar \<Rightarrow> bar_row" where
  "row_of_bar b = \<lparr>br_end = mb_end b, br_close = mb_close b, br_turnover = mb_turnover b,
     br_high = mb_high b, br_low = mb_low b\<rparr>"

definition store_window :: "string \<Rightarrow> int \<Rightarrow> int \<Rightarrow> bar_table \<Rightarrow> bar_row list" where
  "store_window key first final tbl =
     map row_of_bar (sort_key mb_end
       (filter (\<lambda>b. mb_key b = key \<and> first \<le> mb_end b \<and> mb_end b \<le> final) tbl))"

definition store_latest :: "string \<Rightarrow> bar_table \<Rightarrow> int option" where
  "store_latest key tbl =
     (case map mb_end (filter (\<lambda>b. mb_key b = key) tbl) of [] \<Rightarrow> None | e # es \<Rightarrow> Some (fold max es e))"

definition store_prune :: "int \<Rightarrow> bar_table \<Rightarrow> bar_table" where
  "store_prune cutoff tbl = filter (\<lambda>b. cutoff - retention_minutes * minute_ms \<le> mb_end b) tbl"

declare bar_values_def [unfold_code] valid_bar_def [unfold_code] same_minute_def [unfold_code]
  put_bar_def [unfold_code] store_put_def [unfold_code] row_of_bar_def [unfold_code]
  store_window_def [unfold_code] store_latest_def [unfold_code] store_prune_def [unfold_code]

section \<open>Lemmas\<close>

definition bar_at :: "bar_table \<Rightarrow> string \<Rightarrow> int \<Rightarrow> minute_bar option" where
  "bar_at tbl key t = find (\<lambda>b. mb_key b = key \<and> mb_end b = t) tbl"

text \<open>The invariant of the table: validated bars, one row per key and minute.\<close>

definition store_ok :: "bar_table \<Rightarrow> bool" where
  "store_ok tbl \<longleftrightarrow> list_all (\<lambda>b. valid_bar b = Inr ()) tbl \<and> distinct (map (\<lambda>b. (mb_key b, mb_end b)) tbl)"

lemma valid_barD:
  assumes "valid_bar b = Inr ()"
  shows "0 < mb_end b" "minute_ms dvd mb_end b" "\<And>v. v \<in> set (bar_values b) \<Longrightarrow> float_finite v"
    "0 < fval (mb_open b)" "0 < fval (mb_high b)" "0 < fval (mb_low b)" "0 < fval (mb_close b)"
    "0 \<le> fval (mb_turnover b)" "fval (mb_low b) \<le> fval (mb_close b)" "fval (mb_close b) \<le> fval (mb_high b)"
  using assms
  by (auto simp: valid_bar_def Let_def list_all_iff dvd_eq_mod_eq_0 split: if_splits)

lemma find_update:
  "find (\<lambda>x. mb_key x = k \<and> mb_end x = t) (map (\<lambda>r. if same_minute r b then b else r) tbl)
    = (if mb_key b = k \<and> mb_end b = t
       then (if \<exists>r\<in>set tbl. same_minute r b then Some b else None)
       else find (\<lambda>x. mb_key x = k \<and> mb_end x = t) tbl)"
  by (induction tbl) (auto simp: same_minute_def)

lemma bar_at_put:
  "bar_at (put_bar b tbl) k t = (if mb_key b = k \<and> mb_end b = t then Some b else bar_at tbl k t)"
proof (cases "\<exists>r\<in>set tbl. same_minute r b")
  case True
  then show ?thesis by (simp add: bar_at_def put_bar_def find_update)
next
  case False
  then have "mb_key b = k \<Longrightarrow> mb_end b = t \<Longrightarrow> bar_at tbl k t = None"
    by (auto simp: bar_at_def find_None_iff same_minute_def)
  with False show ?thesis
    by (auto simp: bar_at_def put_bar_def find_append split: option.splits)
qed

lemma keys_put_bar:
  "map (\<lambda>b. (mb_key b, mb_end b)) (put_bar b tbl) =
     (let ks = map (\<lambda>b. (mb_key b, mb_end b)) tbl
      in if (mb_key b, mb_end b) \<in> set ks then ks else ks @ [(mb_key b, mb_end b)])"
  by (auto simp: put_bar_def same_minute_def image_iff Let_def; metis)

lemma set_put_bar: "set (put_bar b tbl) \<subseteq> insert b (set tbl)"
  by (auto simp: put_bar_def)

lemma store_ok_put: "store_ok tbl \<Longrightarrow> valid_bar b = Inr () \<Longrightarrow> store_ok (put_bar b tbl)"
  using set_put_bar[of b tbl] unfolding store_ok_def keys_put_bar
  by (auto simp: list_all_iff Let_def)

lemma store_ok_fold:
  "store_ok tbl \<Longrightarrow> list_all (\<lambda>b. valid_bar b = Inr ()) bs \<Longrightarrow> store_ok (fold put_bar bs tbl)"
  by (induction bs arbitrary: tbl) (auto intro: store_ok_put)

lemma store_ok_prune: "store_ok tbl \<Longrightarrow> store_ok (store_prune cutoff tbl)"
  by (auto simp: store_ok_def store_prune_def list_all_iff distinct_map_filter)

lemma bar_at_fold:
  "bar_at (fold put_bar bs tbl) k t =
     (case find (\<lambda>b. mb_key b = k \<and> mb_end b = t) (rev bs) of Some b \<Rightarrow> Some b | None \<Rightarrow> bar_at tbl k t)"
  by (induction bs arbitrary: tbl) (auto simp: bar_at_put find_append split: option.splits)

lemma bar_at_member:
  assumes "store_ok tbl"
  shows "bar_at tbl k t = Some b \<longleftrightarrow> b \<in> set tbl \<and> mb_key b = k \<and> mb_end b = t"
  using assms unfolding store_ok_def bar_at_def
  by (induction tbl) (force simp: image_iff)+

text \<open>A window: strictly ascending minutes, one row per stored bar of the key in the interval.\<close>

lemma window_rows:
  assumes "store_ok tbl"
  shows "r \<in> set (store_window k a z tbl) \<longleftrightarrow>
    (\<exists>b. bar_at tbl k (br_end r) = Some b \<and> a \<le> br_end r \<and> br_end r \<le> z \<and> r = row_of_bar b)"
  using assms by (auto simp: store_window_def bar_at_member row_of_bar_def)

lemma window_ascending:
  assumes "store_ok tbl"
  shows "sorted_wrt (<) (map br_end (store_window k a z tbl))"
proof -
  let ?f = "filter (\<lambda>b. mb_key b = k \<and> a \<le> mb_end b \<and> mb_end b \<le> z) tbl"
  have "distinct (map (\<lambda>b. (mb_key b, mb_end b)) ?f)"
    using assms by (simp add: store_ok_def distinct_map_filter)
  then have "distinct (map mb_end ?f)" by (auto simp: distinct_map inj_on_def)
  then have "distinct (map mb_end (sort_key mb_end ?f))" by (simp add: distinct_map inj_on_def)
  then have "sorted_wrt (<) (map mb_end (sort_key mb_end ?f))"
    by (simp add: strict_sorted_iff)
  then show ?thesis by (simp add: store_window_def row_of_bar_def comp_def)
qed

lemma window_lookup:
  assumes "store_ok tbl" and "a \<le> t" and "t \<le> z"
  shows "map_of (map (\<lambda>r. (br_end r, r)) (store_window k a z tbl)) t = map_option row_of_bar (bar_at tbl k t)"
proof -
  let ?w = "store_window k a z tbl"
  have dist: "distinct (map fst (map (\<lambda>r. (br_end r, r)) ?w))"
    using window_ascending[OF assms(1), of k a z] by (simp add: comp_def strict_sorted_iff)
  show ?thesis
  proof (cases "bar_at tbl k t")
    case None
    then have "t \<notin> br_end ` set ?w" using window_rows[OF assms(1)] by (auto simp: image_iff)
    then have "map_of (map (\<lambda>r. (br_end r, r)) ?w) t = None" by (auto simp: map_of_eq_None_iff)
    then show ?thesis using None by simp
  next
    case (Some b)
    then have "mb_end b = t" using assms(1) by (simp add: bar_at_member)
    then have "row_of_bar b \<in> set ?w"
      using Some assms by (simp add: window_rows row_of_bar_def)
    then have "(t, row_of_bar b) \<in> set (map (\<lambda>r. (br_end r, r)) ?w)"
      using \<open>mb_end b = t\<close> by (force simp: row_of_bar_def)
    then show ?thesis using dist Some by (simp add: map_of_eq_Some_iff)
  qed
qed

lemma window_prune:
  assumes "cutoff - retention_minutes * minute_ms \<le> a"
  shows "store_window k a z (store_prune cutoff tbl) = store_window k a z tbl"
proof -
  have "filter (\<lambda>b. mb_key b = k \<and> a \<le> mb_end b \<and> mb_end b \<le> z) (store_prune cutoff tbl)
      = filter (\<lambda>b. mb_key b = k \<and> a \<le> mb_end b \<and> mb_end b \<le> z) tbl"
    using assms unfolding store_prune_def filter_filter by (intro filter_cong) auto
  then show ?thesis by (simp add: store_window_def)
qed

section \<open>Reading back what was stored\<close>

text \<open>
  C39. Stored bars are read back: after a successful \<open>put\<close> the table keeps its invariant, a window is
  strictly ascending in time, and at every minute of it stands the last of the given bars for that
  key and minute, or the row that was there before.  Pruning does not shorten a history window.
\<close>

theorem put_window_roundtrip:
  assumes "store_ok tbl" and "list_all (\<lambda>b. valid_bar b = Inr ()) bars"
    and "store_put bars now tbl = (Inr n, tbl')"
  shows "store_ok tbl' \<and> n = length bars
    \<and> sorted_wrt (<) (map br_end (store_window k a z tbl'))
    \<and> (\<forall>t. a \<le> t \<longrightarrow> t \<le> z \<longrightarrow>
         map_of (map (\<lambda>r. (br_end r, r)) (store_window k a z tbl')) t
           = map_option row_of_bar
               (case find (\<lambda>b. mb_key b = k \<and> mb_end b = t) (rev bars) of
                  Some b \<Rightarrow> Some b | None \<Rightarrow> bar_at tbl k t))
    \<and> store_window k (cutoff - history_minutes * minute_ms) cutoff (store_prune cutoff tbl')
        = store_window k (cutoff - history_minutes * minute_ms) cutoff tbl'"
proof -
  have tbl': "tbl' = fold put_bar bars tbl" "n = length bars"
    using assms(3) by (auto simp: store_put_def split: if_splits)
  have ok: "store_ok tbl'" using assms(1,2) by (simp add: tbl' store_ok_fold)
  show ?thesis
    using ok window_ascending[OF ok] window_lookup[OF ok]
    by (auto simp: tbl' bar_at_fold intro!: window_prune) (simp add: ranking_times)
qed

definition flat_bar :: "string \<Rightarrow> int \<Rightarrow> rat \<Rightarrow> minute_bar" where
  "flat_bar key t price = \<lparr>mb_key = key, mb_end = t, mb_open = FFin price, mb_high = FFin price,
     mb_low = FFin price, mb_close = FFin price, mb_turnover = FFin 10\<rparr>"

lemma put_window_roundtrip_witness:
  "store_window ''k'' 0 120000 (snd (store_put [flat_bar ''k'' 120000 5, flat_bar ''k'' 60000 7] 120001
      [flat_bar ''k'' 60000 6])) = map row_of_bar [flat_bar ''k'' 60000 7, flat_bar ''k'' 120000 5]
   \<and> store_ok (snd (store_put [flat_bar ''k'' 120000 5, flat_bar ''k'' 60000 7] 120001 [flat_bar ''k'' 60000 6]))"
proof -
  let ?old = "[flat_bar ''k'' 60000 6]" and ?new = "[flat_bar ''k'' 120000 5, flat_bar ''k'' 60000 7]"
  have "store_ok ?old" "list_all (\<lambda>b. valid_bar b = Inr ()) ?new" by code_simp+
  moreover have "store_put ?new 120001 ?old = (Inr 2, snd (store_put ?new 120001 ?old))" by code_simp
  ultimately have "store_ok (snd (store_put ?new 120001 ?old))"
    using put_window_roundtrip[of ?old ?new 120001 2 _ "''k''" 0 120000] by blast
  moreover have "store_window ''k'' 0 120000 (snd (store_put ?new 120001 ?old))
      = map row_of_bar [flat_bar ''k'' 60000 7, flat_bar ''k'' 120000 5]" by code_simp
  ultimately show ?thesis by simp
qed

end
