(* ===== verification/Ranking_Series.thy ===== *)
theory Ranking_Series
  imports Ranking_Store
begin

text \<open>
  The period calculation of \<open>ranking.py\<close> over one reference: its minute series with prefix sums,
  the change and the turnover over a period, the turnover ratio and the position in the day's range.
\<close>

section \<open>Indicators\<close>

datatype ind_status = IReady | IHistoryMissing | INoBaseline | IUnsupportedPeriod | IStarting
  | INoRange | IInvalidData | IReferenceUnavailable

record indicator =
  in_value :: "pyfloat option"
  in_status :: ind_status

definition only_status :: "ind_status \<Rightarrow> indicator" where
  "only_status st = \<lparr>in_value = None, in_status = st\<rparr>"

definition ready_indicator :: "pyfloat \<Rightarrow> indicator result" where
  "ready_indicator v =
     (if float_finite v then Inr \<lparr>in_value = Some v, in_status = IReady\<rparr>
      else raise_exn ValueError ''Input should be a finite number'')"

text \<open>\<open>math.fsum\<close> of finite numbers: the exact sum, rounded once.\<close>

definition f_fsum :: "pyfloat list \<Rightarrow> pyfloat result" where
  "f_fsum xs = (let s = f_round (sum_list (map fval xs))
     in if float_finite s then Inr s else raise_exn OverflowError ''intermediate overflow in fsum'')"

text \<open>\<open>statistics.median\<close>; its \<open>StatisticsError\<close> is a \<open>ValueError\<close>.\<close>

definition f_median :: "pyfloat list \<Rightarrow> pyfloat result" where
  "f_median xs =
     (let s = sort_key fval xs; n = length xs
      in if n = 0 then raise_exn ValueError ''no median for empty data''
         else if odd n then Inr (s ! (n div 2))
         else (case f_div (f_add (s ! (n div 2 - 1)) (s ! (n div 2))) (FFin 2) of
                 None \<Rightarrow> raise_exn ZeroDivisionError ''float division by zero'' | Some m \<Rightarrow> Inr m))"

definition slices :: "'a list \<Rightarrow> nat \<Rightarrow> 'a list list" where
  "slices xs k = map (\<lambda>i. take k (drop (i * k) xs)) [0..<(length xs + k - 1) div k]"

definition ratio_of_windows :: "pyfloat list \<Rightarrow> indicator result" where
  "ratio_of_windows windows =
     and_then (f_median (butlast windows)) (\<lambda>baseline.
       if f_eq baseline (FFin 0) then Inr (only_status INoBaseline)
       else (case f_div (last windows) baseline of
               None \<Rightarrow> raise_exn ZeroDivisionError ''float division by zero''
             | Some ratio \<Rightarrow> if float_finite ratio then ready_indicator ratio
                             else Inr (only_status IInvalidData)))"

definition catch_overflow :: "indicator result \<Rightarrow> indicator result" where
  "catch_overflow r =
     (case r of Inl e \<Rightarrow> if exn_class e = OverflowError then Inr (only_status IInvalidData) else Inl e
      | Inr x \<Rightarrow> Inr x)"

definition turnover_ratio :: "pyfloat option list \<Rightarrow> nat \<Rightarrow> indicator result" where
  "turnover_ratio turnovers minutes =
     (if length turnovers \<noteq> 1440 \<or> None \<in> set turnovers then Inr (only_status IHistoryMissing)
      else if \<exists>v\<in>set (map the turnovers). \<not> float_finite v \<or> fval v < 0 then Inr (only_status IInvalidData)
      else if minutes = 0 then raise_exn ValueError ''range() arg 3 must not be zero''
      else catch_overflow (and_then (map_ok f_fsum (slices (map the turnovers) minutes)) ratio_of_windows))"

definition jst_midnight :: "int \<Rightarrow> int" where
  "jst_midnight cutoff = (cutoff + jst_ms) div day_ms * day_ms - jst_ms"

definition bad_row :: "bar_row \<Rightarrow> bool" where
  "bad_row r \<longleftrightarrow>
     (\<exists>v\<in>{br_close r, br_high r, br_low r}. \<not> float_finite v \<or> fval v \<le> 0)
     \<or> \<not> (f_le (br_low r) (br_close r) \<and> f_le (br_close r) (br_high r))"

definition max_high :: "bar_row list \<Rightarrow> pyfloat" where
  "max_high rs = FFin (fold max (map (fval \<circ> br_high) (tl rs)) (fval (br_high (hd rs))))"

definition min_low :: "bar_row list \<Rightarrow> pyfloat" where
  "min_low rs = FFin (fold min (map (fval \<circ> br_low) (tl rs)) (fval (br_low (hd rs))))"

definition day_range_position :: "int \<Rightarrow> bar_row list \<Rightarrow> indicator result" where
  "day_range_position cutoff rows =
     (let start = jst_midnight cutoff;
          today = filter (\<lambda>r. start < br_end r \<and> br_end r \<le> cutoff) rows
      in if start = cutoff then Inr (only_status IStarting)
         else if map br_end today \<noteq> py_range (start + minute_ms) (cutoff + minute_ms) minute_ms then
           Inr (only_status IHistoryMissing)
         else if \<exists>r\<in>set today. bad_row r then Inr (only_status IInvalidData)
         else if today = [] then raise_exn ValueError ''max() iterable argument is empty''
         else
           (let high = max_high today; low = min_low today
            in if high = low then Inr (only_status INoRange)
               else (case f_div (f_sub (br_close (last today)) low) (f_sub high low) of
                       None \<Rightarrow> raise_exn ZeroDivisionError ''float division by zero''
                     | Some q \<Rightarrow>
                         (let position = f_mul q (FFin 100)
                          in if \<not> float_finite position \<or> \<not> (0 \<le> fval position \<and> fval position \<le> 100)
                             then Inr (only_status IInvalidData)
                             else ready_indicator position))))"

section \<open>Anchors\<close>

datatype period = P15m | P1h | P24h | PDaily

fun digit_val :: "char \<Rightarrow> int option" where
  "digit_val c = (let n = (of_char c :: nat) in if 48 \<le> n \<and> n \<le> 57 then Some (int n - 48) else None)"

text \<open>\<open>HH:mm\<close> as the regular expression accepts it, with the two numbers.\<close>

fun parse_hhmm :: "string \<Rightarrow> (int \<times> int) option" where
  "parse_hhmm [a, b, c, d, e] =
     (case (digit_val a, digit_val b, digit_val d, digit_val e) of
        (Some h1, Some h2, Some m1, Some m2) \<Rightarrow>
          if c = CHR '':'' \<and> (h1 \<le> 1 \<or> h1 = 2 \<and> h2 \<le> 3) \<and> m1 \<le> 5
          then Some (10 * h1 + h2, 10 * m1 + m2) else None
      | _ \<Rightarrow> None)"
| "parse_hhmm _ = None"

text \<open>\<open>None\<close> is a period text that is none of the four.\<close>

definition anchor_at :: "int \<Rightarrow> period option \<Rightarrow> string \<Rightarrow> int result" where
  "anchor_at cutoff per reference =
     (case parse_hhmm reference of
        None \<Rightarrow> raise_exn ValueError ''dailyReferenceJst must be HH:mm''
      | Some (hours, minutes) \<Rightarrow>
          if cutoff mod minute_ms \<noteq> 0 then raise_exn ValueError ''cutoff must be a minute boundary''
          else (case per of
             Some P15m \<Rightarrow> Inr (cutoff - 15 * minute_ms)
           | Some P1h \<Rightarrow> Inr (cutoff - 60 * minute_ms)
           | Some P24h \<Rightarrow> Inr (cutoff - day_ms)
           | None \<Rightarrow> raise_exn ValueError ''unknown ranking period''
           | Some PDaily \<Rightarrow>
               (let anchor = jst_midnight cutoff + (hours * 60 + minutes) * minute_ms
                in Inr (if cutoff < anchor then anchor - day_ms else anchor))))"

declare ratio_of_windows_def [unfold_code] catch_overflow_def [unfold_code] only_status_def [unfold_code] ready_indicator_def [unfold_code] f_fsum_def [unfold_code]
  f_median_def [unfold_code] slices_def [unfold_code] turnover_ratio_def [unfold_code]
  jst_midnight_def [unfold_code] bad_row_def [unfold_code] max_high_def [unfold_code]
  min_low_def [unfold_code] day_range_position_def [unfold_code] anchor_at_def [unfold_code]

section \<open>The series\<close>

record turnover_window =
  tw_anchor :: int
  tw_cutoff :: int
  tw_quote :: "pyfloat option"
  tw_status :: ind_status

text \<open>The validators of \<open>TurnoverWindow\<close>.\<close>

definition mk_turnover_window :: "int \<Rightarrow> int \<Rightarrow> pyfloat option \<Rightarrow> ind_status \<Rightarrow> turnover_window result" where
  "mk_turnover_window anchor cutoff quote st =
     (if st \<notin> {IReady, IHistoryMissing, IStarting, IInvalidData, IReferenceUnavailable} then
        raise_exn ValueError ''Input should be a turnover window status''
      else if (case quote of None \<Rightarrow> False | Some v \<Rightarrow> \<not> float_finite v \<or> fval v < 0) then
        raise_exn ValueError ''Input should be a finite number that is not negative''
      else if cutoff < anchor \<or> anchor mod minute_ms \<noteq> 0 \<or> cutoff mod minute_ms \<noteq> 0 then
        raise_exn ValueError ''invalid turnover window''
      else if (st = IReady) \<noteq> (quote \<noteq> None) then
        raise_exn ValueError ''only ready turnover windows can contain a value''
      else Inr \<lparr>tw_anchor = anchor, tw_cutoff = cutoff, tw_quote = quote, tw_status = st\<rparr>)"

record series =
  se_first :: int
  se_closes :: "pyfloat list"
  se_totals :: "pyfloat list"
  se_missing :: "nat list"
  se_ratio_15m :: indicator
  se_ratio_1h :: indicator
  se_position :: indicator

fun prefix_totals :: "pyfloat \<Rightarrow> pyfloat option list \<Rightarrow> pyfloat list" where
  "prefix_totals t [] = [t]"
| "prefix_totals t (v # vs) =
     t # prefix_totals (f_add t (case v of None \<Rightarrow> FFin 0 | Some x \<Rightarrow> x)) vs"

fun prefix_missing :: "nat \<Rightarrow> pyfloat option list \<Rightarrow> nat list" where
  "prefix_missing n [] = [n]"
| "prefix_missing n (v # vs) = n # prefix_missing (n + (if v = None then 1 else 0)) vs"

definition place_row :: "int \<Rightarrow> bar_row \<Rightarrow> pyfloat option list \<times> pyfloat option list
    \<Rightarrow> (pyfloat option list \<times> pyfloat option list) result" where
  "place_row first r acc =
     (let k = (br_end r - first) div minute_ms
      in and_then (py_set (fst acc) k (Some (br_close r))) (\<lambda>closes.
         and_then (py_set (snd acc) k (Some (br_turnover r))) (\<lambda>turnovers. Inr (closes, turnovers))))"

definition series_from_rows :: "int \<Rightarrow> int \<Rightarrow> bar_row list \<Rightarrow> series result" where
  "series_from_rows first cutoff rows =
     (let size = nat ((cutoff - first) div minute_ms + 1)
      in and_then (try_fold (place_row first) rows (replicate size None, replicate size None)) (\<lambda>(closes, turnovers).
         let recent = drop (length turnovers - 1440) turnovers
         in and_then (turnover_ratio recent 15) (\<lambda>ratio_15m.
            and_then (turnover_ratio recent 60) (\<lambda>ratio_1h.
            and_then (day_range_position cutoff rows) (\<lambda>position.
              Inr \<lparr>se_first = first,
                   se_closes = map (\<lambda>v. case v of None \<Rightarrow> FFin 0 | Some x \<Rightarrow> x) closes,
                   se_totals = prefix_totals (FFin 0) turnovers,
                   se_missing = prefix_missing 0 turnovers,
                   se_ratio_15m = ratio_15m, se_ratio_1h = ratio_1h, se_position = position\<rparr>)))))"

definition close_at :: "series \<Rightarrow> int \<Rightarrow> pyfloat option result" where
  "close_at s i = and_then (py_nth (se_closes s) i) (\<lambda>v. Inr (if f_eq v (FFin 0) then None else Some v))"

datatype row_state = Ready | Starting | HistoryMissing | SourceDelayed | SourceUnavailable
  | MappingReview | Unsupported | OutOfScope | Filtered | DirectionExcluded | InvalidData | ReferenceInvalid

type_synonym projection = "pyfloat option \<times> pyfloat option \<times> row_state"

definition series_index :: "series \<Rightarrow> int \<Rightarrow> int" where
  "series_index s t = (t - se_first s) div minute_ms"

definition calculate_change :: "pyfloat \<Rightarrow> pyfloat \<Rightarrow> pyfloat result" where
  "calculate_change close base = (case f_div close base of
     None \<Rightarrow> raise_exn ZeroDivisionError ''float division by zero''
   | Some q \<Rightarrow> Inr (f_mul (f_sub q (FFin 1)) (FFin 100)))"

definition calculate :: "series \<Rightarrow> int \<Rightarrow> int \<Rightarrow> projection result" where
  "calculate s anchor cutoff =
     (if anchor = cutoff then Inr (None, None, Starting)
      else
        (let start = series_index s anchor; final = series_index s cutoff
         in and_then (close_at s final) (\<lambda>close. case close of
              None \<Rightarrow> Inr (None, None, SourceDelayed)
            | Some close \<Rightarrow>
              and_then (close_at s start) (\<lambda>base. case base of
                None \<Rightarrow> Inr (None, None, HistoryMissing)
              | Some base \<Rightarrow>
                and_then (py_nth (se_missing s) (final + 1)) (\<lambda>m1.
                and_then (py_nth (se_missing s) (start + 1)) (\<lambda>m0.
                  if m1 \<noteq> m0 then Inr (None, None, HistoryMissing)
                  else
                    and_then (py_nth (se_totals s) (final + 1)) (\<lambda>t1.
                    and_then (py_nth (se_totals s) (start + 1)) (\<lambda>t0.
                    and_then (calculate_change close base) (\<lambda>change.
                      (let turnover = f_sub t1 t0
                       in if \<not> float_finite change \<or> \<not> float_finite turnover then Inr (None, None, InvalidData)
                          else Inr (Some change,
                                 Some (if f_less (FFin 0) turnover then turnover else FFin 0), Ready)))))))))))"

definition turnover_window :: "series \<Rightarrow> int \<Rightarrow> int \<Rightarrow> turnover_window result" where
  "turnover_window s anchor cutoff =
     (if anchor = cutoff then mk_turnover_window anchor cutoff None IStarting
      else
        (let start = series_index s anchor; final = series_index s cutoff
         in if start < 0 \<or> int (length (se_closes s)) \<le> final then
              mk_turnover_window anchor cutoff None IHistoryMissing
            else
              and_then (py_nth (se_missing s) (final + 1)) (\<lambda>m1.
              and_then (py_nth (se_missing s) (start + 1)) (\<lambda>m0.
                if m1 \<noteq> m0 then mk_turnover_window anchor cutoff None IHistoryMissing
                else
                  and_then (py_nth (se_totals s) (final + 1)) (\<lambda>t1.
                  and_then (py_nth (se_totals s) (start + 1)) (\<lambda>t0.
                    (let total = f_sub t1 t0
                     in if \<not> float_finite total \<or> fval total < 0
                        then mk_turnover_window anchor cutoff None IInvalidData
                        else mk_turnover_window anchor cutoff (Some total) IReady)))))))"

definition compare_turnover :: "turnover_window \<Rightarrow> turnover_window \<Rightarrow> indicator result" where
  "compare_turnover current baseline =
     (if tw_status current \<noteq> IReady then Inr (only_status (tw_status current))
      else if tw_status baseline \<noteq> IReady then Inr (only_status (tw_status baseline))
      else (case (tw_quote current, tw_quote baseline) of
              (Some c, Some b) \<Rightarrow>
                if f_eq b (FFin 0) then Inr (only_status INoBaseline)
                else (case f_div c b of
                        None \<Rightarrow> raise_exn ZeroDivisionError ''float division by zero''
                      | Some ratio \<Rightarrow> if float_finite ratio then ready_indicator ratio
                                      else Inr (only_status IInvalidData))
            | _ \<Rightarrow> raise_exn AssertionError []))"

record turnover_comparison =
  tc_current :: turnover_window
  tc_previous_day :: turnover_window
  tc_two_days_ago :: turnover_window
  tc_previous_ratio :: indicator
  tc_two_days_ratio :: indicator

definition shifted_window :: "series option \<Rightarrow> int \<Rightarrow> int \<Rightarrow> int \<Rightarrow> turnover_window result" where
  "shifted_window s anchor cutoff shift =
     (case s of
        Some s \<Rightarrow> turnover_window s (anchor - shift * day_ms) (cutoff - shift * day_ms)
      | None \<Rightarrow> mk_turnover_window (anchor - shift * day_ms) (cutoff - shift * day_ms) None IReferenceUnavailable)"

definition turnover_comparison :: "series option \<Rightarrow> int \<Rightarrow> int \<Rightarrow> turnover_comparison result" where
  "turnover_comparison s anchor cutoff =
     and_then (shifted_window s anchor cutoff 0) (\<lambda>w0.
     and_then (shifted_window s anchor cutoff 1) (\<lambda>w1.
     and_then (shifted_window s anchor cutoff 2) (\<lambda>w2.
     and_then (compare_turnover w0 w1) (\<lambda>r1.
     and_then (compare_turnover w0 w2) (\<lambda>r2.
       Inr \<lparr>tc_current = w0, tc_previous_day = w1, tc_two_days_ago = w2,
            tc_previous_ratio = r1, tc_two_days_ratio = r2\<rparr>)))))"

declare mk_turnover_window_def [unfold_code] place_row_def [unfold_code] series_from_rows_def [unfold_code]
  close_at_def [unfold_code] series_index_def [unfold_code] calculate_change_def [unfold_code]
  calculate_def [unfold_code] turnover_window_def [unfold_code] compare_turnover_def [unfold_code]
  shifted_window_def [unfold_code] turnover_comparison_def [unfold_code]

section \<open>The indicators never raise\<close>

lemma f_median_odd: "odd (length xs) \<Longrightarrow> \<exists>m. f_median xs = Inr m"
  by (auto simp: f_median_def Let_def)

lemma length_slices [simp]: "length (slices xs k) = (length xs + k - 1) div k"
  by (simp add: slices_def)

lemma f_fsum_raises: "f_fsum xs = Inl e \<Longrightarrow> exn_class e = OverflowError"
  by (auto simp: f_fsum_def Let_def split: if_splits)

lemma f_div_None: "f_div x y = None \<longleftrightarrow> y = FFin 0"
  by (cases "(x, y)" rule: f_div.cases) auto

lemma ratio_of_windows_total: "odd (length (butlast w)) \<Longrightarrow> \<exists>r. ratio_of_windows w = Inr r"
  using f_median_odd[of "butlast w"]
  by (auto simp: ratio_of_windows_def f_div_None f_eq_def ready_indicator_def split: option.split)

lemma turnover_ratio_total:
  assumes "minutes = 15 \<or> minutes = 60"
  shows "\<exists>r. turnover_ratio ts minutes = Inr r"
proof (cases "length ts = 1440")
  case len: True
  let ?w = "map_ok f_fsum (slices (map the ts) minutes)"
  have "\<exists>r. catch_overflow (and_then ?w ratio_of_windows) = Inr r"
  proof (cases ?w)
    case (Inl e)
    obtain x where "f_fsum x = Inl e" using map_ok_raises[OF Inl] by blast
    then have "exn_class e = OverflowError" by (rule f_fsum_raises)
    with Inl show ?thesis by (simp add: catch_overflow_def)
  next
    case (Inr w)
    then have "length (slices (map the ts) minutes) = length w"
      unfolding map_ok_Inr by (rule list_all2_lengthD)
    then have "length w = (1440 + minutes - 1) div minutes" using len by simp
    then have "odd (length (butlast w))" using assms by auto
    then obtain r where "ratio_of_windows w = Inr r" using ratio_of_windows_total by blast
    with Inr show ?thesis by (simp add: catch_overflow_def)
  qed
  moreover have "minutes \<noteq> 0" using assms by auto
  ultimately show ?thesis by (simp add: turnover_ratio_def)
qed (simp add: turnover_ratio_def)

text \<open>The rows of a series hold Python floats.\<close>

definition float_rows :: "bar_row list \<Rightarrow> bool" where
  "float_rows rs \<longleftrightarrow> (\<forall>r\<in>set rs. is_float (br_high r) \<and> is_float (br_low r))"

lemma fold_choice_member:
  assumes "\<And>a b. f a b = a \<or> f a b = b"
  shows "fold f xs (x :: 'a) \<in> insert x (set xs)"
proof (induction xs arbitrary: x)
  case (Cons y ys)
  then show ?case using assms[of y x] by (metis fold_simps(2) insert_iff list.simps(15))
qed simp

lemma finite_is_float: "float_finite v \<Longrightarrow> is_float v \<Longrightarrow> representable (fval v)"
  by (cases v) auto

lemma extreme_representable:
  assumes "rs \<noteq> []" "float_rows rs" "\<forall>r\<in>set rs. \<not> bad_row r"
  shows "representable (fval (max_high rs))" "representable (fval (min_low rs))"
proof -
  obtain r rest where rs: "rs = r # rest" using assms(1) by (cases rs) auto
  have rep: "representable (fval (br_high x))" "representable (fval (br_low x))" if "x \<in> set rs" for x
    using that assms by (auto simp: float_rows_def bad_row_def intro!: finite_is_float)
  have "fold max (map (fval \<circ> br_high) rest) (fval (br_high r)) \<in> (fval \<circ> br_high) ` set rs"
    using fold_choice_member[of max "map (fval \<circ> br_high) rest" "fval (br_high r)"] by (auto simp: rs max_def)
  then show "representable (fval (max_high rs))" using rep by (auto simp: max_high_def rs)
  have "fold min (map (fval \<circ> br_low) rest) (fval (br_low r)) \<in> (fval \<circ> br_low) ` set rs"
    using fold_choice_member[of min "map (fval \<circ> br_low) rest" "fval (br_low r)"] by (auto simp: rs min_def)
  then show "representable (fval (min_low rs))" using rep by (auto simp: min_low_def rs)
qed

lemma jst_midnight_bounds: "jst_midnight cutoff \<le> cutoff" "cutoff < jst_midnight cutoff + day_ms"
  using mult_div_mod_eq[of day_ms "cutoff + jst_ms"] pos_mod_sign[of day_ms "cutoff + jst_ms"]
    pos_mod_bound[of day_ms "cutoff + jst_ms"]
  by (simp_all add: jst_midnight_def ranking_times algebra_simps)

lemma day_range_position_total:
  assumes "float_rows rows"
  shows "\<exists>r. day_range_position cutoff rows = Inr r"
proof -
  let ?start = "jst_midnight cutoff"
  let ?today = "filter (\<lambda>r. ?start < br_end r \<and> br_end r \<le> cutoff) rows"
  consider "?start = cutoff"
    | "map br_end ?today \<noteq> py_range (?start + minute_ms) (cutoff + minute_ms) minute_ms" "?start \<noteq> cutoff"
    | "\<exists>r\<in>set ?today. bad_row r" "?start \<noteq> cutoff"
    | "?start \<noteq> cutoff" "map br_end ?today = py_range (?start + minute_ms) (cutoff + minute_ms) minute_ms"
      "\<forall>r\<in>set ?today. \<not> bad_row r"
    by blast
  then show ?thesis
  proof cases
    case 4
    have "?start < cutoff" using 4(1) jst_midnight_bounds(1)[of cutoff] by simp
    then have "0 < - ((?start - cutoff) div minute_ms)"
      by (simp add: minute_ms_def)
    then have ne: "?today \<noteq> []" using 4(2) by (auto simp: py_range_def)
    have "float_rows ?today" using assms by (auto simp: float_rows_def)
    then have rep: "representable (fval (max_high ?today))" "representable (fval (min_low ?today))"
      using extreme_representable[OF ne _ 4(3)] by blast+
    have "f_sub (max_high ?today) (min_low ?today) \<noteq> FFin 0" if "max_high ?today \<noteq> min_low ?today"
      using that rep f_sub_distinct by (auto simp: max_high_def min_low_def)
    then show ?thesis using 4 ne
      by (auto simp: day_range_position_def Let_def f_div_None ready_indicator_def split: option.splits)
  qed (auto simp: day_range_position_def Let_def)
qed

section \<open>Building a series from the table\<close>

definition history_start :: "int \<Rightarrow> int" where
  "history_start cutoff = cutoff - history_minutes * minute_ms"

text \<open>The series of one reference in a generation.\<close>

definition series_of_store :: "bar_table \<Rightarrow> string \<Rightarrow> int \<Rightarrow> series result" where
  "series_of_store tbl key cutoff =
     series_from_rows (history_start cutoff) cutoff (store_window key (history_start cutoff) cutoff tbl)"

declare history_start_def [unfold_code] series_of_store_def [unfold_code]

definition slot :: "int \<Rightarrow> bar_row \<Rightarrow> nat" where
  "slot first r = nat ((br_end r - first) div minute_ms)"

lemma place_rows:
  assumes "\<forall>r\<in>set rows. first \<le> br_end r \<and> slot first r < N" and "length cs = N" "length ts = N"
  shows "\<exists>cs' ts'. try_fold (place_row first) rows (cs, ts) = Inr (cs', ts')
    \<and> length cs' = N \<and> length ts' = N
    \<and> (\<forall>i<N. cs' ! i = (case find (\<lambda>r. slot first r = i) (rev rows) of Some r \<Rightarrow> Some (br_close r) | None \<Rightarrow> cs ! i))
    \<and> (\<forall>i<N. ts' ! i = (case find (\<lambda>r. slot first r = i) (rev rows) of Some r \<Rightarrow> Some (br_turnover r) | None \<Rightarrow> ts ! i))"
  using assms
proof (induction rows arbitrary: cs ts)
  case (Cons r rows)
  let ?k = "slot first r"
  have k: "(br_end r - first) div minute_ms = int ?k" "?k < N"
    using Cons.prems(1) by (simp_all add: slot_def pos_imp_zdiv_nonneg_iff)
  have step: "place_row first r (cs, ts) = Inr (cs[?k := Some (br_close r)], ts[?k := Some (br_turnover r)])"
    using k Cons.prems by (simp add: place_row_def)
  obtain cs' ts' where run: "try_fold (place_row first) rows
        (cs[?k := Some (br_close r)], ts[?k := Some (br_turnover r)]) = Inr (cs', ts')"
      and len: "length cs' = N" "length ts' = N"
      and vals: "\<forall>i<N. cs' ! i = (case find (\<lambda>r. slot first r = i) (rev rows) of Some x \<Rightarrow> Some (br_close x)
            | None \<Rightarrow> cs[?k := Some (br_close r)] ! i)"
        "\<forall>i<N. ts' ! i = (case find (\<lambda>r. slot first r = i) (rev rows) of Some x \<Rightarrow> Some (br_turnover x)
            | None \<Rightarrow> ts[?k := Some (br_turnover r)] ! i)"
    using Cons.IH[of "cs[?k := Some (br_close r)]" "ts[?k := Some (br_turnover r)]"] Cons.prems by auto
  show ?case
    using step run len vals Cons.prems k(2)
    by (intro exI[of _ cs'] exI[of _ ts']) (simp add: find_append nth_list_update split: option.split)
qed simp

lemma length_prefix_missing [simp]: "length (prefix_missing n xs) = Suc (length xs)"
  by (induction n xs rule: prefix_missing.induct) auto

lemma length_prefix_totals [simp]: "length (prefix_totals t xs) = Suc (length xs)"
  by (induction t xs rule: prefix_totals.induct) auto

lemma prefix_missing_nth:
  "i \<le> length xs \<Longrightarrow> prefix_missing n xs ! i = n + length (filter (\<lambda>v. v = None) (take i xs))"
  by (induction n xs arbitrary: i rule: prefix_missing.induct) (auto simp: nth_Cons' take_Cons')

lemma all_shifted: "(\<forall>k < j - i. Q (i + k)) \<longleftrightarrow> (\<forall>k. i \<le> k \<and> k < (j::nat) \<longrightarrow> Q k)"
proof (intro iffI allI impI)
  fix k assume "\<forall>k < j - i. Q (i + k)" and "i \<le> k \<and> k < j"
  then show "Q k" by (metis diff_less_mono le_add_diff_inverse)
qed auto

text \<open>Two prefix counts agree exactly when no minute between them is missing.\<close>

lemma prefix_missing_equal:
  assumes "i \<le> j" and "j \<le> length xs"
  shows "prefix_missing 0 xs ! j = prefix_missing 0 xs ! i \<longleftrightarrow> (\<forall>k. i \<le> k \<and> k < j \<longrightarrow> xs ! k \<noteq> None)"
proof -
  have "take j xs = take i xs @ take (j - i) (drop i xs)"
    using assms by (metis le_add_diff_inverse take_add)
  then have "prefix_missing 0 xs ! j = prefix_missing 0 xs ! i
      \<longleftrightarrow> filter (\<lambda>v. v = None) (take (j - i) (drop i xs)) = []"
    using assms by (simp add: prefix_missing_nth)
  also have "\<dots> \<longleftrightarrow> (\<forall>k < j - i. xs ! (i + k) \<noteq> None)"
    using assms by (auto simp: filter_empty_conv in_set_conv_nth)
  also have "\<dots> \<longleftrightarrow> (\<forall>k. i \<le> k \<and> k < j \<longrightarrow> xs ! k \<noteq> None)"
    by (rule all_shifted)
  finally show ?thesis .
qed

definition history_size :: nat where "history_size = 4321"

definition minute_at :: "int \<Rightarrow> nat \<Rightarrow> int" where
  "minute_at cutoff i = history_start cutoff + int i * minute_ms"

definition series_ok :: "bar_table \<Rightarrow> string \<Rightarrow> int \<Rightarrow> series \<Rightarrow> bool" where
  "series_ok tbl key cutoff s \<longleftrightarrow>
     se_first s = history_start cutoff \<and> length (se_closes s) = history_size
     \<and> (\<forall>i<history_size. se_closes s ! i =
          (case bar_at tbl key (minute_at cutoff i) of None \<Rightarrow> FFin 0 | Some b \<Rightarrow> mb_close b))
     \<and> (\<exists>ts. length ts = history_size \<and> se_totals s = prefix_totals (FFin 0) ts
          \<and> se_missing s = prefix_missing 0 ts
          \<and> (\<forall>i<history_size. ts ! i = map_option mb_turnover (bar_at tbl key (minute_at cutoff i))))"

definition float_bars :: "bar_table \<Rightarrow> bool" where
  "float_bars tbl \<longleftrightarrow> (\<forall>b\<in>set tbl. \<forall>v\<in>set (bar_values b). is_float v)"

text \<open>Every stored minute of the window has its place, and its place tells its minute.\<close>

lemma window_slots:
  assumes "store_ok tbl" and "minute_ms dvd cutoff"
    and "r \<in> set (store_window key (history_start cutoff) cutoff tbl)"
  shows "history_start cutoff \<le> br_end r" "slot (history_start cutoff) r < history_size"
    "minute_at cutoff (slot (history_start cutoff) r) = br_end r"
proof -
  obtain b where b: "bar_at tbl key (br_end r) = Some b" and lo: "history_start cutoff \<le> br_end r"
      and hi: "br_end r \<le> cutoff"
    using assms(3) window_rows[OF assms(1)] by auto
  then have "b \<in> set tbl" "mb_end b = br_end r" using assms(1) by (auto simp: bar_at_member)
  then have "minute_ms dvd br_end r"
    using assms(1) valid_barD(2)[of b] by (auto simp: store_ok_def list_all_iff)
  then have dvd: "minute_ms dvd br_end r - history_start cutoff"
    using assms(2) by (simp add: history_start_def)
  then obtain k where k: "br_end r - history_start cutoff = minute_ms * k" by (auto simp: dvd_def)
  then have "0 \<le> k" using lo by (smt (verit) minute_ms_pos zero_le_mult_iff)
  then have slot: "slot (history_start cutoff) r = nat k" by (simp add: slot_def k minute_ms_def)
  show "history_start cutoff \<le> br_end r" by (rule lo)
  show "slot (history_start cutoff) r < history_size"
    using k hi \<open>0 \<le> k\<close> unfolding slot history_size_def
    by (simp add: history_start_def history_minutes_def minute_ms_def)
  show "minute_at cutoff (slot (history_start cutoff) r) = br_end r"
    using k \<open>0 \<le> k\<close> by (simp add: slot minute_at_def algebra_simps)
qed

lemma window_find:
  assumes "store_ok tbl" and "minute_ms dvd cutoff" and "i < history_size"
  shows "find (\<lambda>r. slot (history_start cutoff) r = i) (rev (store_window key (history_start cutoff) cutoff tbl))
    = map_option row_of_bar (bar_at tbl key (minute_at cutoff i))"
proof -
  let ?w = "store_window key (history_start cutoff) cutoff tbl"
  have range: "history_start cutoff \<le> minute_at cutoff i" "minute_at cutoff i \<le> cutoff"
    using assms(3) by (auto simp: minute_at_def history_start_def history_size_def ranking_times)
  have slot_iff: "slot (history_start cutoff) r = i \<longleftrightarrow> br_end r = minute_at cutoff i" if "r \<in> set ?w" for r
    using window_slots(3)[OF assms(1,2) that] by (auto simp: minute_at_def minute_ms_def)
  show ?thesis
  proof (cases "bar_at tbl key (minute_at cutoff i)")
    case None
    have "slot (history_start cutoff) r \<noteq> i" if r: "r \<in> set ?w" for r
    proof
      assume "slot (history_start cutoff) r = i"
      then have "br_end r = minute_at cutoff i" using slot_iff r by blast
      moreover obtain b where "bar_at tbl key (br_end r) = Some b"
        using r unfolding window_rows[OF assms(1)] by blast
      ultimately show False using None by simp
    qed
    then show ?thesis using None by (auto simp: find_None_iff)
  next
    case (Some b)
    have in_w: "row_of_bar b \<in> set ?w" and end_b: "br_end (row_of_bar b) = minute_at cutoff i"
      using Some range assms(1) by (auto simp: window_rows[OF assms(1)] row_of_bar_def bar_at_member)
    have "slot (history_start cutoff) (row_of_bar b) = i" using slot_iff[OF in_w] end_b by simp
    with in_w have "find (\<lambda>r. slot (history_start cutoff) r = i) (rev ?w) \<noteq> None"
      unfolding find_None_iff by auto
    then obtain r where r: "find (\<lambda>r. slot (history_start cutoff) r = i) (rev ?w) = Some r" by blast
    then have "r \<in> set ?w" "slot (history_start cutoff) r = i"
      using find_SomeD[OF r] by simp_all
    then have "br_end r = minute_at cutoff i" "\<exists>b. bar_at tbl key (br_end r) = Some b \<and> r = row_of_bar b"
      using slot_iff window_rows[OF assms(1)] by auto
    with Some r show ?thesis by auto
  qed
qed

lemma history_size_span: "nat ((cutoff - history_start cutoff) div minute_ms + 1) = history_size"
  by (simp add: history_start_def history_size_def ranking_times)

lemma window_floats:
  assumes "store_ok tbl" and "float_bars tbl"
  shows "float_rows (store_window key a z tbl)"
  using assms
  by (force simp: float_rows_def window_rows float_bars_def bar_at_member row_of_bar_def bar_values_def)

lemma series_of_store_ok:
  assumes "store_ok tbl" and "float_bars tbl" and "minute_ms dvd cutoff"
  shows "\<exists>s. series_of_store tbl key cutoff = Inr s \<and> series_ok tbl key cutoff s"
proof -
  let ?first = "history_start cutoff" and ?w = "store_window key (history_start cutoff) cutoff tbl"
  let ?none = "replicate history_size None"
  have fit: "\<forall>r\<in>set ?w. ?first \<le> br_end r \<and> slot ?first r < history_size"
    using window_slots[OF assms(1,3)] by blast
  obtain cs ts where run: "try_fold (place_row ?first) ?w (?none, ?none) = Inr (cs, ts)"
      and len: "length cs = history_size" "length ts = history_size"
      and cs: "\<forall>i<history_size. cs ! i = (case find (\<lambda>r. slot ?first r = i) (rev ?w) of
          Some r \<Rightarrow> Some (br_close r) | None \<Rightarrow> ?none ! i)"
      and ts: "\<forall>i<history_size. ts ! i = (case find (\<lambda>r. slot ?first r = i) (rev ?w) of
          Some r \<Rightarrow> Some (br_turnover r) | None \<Rightarrow> ?none ! i)"
    using place_rows[OF fit, of ?none ?none] by auto
  obtain r15 r60 pos where ind: "turnover_ratio (drop (length ts - 1440) ts) 15 = Inr r15"
      "turnover_ratio (drop (length ts - 1440) ts) 60 = Inr r60" "day_range_position cutoff ?w = Inr pos"
    using turnover_ratio_total day_range_position_total[OF window_floats[OF assms(1,2)]] by metis
  have "series_of_store tbl key cutoff = Inr \<lparr>se_first = ?first,
      se_closes = map (\<lambda>v. case v of None \<Rightarrow> FFin 0 | Some x \<Rightarrow> x) cs,
      se_totals = prefix_totals (FFin 0) ts, se_missing = prefix_missing 0 ts,
      se_ratio_15m = r15, se_ratio_1h = r60, se_position = pos\<rparr>"
    unfolding series_of_store_def series_from_rows_def Let_def history_size_span run
    by (simp only: and_then_simps prod.case ind)
  moreover have "\<forall>i<history_size. cs ! i = map_option mb_close (bar_at tbl key (minute_at cutoff i))"
    "\<forall>i<history_size. ts ! i = map_option mb_turnover (bar_at tbl key (minute_at cutoff i))"
    using cs ts window_find[OF assms(1,3)] by (auto simp: row_of_bar_def split: option.splits)
  ultimately show ?thesis
    using len by (auto simp: series_ok_def split: option.split)
qed

section \<open>When a period has a value\<close>

lemma close_at_series:
  assumes "series_ok tbl key cutoff s" and "store_ok tbl" and "i < history_size"
  shows "close_at s (int i) = Inr (map_option mb_close (bar_at tbl key (minute_at cutoff i)))"
proof -
  have "mb_close b \<noteq> FFin 0" if "bar_at tbl key (minute_at cutoff i) = Some b" for b
  proof -
    have "0 < fval (mb_close b)"
      using that assms(2) valid_barD(7)[of b] by (auto simp: bar_at_member store_ok_def list_all_iff)
    then show ?thesis by auto
  qed
  then show ?thesis
    using assms by (auto simp: close_at_def series_ok_def f_eq_def split: option.splits)
qed

lemma minute_index:
  assumes "minute_ms dvd cutoff" "minute_ms dvd t" "history_start cutoff \<le> t" "t \<le> cutoff"
  obtains i where "t = minute_at cutoff i" "i < history_size" "(t - history_start cutoff) div minute_ms = int i"
proof -
  have "minute_ms dvd t - history_start cutoff" using assms by (simp add: history_start_def)
  then obtain k where k: "t - history_start cutoff = minute_ms * k" by (auto simp: dvd_def)
  then have "0 \<le> k" using assms(3) by (smt (verit) minute_ms_pos zero_le_mult_iff)
  show ?thesis
  proof (rule that[of "nat k"])
    show "t = minute_at cutoff (nat k)" using k \<open>0 \<le> k\<close> by (simp add: minute_at_def algebra_simps)
    show "nat k < history_size"
      using k assms(4) \<open>0 \<le> k\<close> by (simp add: history_size_def history_start_def history_minutes_def minute_ms_def)
    show "(t - history_start cutoff) div minute_ms = int (nat k)" using k \<open>0 \<le> k\<close> by (simp add: minute_ms_def)
  qed
qed

lemma missing_between:
  assumes ok: "series_ok tbl key cutoff s" and "i \<le> j" "j < history_size"
  shows "se_missing s ! Suc j = se_missing s ! Suc i
    \<longleftrightarrow> (\<forall>k. i < k \<and> k \<le> j \<longrightarrow> bar_at tbl key (minute_at cutoff k) \<noteq> None)"
proof -
  obtain ts where ts: "length ts = history_size" "se_missing s = prefix_missing 0 ts"
      "\<forall>i<history_size. ts ! i = map_option mb_turnover (bar_at tbl key (minute_at cutoff i))"
    using ok unfolding series_ok_def by blast
  have "se_missing s ! Suc j = se_missing s ! Suc i \<longleftrightarrow> (\<forall>k. Suc i \<le> k \<and> k < Suc j \<longrightarrow> ts ! k \<noteq> None)"
    using assms ts unfolding ts(2) by (intro prefix_missing_equal) auto
  also have "\<dots> \<longleftrightarrow> (\<forall>k. i < k \<and> k \<le> j \<longrightarrow> bar_at tbl key (minute_at cutoff k) \<noteq> None)"
    using ts(3) assms(3) by (auto simp: Suc_le_eq less_Suc_eq_le)
  finally show ?thesis .
qed

lemma series_lengths:
  assumes "series_ok tbl key cutoff s"
  shows "length (se_closes s) = history_size" "length (se_missing s) = Suc history_size"
    "length (se_totals s) = Suc history_size" "se_first s = history_start cutoff"
  using assms by (auto simp: series_ok_def)

definition complete_between :: "bar_table \<Rightarrow> string \<Rightarrow> int \<Rightarrow> int \<Rightarrow> bool" where
  "complete_between tbl key a z \<longleftrightarrow>
     (\<forall>t. a \<le> t \<and> t \<le> z \<and> minute_ms dvd t \<longrightarrow> bar_at tbl key t \<noteq> None)"

lemma complete_between_iff:
  assumes "minute_ms dvd cutoff" and "a = minute_at cutoff i" "z = minute_at cutoff j" and "j < history_size"
  shows "complete_between tbl key a z
    \<longleftrightarrow> (\<forall>k. i \<le> k \<and> k \<le> j \<longrightarrow> bar_at tbl key (minute_at cutoff k) \<noteq> None)"
proof
  assume c: "complete_between tbl key a z"
  show "\<forall>k. i \<le> k \<and> k \<le> j \<longrightarrow> bar_at tbl key (minute_at cutoff k) \<noteq> None"
  proof (intro allI impI)
    fix k assume "i \<le> k \<and> k \<le> j"
    then show "bar_at tbl key (minute_at cutoff k) \<noteq> None"
      using c assms by (auto simp: complete_between_def minute_at_def history_start_def minute_ms_def)
  qed
next
  assume c: "\<forall>k. i \<le> k \<and> k \<le> j \<longrightarrow> bar_at tbl key (minute_at cutoff k) \<noteq> None"
  show "complete_between tbl key a z"
    unfolding complete_between_def
  proof (intro allI impI)
    fix t assume t: "a \<le> t \<and> t \<le> z \<and> minute_ms dvd t"
    have "history_start cutoff \<le> t" "t \<le> cutoff"
      using t assms by (auto simp: minute_at_def history_start_def history_size_def ranking_times)
    then obtain k where k: "t = minute_at cutoff k" "k < history_size"
      using minute_index[OF assms(1), of t] t by blast
    then have "i \<le> k \<and> k \<le> j" using t assms by (auto simp: minute_at_def minute_ms_def)
    then show "bar_at tbl key t \<noteq> None" using c k by simp
  qed
qed

lemma complete_between_Suc:
  assumes "i \<le> (j::nat)"
  shows "(\<forall>k. i \<le> k \<and> k \<le> j \<longrightarrow> Q k) \<longleftrightarrow> Q i \<and> (\<forall>k. i < k \<and> k \<le> j \<longrightarrow> Q k)"
  using assms by (auto simp: le_less)

lemma calculate_change_total: "base \<noteq> FFin 0 \<Longrightarrow> \<exists>c. calculate_change close base = Inr c"
  by (auto simp: calculate_change_def f_div_None split: option.split)

text \<open>The result of a period, by what the table holds.\<close>

lemma calculate_cases:
  assumes "store_ok tbl" and s: "series_ok tbl key cutoff s" and "minute_ms dvd cutoff" "minute_ms dvd anchor"
    and "history_start cutoff \<le> anchor" "anchor < cutoff"
  obtains (delayed) "bar_at tbl key cutoff = None" "calculate s anchor cutoff = Inr (None, None, SourceDelayed)"
  | (missing) "bar_at tbl key cutoff \<noteq> None" "\<not> complete_between tbl key anchor cutoff"
      "calculate s anchor cutoff = Inr (None, None, HistoryMissing)"
  | (complete) c b change t0 t1 where "bar_at tbl key cutoff = Some c" "bar_at tbl key anchor = Some b"
      "complete_between tbl key anchor cutoff" "calculate_change (mb_close c) (mb_close b) = Inr change"
      "calculate s anchor cutoff = Inr
        (if \<not> float_finite change \<or> \<not> float_finite (f_sub t1 t0) then (None, None, InvalidData)
         else (Some change, Some (if f_less (FFin 0) (f_sub t1 t0) then f_sub t1 t0 else FFin 0), Ready))"
proof -
  note len = series_lengths[OF s]
  have first: "history_start cutoff \<le> cutoff" using assms(5,6) by simp
  obtain j where j: "cutoff = minute_at cutoff j" "j < history_size"
      "(cutoff - history_start cutoff) div minute_ms = int j"
    using minute_index[OF assms(3,3) first order_refl] by metis
  obtain i where i: "anchor = minute_at cutoff i" "i < history_size"
      "(anchor - history_start cutoff) div minute_ms = int i"
    using minute_index[OF assms(3,4,5)] assms(6) by (metis less_imp_le)
  have "minute_at cutoff i < minute_at cutoff j" using assms(6) i(1) j(1) by simp
  then have ij: "i < j" by (simp add: minute_at_def minute_ms_def)
  have idx: "series_index s anchor = int i" "series_index s cutoff = int j"
    by (simp_all add: series_index_def len i(3) j(3))
  have closes: "close_at s (int j) = Inr (map_option mb_close (bar_at tbl key cutoff))"
    "close_at s (int i) = Inr (map_option mb_close (bar_at tbl key anchor))"
    using close_at_series[OF s assms(1)] i j by metis+
  have bound: "Suc j < length (se_missing s)" "Suc i < length (se_missing s)"
    "Suc j < length (se_totals s)" "Suc i < length (se_totals s)"
    using i j len by simp_all
  have nth: "py_nth (se_missing s) (int j + 1) = Inr (se_missing s ! Suc j)"
    "py_nth (se_missing s) (int i + 1) = Inr (se_missing s ! Suc i)"
    "py_nth (se_totals s) (int j + 1) = Inr (se_totals s ! Suc j)"
    "py_nth (se_totals s) (int i + 1) = Inr (se_totals s ! Suc i)"
    using py_nth_nat[OF bound(1)] py_nth_nat[OF bound(2)] py_nth_nat[OF bound(3)] py_nth_nat[OF bound(4)]
    by (simp_all add: add.commute)
  have comp_iff: "complete_between tbl key anchor cutoff \<longleftrightarrow>
      bar_at tbl key anchor \<noteq> None \<and> se_missing s ! Suc j = se_missing s ! Suc i"
    using complete_between_iff[OF assms(3) i(1) j(1,2)] complete_between_Suc[of i j]
      missing_between[OF s _ j(2), of i] ij i(1) by simp
  note unfold = calculate_def idx Let_def closes and_then_simps nth
  show thesis
  proof (cases "bar_at tbl key cutoff")
    case None
    then show ?thesis using assms(6) by (intro delayed) (auto simp: unfold)
  next
    case (Some c)
    show ?thesis
    proof (cases "complete_between tbl key anchor cutoff")
      case False
      show ?thesis
      proof (rule missing)
        show "bar_at tbl key cutoff \<noteq> None" "\<not> complete_between tbl key anchor cutoff" using Some False by auto
        show "calculate s anchor cutoff = Inr (None, None, HistoryMissing)"
          using Some False assms(6) comp_iff by (auto simp: unfold split: option.split)
      qed
    next
      case True
      then obtain b where b: "bar_at tbl key anchor = Some b" using comp_iff by auto
      then have "0 < fval (mb_close b)"
        using assms(1) valid_barD(7)[of b] by (auto simp: bar_at_member store_ok_def list_all_iff)
      then obtain change where change: "calculate_change (mb_close c) (mb_close b) = Inr change"
        using calculate_change_total[of "mb_close b"] by force
      show ?thesis
      proof (rule complete[OF Some b True change])
        show "calculate s anchor cutoff = Inr
            (if \<not> float_finite change \<or> \<not> float_finite (f_sub (se_totals s ! Suc j) (se_totals s ! Suc i))
             then (None, None, InvalidData)
             else (Some change, Some (if f_less (FFin 0) (f_sub (se_totals s ! Suc j) (se_totals s ! Suc i))
               then f_sub (se_totals s ! Suc j) (se_totals s ! Suc i) else FFin 0), Ready))"
          using Some b True change assms(6) comp_iff by (auto simp: unfold)
      qed
    qed
  qed
qed


definition sample_bars :: bar_table where
  "sample_bars = [flat_bar ''k'' 600000000 100, flat_bar ''k'' 599940000 80]"


lemma digit_range: "digit_val c = Some d \<Longrightarrow> 0 \<le> d \<and> d \<le> 9"
  by (auto simp: Let_def split: if_splits)

declare digit_val.simps [simp del]

lemma hhmm_range: "parse_hhmm r = Some (h, m) \<Longrightarrow> 0 \<le> h \<and> h < 24 \<and> 0 \<le> m \<and> m < 60"
  by (cases r rule: parse_hhmm.cases) (auto split: option.splits if_splits dest!: digit_range)

lemma daily_anchor:
  fixes cutoff :: int
  assumes clk: "0 \<le> h \<and> h < 24 \<and> 0 \<le> m \<and> m < 60"
  defines "x \<equiv> jst_midnight cutoff + (h * 60 + m) * minute_ms"
  defines "a \<equiv> if cutoff < x then x - day_ms else x"
  shows "a \<le> cutoff \<and> cutoff - a < day_ms \<and> minute_ms dvd a \<and> (a + jst_ms) mod day_ms = (60 * h + m) * minute_ms"
proof -
  define q where "q = (cutoff + jst_ms) div day_ms"
  have mid: "jst_midnight cutoff = q * day_ms - jst_ms" by (simp add: jst_midnight_def q_def)
  define off where "off = h * 60 + m"
  have off: "0 \<le> off" "off < 1440" using clk by (auto simp: off_def)
  define p where "p = (if cutoff < x then q - 1 else q)"
  have p: "a + jst_ms = p * day_ms + off * minute_ms"
    unfolding a_def x_def mid off_def[symmetric] p_def by (simp add: algebra_simps)
  have "a \<le> cutoff" "cutoff - a < day_ms"
    using jst_midnight_bounds[of cutoff] off
    unfolding a_def x_def mid off_def[symmetric] by (auto simp: ranking_times)
  moreover have "(a + jst_ms) mod day_ms = off * minute_ms" using off unfolding p by (simp add: ranking_times)
  moreover have "a = p * day_ms + off * minute_ms - jst_ms" using p by simp
  then have "minute_ms dvd a" by (simp add: ranking_times)
  ultimately show ?thesis by (simp add: off_def mult.commute)
qed

lemma anchor_general:
  "case anchor_at cutoff per reference of
     Inl e \<Rightarrow> exn_class e = ValueError \<and> (parse_hhmm reference = None \<or> cutoff mod minute_ms \<noteq> 0 \<or> per = None)
   | Inr a \<Rightarrow> minute_ms dvd cutoff \<and> minute_ms dvd a \<and> a \<le> cutoff \<and> cutoff - a \<le> day_ms
       \<and> history_start cutoff \<le> a - 2 * day_ms
       \<and> (case per of
            Some P15m \<Rightarrow> a = cutoff - 15 * minute_ms
          | Some P1h \<Rightarrow> a = cutoff - 60 * minute_ms
          | Some P24h \<Rightarrow> a = cutoff - day_ms
          | Some PDaily \<Rightarrow> cutoff - a < day_ms
              \<and> (\<exists>h m. parse_hhmm reference = Some (h, m) \<and> 0 \<le> h \<and> h < 24 \<and> 0 \<le> m \<and> m < 60
                   \<and> (a + jst_ms) mod day_ms = (60 * h + m) * minute_ms)
          | None \<Rightarrow> False)"
proof (cases "parse_hhmm reference")
  case None
  then show ?thesis by (simp add: anchor_at_def raise_exn_def)
next
  case (Some hm)
  obtain h m where hm: "hm = (h, m)" by (cases hm)
  show ?thesis
  proof (cases "per = Some PDaily \<and> minute_ms dvd cutoff")
    case True
    then show ?thesis
      using daily_anchor[OF hhmm_range[OF Some[unfolded hm]], of cutoff] hhmm_range[OF Some[unfolded hm]] Some
      by (simp add: anchor_at_def hm history_start_def history_minutes_def day_ms_def Let_def dvd_eq_mod_eq_0)
  next
    case other: False
    show ?thesis
    proof (cases "cutoff mod minute_ms = 0")
      case True
      then obtain k where "cutoff = minute_ms * k" by (auto simp: dvd_def dvd_eq_mod_eq_0[symmetric])
      then have "minute_ms dvd cutoff - 15 * minute_ms" "minute_ms dvd cutoff - 60 * minute_ms"
        "minute_ms dvd cutoff - day_ms" "minute_ms dvd cutoff"
        by (auto simp: ranking_times)
      then show ?thesis
        using other Some True
        by (cases per; cases "the per")
           (simp_all add: anchor_at_def hm raise_exn_def history_start_def history_minutes_def day_ms_def
             less_imp_le[OF minute_ms_pos])
    next
      case False
      then show ?thesis using Some by (simp add: anchor_at_def hm raise_exn_def)
    qed
  qed
qed

text \<open>
  The anchor of a period lies before its cutoff and inside the kept history: for a whole minute
  the fixed periods go back 15 minutes, one hour and one day, and the daily anchor is the last
  moment at or before the cutoff, less than a day back, that shows the requested \<open>HH:mm\<close> on a
  Japanese clock.  A text that is not such a time, or a cutoff inside a minute, is a \<open>ValueError\<close>.
\<close>

theorem anchor_bounds:
  "case anchor_at cutoff per reference of
     Inl e \<Rightarrow> exn_class e = ValueError \<and> (parse_hhmm reference = None \<or> cutoff mod minute_ms \<noteq> 0 \<or> per = None)
   | Inr a \<Rightarrow> minute_ms dvd cutoff \<and> minute_ms dvd a \<and> a \<le> cutoff \<and> cutoff - a \<le> day_ms
       \<and> history_start cutoff \<le> a - 2 * day_ms
       \<and> (case per of
            Some P15m \<Rightarrow> a = cutoff - 15 * minute_ms
          | Some P1h \<Rightarrow> a = cutoff - 60 * minute_ms
          | Some P24h \<Rightarrow> a = cutoff - day_ms
          | Some PDaily \<Rightarrow> cutoff - a < day_ms
              \<and> (\<exists>h m. parse_hhmm reference = Some (h, m) \<and> 0 \<le> h \<and> h < 24 \<and> 0 \<le> m \<and> m < 60
                   \<and> (a + jst_ms) mod day_ms = (60 * h + m) * minute_ms)
          | None \<Rightarrow> False)"
  by (rule anchor_general)

theorem anchor_bounds_witness:
  "\<exists>a. anchor_at 1728000000000 (Some P1h) ''09:00'' = Inr a \<and> minute_ms dvd a \<and> a = 1728000000000 - 60 * minute_ms"
proof -
  have "is_ok (anchor_at 1728000000000 (Some P1h) ''09:00'')" by code_simp
  then obtain a where "anchor_at 1728000000000 (Some P1h) ''09:00'' = Inr a" by (auto simp: is_ok_iff)
  then show ?thesis using anchor_bounds[where cutoff = 1728000000000 and per = "Some P1h" and reference = "''09:00''"] by simp
qed

end
