(* ===== verification/Ranking_Map.thy ===== *)
theory Ranking_Map
  imports Ranking_Series Market_Models
begin

text \<open>
  The reviewed mapping of the ranking service and the health of its roster (\<open>models.py\<close>,
  \<open>mapping.py\<close>).  A record is what the pydantic class of that name holds; the \<open>check_\<close> functions
  are its validators, in the order in which pydantic runs them.
\<close>

section \<open>The mapping\<close>

datatype provider = Bybit | Binance

fun provider_text :: "provider \<Rightarrow> string" where
  "provider_text Bybit = ''bybit''"
| "provider_text Binance = ''binance''"

fun provider_upper :: "provider \<Rightarrow> string" where
  "provider_upper Bybit = ''BYBIT''"
| "provider_upper Binance = ''BINANCE''"

record reference =
  rf_provider :: provider
  rf_symbol :: string
  rf_base :: string
  rf_multiplier :: int
  rf_revision :: string

definition reference_key :: "reference \<Rightarrow> string" where
  "reference_key r = provider_text (rf_provider r) @ '':'' @ rf_symbol r @ '':'' @ rf_revision r"

definition word_char :: "char \<Rightarrow> bool" where
  "word_char c \<longleftrightarrow>
     (let n = (of_char c :: nat)
      in 48 \<le> n \<and> n \<le> 57 \<or> 65 \<le> n \<and> n \<le> 90 \<or> n = 95 \<or> 97 \<le> n \<and> n \<le> 122
         \<or> n \<in> {170, 178, 179, 181, 185, 186, 188, 189, 190} \<or> 192 \<le> n \<and> n \<noteq> 215 \<and> n \<noteq> 247)"

definition check_reference :: "reference \<Rightarrow> unit result" where
  "check_reference r =
     (if rf_symbol r = [] \<or> 80 < length (rf_symbol r) \<or> rf_base r = [] \<or> rf_multiplier r \<le> 0 \<or> rf_revision r = []
      then raise_exn ValueError ''Input does not satisfy its field constraint''
      else if \<not> list_all word_char (rf_symbol r) then raise_exn ValueError ''invalid public contract symbol''
      else Inr ())"

datatype widget_status = WSupported | WUnsupported | WReview

record widget =
  wg_status :: widget_status
  wg_symbol :: "string option"
  wg_reason :: "string option"
  wg_evidence :: "string list"
  wg_reference_key :: "string option"

record original =
  og_venue :: venue
  og_id :: string
  og_version :: int
  og_symbol :: string
  og_base :: string
  og_multiplier :: "int option"

datatype mapping_status = MVerified | MUnsupported | MReview | MOutOfScope

record mapping_row =
  mr_id :: string
  mr_asset :: string
  mr_status :: mapping_status
  mr_reason :: "string option"
  mr_originals :: "original list"
  mr_reference :: "reference option"
  mr_widget :: widget
  mr_evidence :: "string list"

text \<open>Python's truth value of an optional text.\<close>

definition truthy :: "string option \<Rightarrow> bool" where
  "truthy x \<longleftrightarrow> (case x of None \<Rightarrow> False | Some s \<Rightarrow> s \<noteq> [])"

definition starts_with :: "string \<Rightarrow> string \<Rightarrow> bool" where
  "starts_with p s \<longleftrightarrow> take (length p) s = p"

definition ends_with :: "string \<Rightarrow> string \<Rightarrow> bool" where
  "ends_with p s \<longleftrightarrow> starts_with (rev p) (rev s)"

definition check_status :: "mapping_row \<Rightarrow> unit result" where
  "check_status m =
     (if mr_status m = MVerified then
        (if mr_reference m = None \<or> mr_evidence m = []
         then raise_exn ValueError ''verified mapping requires reference and evidence'' else Inr ())
      else if mr_reference m \<noteq> None then raise_exn ValueError ''unverified mapping cannot acquire prices''
      else if mr_status m \<in> {MUnsupported, MOutOfScope} \<and> (\<not> truthy (mr_reason m) \<or> mr_evidence m = [])
      then raise_exn ValueError ''excluded mapping requires a reason and evidence''
      else Inr ())"

definition check_widget :: "mapping_row \<Rightarrow> unit result" where
  "check_widget m =
     (let w = mr_widget m
      in if wg_status w = WSupported then
           (case (mr_reference m, wg_symbol w) of
              (Some r, Some sy) \<Rightarrow>
                if sy = [] \<or> wg_evidence w = [] then
                  raise_exn ValueError ''supported Widget requires independent evidence''
                else if \<not> starts_with (provider_upper (rf_provider r) @ '':'') sy \<or> \<not> ends_with ''.P'' sy
                        \<or> wg_reference_key w \<noteq> Some (reference_key r) then
                  raise_exn ValueError ''Widget contract differs from reference''
                else Inr ()
            | _ \<Rightarrow> raise_exn ValueError ''supported Widget requires independent evidence'')
         else if wg_symbol w \<noteq> None then
           raise_exn ValueError ''unverified Widget must not have a usable symbol''
         else if mr_status m = MVerified \<and> wg_status w = WUnsupported \<and>
                 (\<not> truthy (wg_reason w) \<or> wg_evidence w = []) then
           raise_exn ValueError ''unsupported Widget requires a reason and evidence''
         else Inr ())"

definition check_mapping_row :: "mapping_row \<Rightarrow> unit result" where
  "check_mapping_row m =
     (if mr_originals m = [] then raise_exn ValueError ''mapping must retain original instruments''
      else and_then (check_status m) (\<lambda>_. check_widget m))"

record ranking_map =
  rm_version :: string
  rm_verified_at :: int
  rm_roster_generated_at :: int
  rm_fingerprint :: string
  rm_source :: string
  rm_count :: int
  rm_rows :: "mapping_row list"

definition check_map :: "ranking_map \<Rightarrow> unit result" where
  "check_map m =
     (let ids = concat (map (\<lambda>row. map og_id (mr_originals row)) (rm_rows m));
          refs = concat (map (\<lambda>row. case mr_reference row of None \<Rightarrow> [] | Some r \<Rightarrow> [reference_key r]) (rm_rows m))
      in if int (length ids) \<noteq> rm_count m \<or> \<not> distinct ids then
           raise_exn ValueError ''mapping has duplicate or missing original instruments''
         else if \<not> distinct (map mr_id (rm_rows m)) then raise_exn ValueError ''duplicate row identity''
         else if \<not> distinct refs then
           raise_exn ValueError ''same reference must be represented by one row''
         else Inr ())"

record qualification =
  qs_review :: nat
  qs_quantity_review :: nat
  qs_widget_review :: nat
  qs_ranking_qualified :: bool
  qs_quantity_qualified :: bool
  qs_widget_qualified :: bool
  qs_complete :: bool

definition qualification_summary :: "ranking_map \<Rightarrow> qualification" where
  "qualification_summary m =
     (let review = length (filter (\<lambda>row. mr_status row = MReview) (rm_rows m));
          quantity = length (filter (\<lambda>og. og_multiplier og = None) (concat (map mr_originals (rm_rows m))));
          widgets = length (filter (\<lambda>row. wg_status (mr_widget row) = WReview) (rm_rows m))
      in \<lparr>qs_review = review, qs_quantity_review = quantity, qs_widget_review = widgets,
          qs_ranking_qualified = (review = 0), qs_quantity_qualified = (quantity = 0),
          qs_widget_qualified = (widgets = 0),
          qs_complete = (review = quantity \<and> quantity = widgets \<and> widgets = 0)\<rparr>)"

section \<open>The roster\<close>

datatype roster_status = RReady | RReviewRequired | RUnavailable | RStale | RIncomplete | RInvalid | RUnconfigured

record roster_health =
  rh_status :: roster_status
  rh_observed_at :: "int option"
  rh_instruments :: "int option"
  rh_added :: "string list"
  rh_removed :: "string list"
  rh_changed :: "string list"
  rh_issues :: "string list option"

definition catalog_max_age_ms :: int where "catalog_max_age_ms = 30 * minute_ms"

definition check_health :: "roster_health \<Rightarrow> unit result" where
  "check_health h =
     (if (case rh_observed_at h of None \<Rightarrow> False | Some t \<Rightarrow> t < 0)
         \<or> (case rh_instruments h of None \<Rightarrow> False | Some n \<Rightarrow> n < 0) then
        raise_exn ValueError ''Input should be greater than or equal to 0''
      else if rh_status h \<in> {RReady, RReviewRequired} \<and> (rh_observed_at h = None \<or> rh_instruments h = None) then
        raise_exn ValueError ''catalog observation requires time and instrument count''
      else if rh_status h = RReady \<and> (rh_added h \<noteq> [] \<or> rh_removed h \<noteq> [] \<or> rh_changed h \<noteq> []) then
        raise_exn ValueError ''unreviewed roster changes cannot be ready''
      else Inr ())"

definition health_of_status :: "roster_status \<Rightarrow> int option \<Rightarrow> roster_health" where
  "health_of_status st observed = \<lparr>rh_status = st, rh_observed_at = observed, rh_instruments = None,
     rh_added = [], rh_removed = [], rh_changed = [], rh_issues = None\<rparr>"

definition health_at_time :: "roster_health \<Rightarrow> int \<Rightarrow> roster_health" where
  "health_at_time h now =
     (case rh_observed_at h of
        None \<Rightarrow> h
      | Some t \<Rightarrow> if catalog_max_age_ms < now - t then health_of_status RStale (Some t) else h)"

text \<open>One entry of the extracted roster, with the identity fields that are compared.\<close>

record roster_entry =
  re_venue :: venue
  re_id :: string
  re_version :: int
  re_symbol :: string
  re_base :: string

definition identity_changed :: "roster_entry \<Rightarrow> original \<Rightarrow> bool" where
  "identity_changed e a \<longleftrightarrow> re_version e \<noteq> og_version a \<or> re_venue e \<noteq> og_venue a
     \<or> re_symbol e \<noteq> og_symbol a \<or> re_base e \<noteq> og_base a"

text \<open>\<open>{item[key]: item for ...}\<close>: the last entry of a key wins.\<close>

definition dict_of :: "('a \<Rightarrow> 'k) \<Rightarrow> 'a list \<Rightarrow> 'k \<Rightarrow> 'a option" where
  "dict_of f xs = map_of (rev (map (\<lambda>x. (f x, x)) xs))"

definition compare_roster :: "ranking_map \<Rightarrow> string \<Rightarrow> roster_entry list \<Rightarrow> string list option \<Rightarrow> int \<Rightarrow> roster_health" where
  "compare_roster m fingerprint items issues observed =
     (let adopted_list = concat (map mr_originals (rm_rows m));
          current_ids = remdups (map re_id items);
          adopted_ids = remdups (map og_id adopted_list);
          added = sort (filter (\<lambda>i. i \<notin> set adopted_ids) current_ids);
          removed = sort (filter (\<lambda>i. i \<notin> set current_ids) adopted_ids);
          differs = (\<lambda>i. case (dict_of re_id items i, dict_of og_id adopted_list i) of
             (Some e, Some a) \<Rightarrow> identity_changed e a | _ \<Rightarrow> False);
          changed = filter differs (sort (filter (\<lambda>i. i \<in> set adopted_ids) current_ids));
          matched = fingerprint = rm_fingerprint m \<and> int (length current_ids) = rm_count m
            \<and> added = [] \<and> removed = [] \<and> changed = []
      in \<lparr>rh_status = (if matched then RReady else RReviewRequired), rh_observed_at = Some observed,
          rh_instruments = Some (int (length current_ids)), rh_added = added, rh_removed = removed,
          rh_changed = changed, rh_issues = issues\<rparr>)"

declare reference_key_def [unfold_code] word_char_def [unfold_code] check_reference_def [unfold_code]
  truthy_def [unfold_code] starts_with_def [unfold_code] ends_with_def [unfold_code]
  check_status_def [unfold_code] check_widget_def [unfold_code] check_mapping_row_def [unfold_code]
  check_map_def [unfold_code] qualification_summary_def [unfold_code] catalog_max_age_ms_def [unfold_code]
  check_health_def [unfold_code] health_of_status_def [unfold_code] health_at_time_def [unfold_code]
  identity_changed_def [unfold_code] dict_of_def [unfold_code] compare_roster_def [unfold_code]

end
