(* ===== verification/Ranking_Generation.thy ===== *)
theory Ranking_Generation
  imports Ranking_Map "HOL-Library.Multiset"
begin

text \<open>
  \<open>Generation\<close> of \<open>ranking.py\<close>: one immutable input (a mapping, a cutoff, a series per reference)
  and the responses computed from it.  The input is \<open>gen_input\<close>; the two bounded caches, which are
  the only mutable state, are \<open>gen_caches\<close> and are threaded through the calls.
\<close>

section \<open>Inputs\<close>

record gen_input =
  gi_map :: ranking_map
  gi_cutoff :: int
  gi_generated_at :: int
  gi_roster_checked_at :: int
  gi_roster_health :: roster_health
  gi_metric :: string
  gi_unavailable :: "string list"
  gi_disconnected :: "provider list"
  gi_invalid :: "string list"
  gi_series :: "(string \<times> series) list"

definition metric_version :: string where
  "metric_version = ''trade-close-quote-turnover-analysis-v4''"

definition series_entry :: "bar_table \<Rightarrow> int \<Rightarrow> mapping_row \<Rightarrow> (string \<times> series) list result" where
  "series_entry tbl cutoff row =
     (case mr_reference row of
        None \<Rightarrow> Inr []
      | Some r \<Rightarrow> and_then (series_of_store tbl (reference_key r) cutoff) (\<lambda>s. Inr [(mr_id row, s)]))"

definition make_generation :: "ranking_map \<Rightarrow> int \<Rightarrow> int \<Rightarrow> bar_table \<Rightarrow> string list \<Rightarrow> provider list \<Rightarrow> string list
    \<Rightarrow> int option \<Rightarrow> roster_health option \<Rightarrow> gen_input result" where
  "make_generation m cutoff generated_at tbl unavailable disconnected invalid checked health =
     (if cutoff mod minute_ms \<noteq> 0 \<or> generated_at < cutoff then
        raise_exn ValueError ''invalid generation cutoff''
      else
        and_then (map_ok (series_entry tbl cutoff) (rm_rows m)) (\<lambda>entries.
          Inr \<lparr>gi_map = m, gi_cutoff = cutoff, gi_generated_at = generated_at,
            gi_roster_checked_at = (case checked of None \<Rightarrow> rm_roster_generated_at m | Some t \<Rightarrow> t),
            gi_roster_health = (case health of None \<Rightarrow> health_of_status RUnconfigured None | Some h \<Rightarrow> h),
            gi_metric = metric_version, gi_unavailable = unavailable, gi_disconnected = disconnected,
            gi_invalid = invalid, gi_series = concat entries\<rparr>))"

definition generation_id :: "gen_input \<Rightarrow> string" where
  "generation_id g = rm_version (gi_map g) @ '':'' @ int_text (gi_cutoff g) @ '':'' @ int_text (gi_generated_at g)"

definition blocked_key :: "gen_input \<Rightarrow> string \<Rightarrow> bool" where
  "blocked_key g key \<longleftrightarrow> key \<in> set (gi_invalid g) \<or> key \<in> set (gi_unavailable g)"

definition series_for :: "gen_input \<Rightarrow> string \<Rightarrow> series result" where
  "series_for g row_id = (case map_of (rev (gi_series g)) row_id of
     None \<Rightarrow> raise_exn KeyError row_id | Some s \<Rightarrow> Inr s)"

section \<open>Windows\<close>

record ranking_window =
  rw_anchor :: int
  rw_return :: "pyfloat option"
  rw_turnover :: "pyfloat option"
  rw_state :: row_state

datatype windows = Windows (win_15m: ranking_window) (win_1h: ranking_window) (win_24h: ranking_window)
  (win_daily: ranking_window)

fun window_of :: "windows \<Rightarrow> period \<Rightarrow> ranking_window" where
  "window_of w P15m = win_15m w"
| "window_of w P1h = win_1h w"
| "window_of w P24h = win_24h w"
| "window_of w PDaily = win_daily w"

text \<open>Collect one window for every period, in the order of the dict.\<close>

definition all_windows :: "(period \<Rightarrow> ranking_window result) \<Rightarrow> windows result" where
  "all_windows f =
     and_then (f P15m) (\<lambda>a. and_then (f P1h) (\<lambda>b. and_then (f P24h) (\<lambda>c. and_then (f PDaily) (\<lambda>d.
       Inr (Windows a b c d)))))"

definition window_state :: "gen_input \<Rightarrow> reference \<Rightarrow> projection \<Rightarrow> projection" where
  "window_state g r p =
     (case p of (change, turnover, st) \<Rightarrow>
        if reference_key r \<in> set (gi_invalid g) then (None, None, ReferenceInvalid)
        else if reference_key r \<in> set (gi_unavailable g) then (None, None, SourceUnavailable)
        else if st = SourceDelayed \<and> rf_provider r \<in> set (gi_disconnected g) then (change, turnover, SourceUnavailable)
        else (change, turnover, st))"

definition project_window :: "gen_input \<Rightarrow> reference \<Rightarrow> series \<Rightarrow> int \<Rightarrow> ranking_window result" where
  "project_window g r s point =
     and_then (calculate s point (gi_cutoff g)) (\<lambda>p.
       case window_state g r p of (change, turnover, st) \<Rightarrow>
         Inr \<lparr>rw_anchor = point, rw_return = change, rw_turnover = turnover, rw_state = st\<rparr>)"

definition close_indicator :: "gen_input \<Rightarrow> reference \<Rightarrow> series \<Rightarrow> indicator result" where
  "close_indicator g r s =
     and_then (close_at s (- 1)) (\<lambda>close.
     and_then (case close of None \<Rightarrow> Inr (only_status IHistoryMissing) | Some v \<Rightarrow> ready_indicator v) (\<lambda>ind.
       Inr (if blocked_key g (reference_key r) then only_status IReferenceUnavailable else ind)))"

type_synonym window_table = "(string \<times> indicator \<times> windows) list"

definition row_windows :: "gen_input \<Rightarrow> (period \<Rightarrow> int) \<Rightarrow> mapping_row \<Rightarrow> window_table result" where
  "row_windows g anchors row =
     (case mr_reference row of
        None \<Rightarrow> Inr []
      | Some r \<Rightarrow>
          and_then (series_for g (mr_id row)) (\<lambda>s.
          and_then (close_indicator g r s) (\<lambda>close.
          and_then (all_windows (\<lambda>p. project_window g r s (anchors p))) (\<lambda>ws.
            Inr [(mr_id row, close, ws)]))))"

definition period_anchors :: "gen_input \<Rightarrow> string \<Rightarrow> (period \<Rightarrow> int) result" where
  "period_anchors g ref_time =
     and_then (anchor_at (gi_cutoff g) (Some P15m) ref_time) (\<lambda>a.
     and_then (anchor_at (gi_cutoff g) (Some P1h) ref_time) (\<lambda>b.
     and_then (anchor_at (gi_cutoff g) (Some P24h) ref_time) (\<lambda>c.
     and_then (anchor_at (gi_cutoff g) (Some PDaily) ref_time) (\<lambda>d.
       Inr (\<lambda>p. case p of P15m \<Rightarrow> a | P1h \<Rightarrow> b | P24h \<Rightarrow> c | PDaily \<Rightarrow> d)))))"

definition compute_windows :: "gen_input \<Rightarrow> string \<Rightarrow> window_table result" where
  "compute_windows g ref_time =
     and_then (period_anchors g ref_time) (\<lambda>anchors.
     and_then (map_ok (row_windows g anchors) (rm_rows (gi_map g))) (\<lambda>rows. Inr (concat rows)))"

section \<open>Rows\<close>

datatype row_order = Gainers | Losers | ByTurnover

datatype change_status = Compared | NewRank | ChangeUnavailable | NotRanked

record rank_change =
  rc_status :: change_status
  rc_previous :: "int option"
  rc_delta :: "int option"
  rc_reason :: "string option"

record ranked_row =
  rr_id :: string
  rr_asset :: string
  rr_mapping :: mapping_status
  rr_venues :: "venue list"
  rr_originals :: "original list"
  rr_reference :: "reference option"
  rr_widget :: widget
  rr_state :: row_state
  rr_reason :: "string option"
  rr_return :: "pyfloat option"
  rr_turnover :: "pyfloat option"
  rr_rank :: "int option"
  rr_change :: rank_change
  rr_ratio :: indicator
  rr_position :: indicator
  rr_close :: indicator
  rr_windows :: windows
  rr_ratio_15m :: indicator
  rr_ratio_1h :: indicator
  rr_comparison :: turnover_comparison

fun state_text :: "row_state \<Rightarrow> string" where
  "state_text Ready = ''ready''"
| "state_text Starting = ''starting''"
| "state_text HistoryMissing = ''history_missing''"
| "state_text SourceDelayed = ''source_delayed''"
| "state_text SourceUnavailable = ''source_unavailable''"
| "state_text MappingReview = ''mapping_review''"
| "state_text Unsupported = ''unsupported''"
| "state_text OutOfScope = ''out_of_scope''"
| "state_text Filtered = ''filtered''"
| "state_text DirectionExcluded = ''direction_excluded''"
| "state_text InvalidData = ''invalid_data''"
| "state_text ReferenceInvalid = ''reference_invalid''"

definition default_change :: rank_change where
  "default_change = \<lparr>rc_status = ChangeUnavailable, rc_previous = None, rc_delta = None,
     rc_reason = Some ''no_previous_generation''\<rparr>"

text \<open>The turnover floor and the direction of the order, for a row that is ready.\<close>

definition filter_state :: "row_order \<Rightarrow> pyfloat \<Rightarrow> pyfloat option \<Rightarrow> pyfloat option \<Rightarrow> row_state \<times> string option" where
  "filter_state order minimum change turnover =
     (if (case turnover of None \<Rightarrow> False | Some t \<Rightarrow> f_less t minimum) then (Filtered, Some ''min_turnover'')
      else if (case change of None \<Rightarrow> False
               | Some c \<Rightarrow> order = Gainers \<and> f_le c (FFin 0) \<or> order = Losers \<and> f_le (FFin 0) c)
      then (DirectionExcluded, Some ''direction'')
      else (Ready, None))"

definition unreferenced_state :: "mapping_status \<Rightarrow> row_state" where
  "unreferenced_state st = (case st of MUnsupported \<Rightarrow> Unsupported | MOutOfScope \<Rightarrow> OutOfScope | _ \<Rightarrow> MappingReview)"

definition bare_row :: "mapping_row \<Rightarrow> row_state \<Rightarrow> windows \<Rightarrow> turnover_comparison \<Rightarrow> indicator \<Rightarrow> ranked_row" where
  "bare_row item st ws cmp ratio = \<lparr>rr_id = mr_id item, rr_asset = mr_asset item, rr_mapping = mr_status item,
     rr_venues = sort (remdups (map og_venue (mr_originals item))), rr_originals = mr_originals item,
     rr_reference = mr_reference item, rr_widget = mr_widget item, rr_state = st, rr_reason = mr_reason item,
     rr_return = None, rr_turnover = None, rr_rank = None, rr_change = default_change,
     rr_ratio = ratio, rr_position = only_status IReferenceUnavailable,
     rr_close = only_status IReferenceUnavailable, rr_windows = ws,
     rr_ratio_15m = only_status IReferenceUnavailable, rr_ratio_1h = only_status IReferenceUnavailable,
     rr_comparison = cmp\<rparr>"

definition row_verdict :: "row_order \<Rightarrow> pyfloat \<Rightarrow> ranking_window \<Rightarrow> row_state \<times> string option" where
  "row_verdict order minimum w =
     (if rw_state w = Ready then filter_state order minimum (rw_return w) (rw_turnover w)
      else (rw_state w, Some (state_text (rw_state w))))"

text \<open>The row of a mapping with a reference; the flag says whether it counts as valid.\<close>

definition referenced_row :: "gen_input \<Rightarrow> period \<Rightarrow> row_order \<Rightarrow> pyfloat \<Rightarrow> mapping_row \<Rightarrow> reference
    \<Rightarrow> series \<Rightarrow> indicator \<Rightarrow> windows \<Rightarrow> turnover_comparison \<Rightarrow> ranked_row \<times> bool" where
  "referenced_row g per order minimum item r s close ws cmp =
     (let blocked = blocked_key g (reference_key r); w = window_of ws per;
          shown = (\<lambda>ind. if blocked then only_status IReferenceUnavailable else ind);
          verdict = row_verdict order minimum w
      in ((bare_row item (fst verdict) ws cmp
             (if per \<in> {PDaily, P24h} then only_status IUnsupportedPeriod
              else shown (if per = P15m then se_ratio_15m s else se_ratio_1h s)))
           \<lparr>rr_reason := snd verdict, rr_return := rw_return w, rr_turnover := rw_turnover w,
            rr_position := shown (se_position s), rr_close := close,
            rr_ratio_15m := shown (se_ratio_15m s), rr_ratio_1h := shown (se_ratio_1h s)\<rparr>,
          rw_state w = Ready))"

text \<open>The loop body of \<open>_calculate\<close> for one mapping row.\<close>

definition calculate_row :: "gen_input \<Rightarrow> window_table \<Rightarrow> period \<Rightarrow> string \<Rightarrow> row_order \<Rightarrow> pyfloat \<Rightarrow> int
    \<Rightarrow> mapping_row \<Rightarrow> (ranked_row \<times> bool) result" where
  "calculate_row g table per ref_time order minimum anchor item =
     (case mr_reference item of
        None \<Rightarrow>
          (let st = unreferenced_state (mr_status item)
           in and_then (all_windows (\<lambda>p. and_then (anchor_at (gi_cutoff g) (Some p) ref_time) (\<lambda>a.
                Inr \<lparr>rw_anchor = a, rw_return = None, rw_turnover = None, rw_state = st\<rparr>))) (\<lambda>ws.
              and_then (turnover_comparison None anchor (gi_cutoff g)) (\<lambda>cmp.
                Inr (bare_row item st ws cmp (only_status
                  (if per \<in> {PDaily, P24h} then IUnsupportedPeriod else IReferenceUnavailable)), False))))
      | Some r \<Rightarrow>
          and_then (series_for g (mr_id item)) (\<lambda>s.
          case map_of table (mr_id item) of
            None \<Rightarrow> raise_exn KeyError (mr_id item)
          | Some (close, ws) \<Rightarrow>
              and_then (turnover_comparison (if blocked_key g (reference_key r) then None else Some s)
                  anchor (gi_cutoff g)) (\<lambda>cmp.
                Inr (referenced_row g per order minimum item r s close ws cmp))))"

section \<open>Ranking\<close>

definition number :: "pyfloat option \<Rightarrow> rat" where
  "number v = (case v of None \<Rightarrow> 0 | Some x \<Rightarrow> fval x)"

definition rank_key :: "row_order \<Rightarrow> ranked_row \<Rightarrow> rat \<times> string" where
  "rank_key order row =
     (if order = ByTurnover then - number (rr_turnover row)
      else number (rr_return row) * (if order = Losers then 1 else - 1), rr_id row)"

definition ranks_of :: "row_order \<Rightarrow> ranked_row list \<Rightarrow> (string \<times> int) list" where
  "ranks_of order rows =
     (let eligible = sort_key (rank_key order) (filter (\<lambda>r. rr_state r = Ready) rows)
      in zip (map rr_id eligible) (map int [1..<length eligible + 1]))"

definition response_key :: "ranked_row \<Rightarrow> bool \<times> int \<times> string" where
  "response_key row = (rr_rank row = None, case rr_rank row of None \<Rightarrow> 0 | Some k \<Rightarrow> k, rr_id row)"

definition ranked_rows :: "row_order \<Rightarrow> ranked_row list \<Rightarrow> ranked_row list" where
  "ranked_rows order rows =
     sort_key response_key
       (map (\<lambda>row. row\<lparr>rr_rank := map_of (rev (ranks_of order rows)) (rr_id row)\<rparr>) rows)"

datatype response_status = RespReady | RespPartial | RespStarting | RespStale

record coverage =
  cov_instruments :: int
  cov_rows :: nat
  cov_crypto :: nat
  cov_supported :: nat
  cov_widgets :: nat
  cov_valid :: nat
  cov_ranked :: nat
  cov_reasons :: "(row_state \<times> nat) list"

record response =
  rp_generation_id :: string
  rp_map_version :: string
  rp_cutoff :: int
  rp_generated_at :: int
  rp_roster_generated_at :: int
  rp_roster_stale :: bool
  rp_roster_health :: roster_health
  rp_stale :: bool
  rp_status :: response_status
  rp_period :: period
  rp_reference_jst :: string
  rp_anchor :: int
  rp_order :: row_order
  rp_minimum :: pyfloat
  rp_previous_id :: "string option"
  rp_previous_cutoff :: "int option"
  rp_coverage :: coverage
  rp_rows :: "ranked_row list"

definition counter :: "'a list \<Rightarrow> ('a \<times> nat) list" where
  "counter xs = map (\<lambda>x. (x, length (filter (\<lambda>y. y = x) xs))) (rev (remdups (rev xs)))"

definition assemble :: "gen_input \<Rightarrow> period \<Rightarrow> string \<Rightarrow> row_order \<Rightarrow> pyfloat \<Rightarrow> int
    \<Rightarrow> (ranked_row \<times> bool) list \<Rightarrow> response" where
  "assemble g per ref_time order minimum anchor calculated =
     (let rows = ranked_rows order (map fst calculated);
          valid = length (filter snd calculated);
          supported = length (filter (\<lambda>r. rr_reference r \<noteq> None) rows)
      in \<lparr>rp_generation_id = generation_id g, rp_map_version = rm_version (gi_map g),
          rp_cutoff = gi_cutoff g, rp_generated_at = gi_generated_at g,
          rp_roster_generated_at = rm_roster_generated_at (gi_map g), rp_roster_stale = False,
          rp_roster_health = gi_roster_health g, rp_stale = False,
          rp_status = (if anchor = gi_cutoff g then RespStarting
             else if valid = supported \<and> 0 < supported then RespReady else RespPartial),
          rp_period = per, rp_reference_jst = ref_time, rp_anchor = anchor, rp_order = order,
          rp_minimum = minimum, rp_previous_id = None, rp_previous_cutoff = None,
          rp_coverage = \<lparr>cov_instruments = rm_count (gi_map g), cov_rows = length rows,
            cov_crypto = length (filter (\<lambda>r. rr_mapping r \<noteq> MOutOfScope) rows),
            cov_supported = supported,
            cov_widgets = length (filter (\<lambda>r. wg_status (rr_widget r) = WSupported) rows),
            cov_valid = valid, cov_ranked = length (filter (\<lambda>r. rr_state r = Ready) rows),
            cov_reasons = counter (filter (\<lambda>st. st \<noteq> Ready) (map rr_state rows))\<rparr>,
          rp_rows = rows\<rparr>)"

text \<open>\<open>_calculate\<close>, given the table that \<open>_windows\<close> returns.\<close>

definition calculate_response :: "gen_input \<Rightarrow> window_table \<Rightarrow> period \<Rightarrow> string \<Rightarrow> row_order \<Rightarrow> pyfloat \<Rightarrow> int
    \<Rightarrow> response result" where
  "calculate_response g table per ref_time order minimum anchor =
     and_then (map_ok (calculate_row g table per ref_time order minimum anchor) (rm_rows (gi_map g)))
       (\<lambda>calculated. Inr (assemble g per ref_time order minimum anchor calculated))"

section \<open>The bounded caches\<close>

type_synonym cache_key = "period \<times> string \<times> row_order \<times> pyfloat"

record gen_caches =
  gc_responses :: "(cache_key \<times> response) list"
  gc_windows :: "(string \<times> window_table) list"

definition no_caches :: gen_caches where
  "no_caches = \<lparr>gc_responses = [], gc_windows = []\<rparr>"

text \<open>An \<open>OrderedDict\<close>, oldest entry first: \<open>move_to_end\<close>, and insertion that evicts beyond eight.\<close>

definition lru_touch :: "'k \<Rightarrow> ('k \<times> 'v) list \<Rightarrow> ('k \<times> 'v) list" where
  "lru_touch k c = (case map_of c k of None \<Rightarrow> c | Some v \<Rightarrow> filter (\<lambda>e. fst e \<noteq> k) c @ [(k, v)])"

definition lru_store :: "'k \<Rightarrow> 'v \<Rightarrow> ('k \<times> 'v) list \<Rightarrow> ('k \<times> 'v) list" where
  "lru_store k v c = (let c = c @ [(k, v)] in if 8 < length c then tl c else c)"

definition cached_windows :: "gen_input \<Rightarrow> string \<Rightarrow> gen_caches \<Rightarrow> window_table result \<times> gen_caches" where
  "cached_windows g ref_time c =
     (case map_of (gc_windows c) ref_time of
        Some t \<Rightarrow> (Inr t, c\<lparr>gc_windows := lru_touch ref_time (gc_windows c)\<rparr>)
      | None \<Rightarrow>
          (case compute_windows g ref_time of
             Inl e \<Rightarrow> (Inl e, c)
           | Inr t \<Rightarrow> (Inr t, c\<lparr>gc_windows := lru_store ref_time t (gc_windows c)\<rparr>)))"

record query =
  qu_period :: "period option"
  qu_reference :: string
  qu_order :: "row_order option"
  qu_minimum :: pyfloat

text \<open>The checks of \<open>_base_response\<close> before the cache: the anchor, the order, the turnover floor.\<close>

definition check_query :: "gen_input \<Rightarrow> query \<Rightarrow> (period \<times> row_order \<times> int) result" where
  "check_query g q =
     and_then (anchor_at (gi_cutoff g) (qu_period q) (qu_reference q)) (\<lambda>anchor.
       case (qu_period q, qu_order q) of
         (Some per, Some order) \<Rightarrow>
           if \<not> float_finite (qu_minimum q) \<or> fval (qu_minimum q) < 0 \<or> 10 ^ 18 < fval (qu_minimum q) then
             raise_exn ValueError ''minTurnover must be finite and between 0 and 1e18''
           else Inr (per, order, anchor)
       | _ \<Rightarrow> raise_exn ValueError ''unknown ranking order'')"

definition base_response :: "gen_input \<Rightarrow> query \<Rightarrow> gen_caches \<Rightarrow> response result \<times> gen_caches" where
  "base_response g q c =
     (case check_query g q of
        Inl e \<Rightarrow> (Inl e, c)
      | Inr (per, order, anchor) \<Rightarrow>
          (let key = (per, qu_reference q, order, qu_minimum q)
           in case map_of (gc_responses c) key of
                Some r \<Rightarrow> (Inr r, c\<lparr>gc_responses := lru_touch key (gc_responses c)\<rparr>)
              | None \<Rightarrow>
                  (case cached_windows g (qu_reference q) c of
                     (Inl e, c) \<Rightarrow> (Inl e, c)
                   | (Inr table, c) \<Rightarrow>
                       (case calculate_response g table per (qu_reference q) order (qu_minimum q) anchor of
                          Inl e \<Rightarrow> (Inl e, c)
                        | Inr r \<Rightarrow> (Inr r, c\<lparr>gc_responses := lru_store key r (gc_responses c)\<rparr>)))))"

section \<open>Responses\<close>

definition stale_ms :: int where "stale_ms = 150000"

text \<open>Why the ranks of the previous generation are not compared; \<open>None\<close> when they are.\<close>

definition change_reason :: "gen_input \<Rightarrow> gen_input option \<Rightarrow> int \<Rightarrow> query \<Rightarrow> int \<Rightarrow> string option result" where
  "change_reason g prev now q anchor =
     (if stale_ms < now - gi_cutoff g then Inr (Some ''current_stale'')
      else (case prev of
              None \<Rightarrow> Inr (Some ''no_previous_generation'')
            | Some p \<Rightarrow>
                if gi_cutoff p \<noteq> gi_cutoff g - minute_ms then Inr (Some ''generation_gap'')
                else if rm_version (gi_map p) \<noteq> rm_version (gi_map g) then Inr (Some ''map_changed'')
                else if gi_metric p \<noteq> gi_metric g then Inr (Some ''metric_changed'')
                else if stale_ms < now - gi_cutoff p then Inr (Some ''previous_stale'')
                else if qu_period q = Some PDaily then
                  and_then (anchor_at (gi_cutoff p) (qu_period q) (qu_reference q)) (\<lambda>a.
                    Inr (if a \<noteq> anchor then Some ''anchor_changed'' else None))
                else Inr None))"

definition or_state :: "ranked_row \<Rightarrow> string" where
  "or_state row = (if truthy (rr_reason row) then the (rr_reason row) else state_text (rr_state row))"

definition change_of :: "string option \<Rightarrow> ranked_row list \<Rightarrow> ranked_row \<Rightarrow> rank_change" where
  "change_of reason old_rows row =
     (let blank = \<lparr>rc_status = NotRanked, rc_previous = None, rc_delta = None, rc_reason = None\<rparr>
      in case rr_rank row of
           None \<Rightarrow> blank\<lparr>rc_reason := Some (or_state row)\<rparr>
         | Some k \<Rightarrow>
             (case reason of
                Some why \<Rightarrow> blank\<lparr>rc_status := ChangeUnavailable, rc_reason := Some why\<rparr>
              | None \<Rightarrow>
                  (case dict_of rr_id old_rows (rr_id row) of
                     None \<Rightarrow> blank\<lparr>rc_status := ChangeUnavailable, rc_reason := Some ''previous_row_missing''\<rparr>
                   | Some old \<Rightarrow>
                       (case rr_rank old of
                          None \<Rightarrow> blank\<lparr>rc_status := NewRank, rc_reason := Some (or_state old)\<rparr>
                        | Some j \<Rightarrow> blank\<lparr>rc_status := Compared, rc_previous := Some j, rc_delta := Some (j - k)\<rparr>))))"

definition finish_response :: "gen_input \<Rightarrow> gen_input option \<Rightarrow> int \<Rightarrow> string option \<Rightarrow> ranked_row list
    \<Rightarrow> response \<Rightarrow> response" where
  "finish_response g prev now reason old_rows r =
     (let stale = stale_ms < now - gi_cutoff g; health = health_at_time (gi_roster_health g) now
      in r\<lparr>rp_rows := map (\<lambda>row. row\<lparr>rr_change := change_of reason old_rows row\<rparr>) (rp_rows r),
           rp_previous_id := map_option generation_id prev,
           rp_previous_cutoff := map_option gi_cutoff prev,
           rp_stale := stale,
           rp_status := (if stale then RespStale else rp_status r),
           rp_roster_generated_at := gi_roster_checked_at g,
           rp_roster_stale := (rh_status health \<noteq> RReady \<or> day_ms < now - gi_roster_checked_at g),
           rp_roster_health := health\<rparr>)"

record generation =
  gn_input :: gen_input
  gn_caches :: gen_caches
  gn_previous :: "(gen_input \<times> gen_caches) option"

text \<open>A new generation keeps its predecessor's input and caches, and not that one's predecessor.\<close>

definition start_generation :: "gen_input \<Rightarrow> generation option \<Rightarrow> generation" where
  "start_generation g prev = \<lparr>gn_input = g, gn_caches = no_caches,
     gn_previous = map_option (\<lambda>p. (gn_input p, gn_caches p)) prev\<rparr>"

definition gen_response :: "query \<Rightarrow> int \<Rightarrow> generation \<Rightarrow> response result \<times> generation" where
  "gen_response q now s =
     (let g = gn_input s; prev = map_option fst (gn_previous s)
      in case base_response g q (gn_caches s) of
           (Inl e, c) \<Rightarrow> (Inl e, s\<lparr>gn_caches := c\<rparr>)
         | (Inr r, c) \<Rightarrow>
             (case change_reason g prev now q (rp_anchor r) of
                Inl e \<Rightarrow> (Inl e, s\<lparr>gn_caches := c\<rparr>)
              | Inr reason \<Rightarrow>
                  (case (gn_previous s, reason) of
                     (Some (p, pc), None) \<Rightarrow>
                       (case base_response p q pc of
                          (Inl e, pc) \<Rightarrow> (Inl e, s\<lparr>gn_caches := c, gn_previous := Some (p, pc)\<rparr>)
                        | (Inr old, pc) \<Rightarrow>
                            (Inr (finish_response g prev now reason (rp_rows old) r),
                             s\<lparr>gn_caches := c, gn_previous := Some (p, pc)\<rparr>))
                   | _ \<Rightarrow> (Inr (finish_response g prev now reason [] r), s\<lparr>gn_caches := c\<rparr>))))"

section \<open>Caching changes nothing\<close>

text \<open>The same answers without any cache.\<close>

definition plain_base :: "gen_input \<Rightarrow> query \<Rightarrow> response result" where
  "plain_base g q =
     and_then (check_query g q) (\<lambda>(per, order, anchor).
     and_then (compute_windows g (qu_reference q)) (\<lambda>table.
       calculate_response g table per (qu_reference q) order (qu_minimum q) anchor))"

definition plain_response :: "gen_input \<Rightarrow> gen_input option \<Rightarrow> query \<Rightarrow> int \<Rightarrow> response result" where
  "plain_response g prev q now =
     and_then (plain_base g q) (\<lambda>r.
     and_then (change_reason g prev now q (rp_anchor r)) (\<lambda>reason.
       case (prev, reason) of
         (Some p, None) \<Rightarrow> and_then (plain_base p q) (\<lambda>old. Inr (finish_response g prev now reason (rp_rows old) r))
       | _ \<Rightarrow> Inr (finish_response g prev now reason [] r)))"

text \<open>What an entry of the response cache must be.\<close>

definition entry_for :: "gen_input \<Rightarrow> cache_key \<Rightarrow> response \<Rightarrow> bool" where
  "entry_for g key r =
     (case key of (per, ref_time, order, minimum) \<Rightarrow>
        plain_base g \<lparr>qu_period = Some per, qu_reference = ref_time, qu_order = Some order, qu_minimum = minimum\<rparr>
          = Inr r)"

definition caches_ok :: "gen_input \<Rightarrow> gen_caches \<Rightarrow> bool" where
  "caches_ok g c \<longleftrightarrow>
     (\<forall>(k, r)\<in>set (gc_responses c). entry_for g k r) \<and> length (gc_responses c) \<le> 8
     \<and> (\<forall>(k, t)\<in>set (gc_windows c). compute_windows g k = Inr t) \<and> length (gc_windows c) \<le> 8"

lemma set_lru_touch: "set (lru_touch k c) \<subseteq> set c"
  by (auto simp: lru_touch_def split: option.splits dest: map_of_SomeD)

lemma length_lru_touch: "length (lru_touch k c) \<le> length c"
proof (cases "map_of c k")
  case (Some v)
  then have "(k, v) \<in> set c" by (rule map_of_SomeD)
  then have "length (filter (\<lambda>e. fst e \<noteq> k) c) < length c" by (intro length_filter_less) auto
  with Some show ?thesis by (simp add: lru_touch_def)
qed (simp add: lru_touch_def)

lemma set_lru_store: "set (lru_store k v c) \<subseteq> insert (k, v) (set c)"
  by (cases c) (auto simp: lru_store_def Let_def)

lemma length_lru_store: "length c \<le> 8 \<Longrightarrow> length (lru_store k v c) \<le> 8"
  by (auto simp: lru_store_def Let_def)

lemma no_caches_ok [simp]: "caches_ok g no_caches"
  by (simp add: caches_ok_def no_caches_def)

lemma cached_windows_ok:
  assumes "caches_ok g c"
  shows "fst (cached_windows g ref_time c) = compute_windows g ref_time" "caches_ok g (snd (cached_windows g ref_time c))"
proof -
  have hit: "compute_windows g ref_time = Inr t" if "map_of (gc_windows c) ref_time = Some t" for t
    using that assms map_of_SomeD by (fastforce simp: caches_ok_def)
  show "fst (cached_windows g ref_time c) = compute_windows g ref_time"
    by (auto simp: cached_windows_def hit split: option.split sum.split)
  have touch: "caches_ok g (c\<lparr>gc_windows := lru_touch ref_time (gc_windows c)\<rparr>)"
    using assms set_lru_touch[of ref_time "gc_windows c"] length_lru_touch[of ref_time "gc_windows c"]
    unfolding caches_ok_def by auto
  have store: "caches_ok g (c\<lparr>gc_windows := lru_store ref_time t (gc_windows c)\<rparr>)"
    if "compute_windows g ref_time = Inr t" for t
    using assms that set_lru_store[of ref_time t "gc_windows c"] length_lru_store[of "gc_windows c" ref_time t]
    unfolding caches_ok_def by auto
  show "caches_ok g (snd (cached_windows g ref_time c))"
    using touch store assms by (auto simp: cached_windows_def split: option.split sum.split)
qed

lemma check_query_text:
  assumes "check_query g q = Inr (per, order, anchor)"
  shows "q = \<lparr>qu_period = Some per, qu_reference = qu_reference q, qu_order = Some order, qu_minimum = qu_minimum q\<rparr>"
  using assms by (cases q) (auto simp: check_query_def and_then_Inr split: option.splits if_splits)

lemma base_response_ok:
  assumes "caches_ok g c"
  shows "fst (base_response g q c) = plain_base g q" "caches_ok g (snd (base_response g q c))"
proof -
  let ?cached = "cached_windows g (qu_reference q) c"
  note win = cached_windows_ok[OF assms, of "qu_reference q"]
  have "fst (base_response g q c) = plain_base g q \<and> caches_ok g (snd (base_response g q c))"
  proof (cases "check_query g q")
    case (Inl e)
    then show ?thesis using assms by (simp add: base_response_def plain_base_def)
  next
    case (Inr checked)
    obtain per order anchor where checked: "checked = (per, order, anchor)" by (cases checked) auto
    let ?key = "(per, qu_reference q, order, qu_minimum q)"
    have q: "\<lparr>qu_period = Some per, qu_reference = qu_reference q, qu_order = Some order, qu_minimum = qu_minimum q\<rparr> = q"
      using check_query_text Inr checked by metis
    show ?thesis
    proof (cases "map_of (gc_responses c) ?key")
      case (Some r)
      then have "(?key, r) \<in> set (gc_responses c)" by (rule map_of_SomeD)
      then have "entry_for g ?key r" using assms unfolding caches_ok_def by blast
      then have plain: "plain_base g q = Inr r" unfolding entry_for_def prod.case q .
      have "caches_ok g (c\<lparr>gc_responses := lru_touch ?key (gc_responses c)\<rparr>)"
        using assms set_lru_touch[of ?key "gc_responses c"] length_lru_touch[of ?key "gc_responses c"]
        unfolding caches_ok_def by auto
      with Some Inr plain show ?thesis by (simp add: base_response_def checked Let_def)
    next
      case None
      obtain t c' where cached: "?cached = (t, c')" by (cases ?cached)
      with win have t: "t = compute_windows g (qu_reference q)" and c': "caches_ok g c'" by simp_all
      let ?calc = "\<lambda>table. calculate_response g table per (qu_reference q) order (qu_minimum q) anchor"
      have plain: "plain_base g q = and_then t ?calc" by (simp add: plain_base_def Inr checked t)
      have store: "caches_ok g (c'\<lparr>gc_responses := lru_store ?key r (gc_responses c')\<rparr>)"
        if "plain_base g q = Inr r" for r
      proof -
        have "entry_for g ?key r" unfolding entry_for_def prod.case q by (rule that)
        then show ?thesis
          using c' set_lru_store[of ?key r "gc_responses c'"] length_lru_store[of "gc_responses c'" ?key r]
          unfolding caches_ok_def by auto
      qed
      show ?thesis
      proof (cases t)
        case (Inl e)
        with None Inr cached c' plain show ?thesis by (simp add: base_response_def checked Let_def)
      next
        case t_ok: (Inr table)
        show ?thesis
        proof (cases "?calc table")
          case (Inl e)
          with None Inr cached c' plain t_ok \<open>check_query g q = Inr checked\<close> show ?thesis
            by (simp add: base_response_def checked Let_def)
        next
          case (Inr r)
          with None cached plain t_ok \<open>check_query g q = Inr checked\<close> store show ?thesis
            by (simp add: base_response_def checked Let_def)
        qed
      qed
    qed
  qed
  then show "fst (base_response g q c) = plain_base g q" "caches_ok g (snd (base_response g q c))" by simp_all
qed

definition generation_ok :: "generation \<Rightarrow> bool" where
  "generation_ok s \<longleftrightarrow> caches_ok (gn_input s) (gn_caches s)
     \<and> (case gn_previous s of None \<Rightarrow> True | Some (p, pc) \<Rightarrow> caches_ok p pc)"

lemma gen_response_ok:
  assumes "generation_ok s"
  shows "fst (gen_response q now s) = plain_response (gn_input s) (map_option fst (gn_previous s)) q now"
    "generation_ok (snd (gen_response q now s))"
    "gn_input (snd (gen_response q now s)) = gn_input s"
    "map_option fst (gn_previous (snd (gen_response q now s))) = map_option fst (gn_previous s)"
proof -
  let ?g = "gn_input s" and ?prev = "map_option fst (gn_previous s)"
  obtain r c where base: "base_response ?g q (gn_caches s) = (r, c)" by (cases "base_response ?g q (gn_caches s)")
  have r: "plain_base ?g q = r" and c: "caches_ok ?g c"
    using base_response_ok[of ?g "gn_caches s" q] assms base by (auto simp: generation_ok_def)
  have keep: "generation_ok (s\<lparr>gn_caches := c\<rparr>)" using assms c by (auto simp: generation_ok_def)
  have prev_keep: "generation_ok (s\<lparr>gn_caches := c, gn_previous := Some (p, pc)\<rparr>)" if "caches_ok p pc" for p pc
    using c that by (simp add: generation_ok_def)
  have prev_base: "plain_base p q = fst (base_response p q pc)" "caches_ok p (snd (base_response p q pc))"
    if "gn_previous s = Some (p, pc)" for p pc
    using base_response_ok[of p pc q] assms that by (simp_all add: generation_ok_def)
  show "fst (gen_response q now s) = plain_response ?g ?prev q now"
    "generation_ok (snd (gen_response q now s))"
    "gn_input (snd (gen_response q now s)) = gn_input s"
    "map_option fst (gn_previous (snd (gen_response q now s))) = map_option fst (gn_previous s)"
    unfolding gen_response_def plain_response_def Let_def base r
    by (use keep prev_keep prev_base in
        \<open>auto split: sum.splits option.splits prod.splits simp: prod_eq_iff\<close>)
qed

fun run_queries :: "(query \<times> int) list \<Rightarrow> generation \<Rightarrow> response result list \<times> generation" where
  "run_queries [] s = ([], s)"
| "run_queries ((q, now) # qs) s =
     (let (r, s) = gen_response q now s; (rs, s) = run_queries qs s in (r # rs, s))"

lemma run_queries_ok:
  assumes "generation_ok s"
  shows "fst (run_queries qs s)
      = map (\<lambda>(q, now). plain_response (gn_input s) (map_option fst (gn_previous s)) q now) qs
    \<and> generation_ok (snd (run_queries qs s))"
  using assms
proof (induction qs arbitrary: s)
  case (Cons x qs)
  obtain q now where x: "x = (q, now)" by (cases x)
  have keep: "generation_ok (snd (gen_response q now s))" using Cons.prems by (rule gen_response_ok)
  have same: "gn_input (snd (gen_response q now s)) = gn_input s"
    "map_option fst (gn_previous (snd (gen_response q now s))) = map_option fst (gn_previous s)"
    by (rule gen_response_ok[OF Cons.prems])+
  show ?case
    using Cons.IH[OF keep] gen_response_ok(1)[OF Cons.prems, of q now]
    by (simp add: x same split_beta Let_def)
qed simp

text \<open>
  C15. The caches are an implementation detail: whatever sequence of queries a generation and, before
  it, its predecessor answered, every query is answered as if it were computed from the immutable
  inputs alone, and no cache ever holds more than eight entries.
\<close>

theorem caches_are_transparent:
  "fst (run_queries later (start_generation g (Some (snd (run_queries earlier (start_generation p None))))))
     = map (\<lambda>(q, now). plain_response g (Some p) q now) later
   \<and> fst (run_queries earlier (start_generation p None)) = map (\<lambda>(q, now). plain_response p None q now) earlier
   \<and> length (gc_responses (gn_caches (snd (run_queries earlier (start_generation p None))))) \<le> 8
   \<and> length (gc_windows (gn_caches (snd (run_queries earlier (start_generation p None))))) \<le> 8"
proof -
  let ?s = "start_generation p None"
  have "generation_ok ?s" by (simp add: generation_ok_def start_generation_def)
  then have first: "fst (run_queries earlier ?s)
      = map (\<lambda>(q, now). plain_response (gn_input ?s) (map_option fst (gn_previous ?s)) q now) earlier"
    and ok: "generation_ok (snd (run_queries earlier ?s))"
    using run_queries_ok by blast+
  have input: "gn_input (snd (run_queries earlier s)) = gn_input s" if "generation_ok s" for s
    using that
  proof (induction earlier arbitrary: s)
    case (Cons x qs)
    then show ?case
      using gen_response_ok[OF Cons.prems, of "fst x" "snd x"] Cons.IH
      by (cases x) (simp add: split_beta Let_def)
  qed simp
  let ?t = "start_generation g (Some (snd (run_queries earlier ?s)))"
  have t_in: "gn_input ?t = g" "map_option fst (gn_previous ?t) = Some p"
    using input[OF \<open>generation_ok ?s\<close>] by (simp_all add: start_generation_def)
  have "generation_ok ?t"
    using ok by (simp add: generation_ok_def start_generation_def)
  then have "fst (run_queries later ?t) = map (\<lambda>(q, now). plain_response g (Some p) q now) later"
    using run_queries_ok[of ?t later] unfolding t_in by blast
  then show ?thesis
    using first ok by (simp add: start_generation_def generation_ok_def caches_ok_def)
qed

section \<open>The order of a response\<close>

lemma map_of_rev_distinct: "distinct (map fst xs) \<Longrightarrow> map_of (rev xs) = map_of xs"
proof
  fix k
  assume d: "distinct (map fst xs)"
  then have "distinct (map fst (rev xs))" by (simp add: rev_map[symmetric])
  then have "map_of (rev xs) k = Some v \<longleftrightarrow> map_of xs k = Some v" for v
    using d by (simp add: map_of_eq_Some_iff)
  then show "map_of (rev xs) k = map_of xs k" by (metis not_Some_eq)
qed

text \<open>Sorting by a key that identifies the element has one result.\<close>

lemma filter_identified:
  assumes "distinct (map g xs)" and "x \<in> set xs" and "\<And>y. f x = f y \<Longrightarrow> g x = g y"
  shows "filter (\<lambda>y. f x = f y) xs = [x]"
  using assms
proof (induction xs)
  case (Cons y ys)
  show ?case
  proof (cases "x = y")
    case True
    have "f x \<noteq> f z" if "z \<in> set ys" for z
    proof
      assume "f x = f z"
      then have "g x = g z" by (rule Cons.prems(3))
      then show False using Cons.prems(1) True that by auto
    qed
    then have "filter (\<lambda>z. f x = f z) ys = []" by (simp add: filter_empty_conv)
    with True show ?thesis by simp
  next
    case False
    then have "x \<in> set ys" using Cons.prems by simp
    have "g x \<in> g ` set ys" using \<open>x \<in> set ys\<close> by (rule imageI)
    then have "g x \<noteq> g y" using Cons.prems(1) by auto
    then have "f x \<noteq> f y" using Cons.prems(3) by blast
    moreover have "filter (\<lambda>y. f x = f y) ys = [x]"
      using Cons.IH[OF _ \<open>x \<in> set ys\<close> Cons.prems(3)] Cons.prems(1) by simp
    ultimately show ?thesis by simp
  qed
qed simp

lemma sort_key_identified:
  assumes "mset ys = mset xs" and "distinct (map g xs)" and "\<And>x y. f x = f y \<Longrightarrow> g x = g y"
    and "sorted (map f ys)"
  shows "sort_key f xs = ys"
proof (rule properties_for_sort_key[OF assms(1) _ assms(4)])
  fix k assume k: "k \<in> set ys"
  have "distinct (map g ys)" using assms(1,2) by (metis mset_eq_imp_distinct_iff mset_map)
  then have "filter (\<lambda>x. f k = f x) ys = [k]" using k assms(3) by (rule filter_identified)
  moreover have "k \<in> set xs" using k mset_eq_setD[OF assms(1)] by simp
  with assms(2) have "filter (\<lambda>x. f k = f x) xs = [k]" using assms(3) by (rule filter_identified)
  ultimately show "filter (\<lambda>x. f k = f x) ys = filter (\<lambda>x. f k = f x) xs" by simp
qed

lemma ranked_rows_split:
  fixes rows :: "ranked_row list" and order :: row_order
  assumes ids: "distinct (map rr_id rows)"
  defines "E \<equiv> sort_key (rank_key order) (filter (\<lambda>r. rr_state r = Ready) rows)"
  shows "ranked_rows order rows
    = map (\<lambda>(r, k). r\<lparr>rr_rank := Some (int k)\<rparr>) (zip E [1..<length E + 1])
      @ map (\<lambda>r. r\<lparr>rr_rank := None\<rparr>) (sort_key rr_id (filter (\<lambda>r. rr_state r \<noteq> Ready) rows))"
    (is "_ = ?top @ ?rest")
proof -
  let ?ranks = "ranks_of order rows"
  let ?f = "\<lambda>row. row\<lparr>rr_rank := map_of (rev ?ranks) (rr_id row)\<rparr>"
  have ranks: "?ranks = zip (map rr_id E) (map int [1..<length E + 1])"
    by (simp add: ranks_of_def E_def Let_def)
  have E_ids: "distinct (map rr_id E)"
    using distinct_map_filter[OF ids, of "\<lambda>r. rr_state r = Ready"] unfolding E_def
    by (metis mset_eq_imp_distinct_iff mset_map mset_sort)
  have lookup: "map_of (rev ?ranks) = map_of ?ranks"
    using E_ids by (intro map_of_rev_distinct) (simp add: ranks)
  have top_row: "?f (E ! i) = (E ! i)\<lparr>rr_rank := Some (int (Suc i))\<rparr>" if "i < length E" for i
  proof -
    have "map_of ?ranks (rr_id (E ! i)) = Some (int (Suc i))"
      using that map_of_zip_nth[of "map rr_id E" "map int [1..<length E + 1]" i] E_ids
      unfolding ranks by (simp del: upt_Suc map_of_eq_Some_iff)
    then show ?thesis unfolding lookup by simp
  qed
  have top: "map ?f E = ?top"
    by (rule nth_equalityI) (simp_all add: top_row del: upt_Suc)
  have unranked: "?f r = r\<lparr>rr_rank := None\<rparr>" if r: "r \<in> set rows" "rr_state r \<noteq> Ready" for r
  proof -
    have "rr_id r \<notin> rr_id ` set E"
    proof
      assume "rr_id r \<in> rr_id ` set E"
      then obtain e where "e \<in> set rows" "rr_state e = Ready" "rr_id e = rr_id r" by (auto simp: E_def)
      then show False using r ids by (metis distinct_map inj_onD)
    qed
    then have "rr_id r \<notin> fst ` set ?ranks" by (auto simp: ranks simp del: upt_Suc dest: set_zip_leftD)
    then have "map_of ?ranks (rr_id r) = None" by (simp only: map_of_eq_None_iff not_False_eq_True)
    then show ?thesis by (simp add: lookup)
  qed
  have rest: "map ?f (sort_key rr_id (filter (\<lambda>r. rr_state r \<noteq> Ready) rows)) = ?rest"
    using unranked by (auto intro: map_cong)
  have "mset (map ?f E @ map ?f (sort_key rr_id (filter (\<lambda>r. rr_state r \<noteq> Ready) rows))) = mset (map ?f rows)"
  proof -
    have "mset E + mset (sort_key rr_id (filter (\<lambda>r. rr_state r \<noteq> Ready) rows)) = mset rows"
      by (simp add: E_def multiset_partition[symmetric])
    then show ?thesis by (simp only: mset_append mset_map image_mset_union[symmetric])
  qed
  then have "mset (?top @ ?rest) = mset (map ?f rows)" unfolding top rest .
  moreover have "distinct (map rr_id (map ?f rows))" using ids by (simp add: comp_def)
  moreover have "sorted (map response_key (?top @ ?rest))"
  proof -
    have "sorted (map response_key ?top)"
      unfolding sorted_iff_nth_mono
    proof (intro allI impI)
      fix i j assume "i \<le> j" and j: "j < length (map response_key ?top)"
      then show "map response_key ?top ! i \<le> map response_key ?top ! j"
        by (cases "i = j") (simp_all add: response_key_def del: upt_Suc)
    qed
    moreover have "sorted (map response_key ?rest)"
    proof -
      let ?S = "sort_key rr_id (filter (\<lambda>r. rr_state r \<noteq> Ready) rows)"
      have "sorted (map rr_id ?S)" by (rule sorted_sort_key)
      then have "sorted_wrt (\<lambda>x y. rr_id x \<le> rr_id y) ?S" unfolding sorted_map .
      then have "sorted_wrt (\<lambda>x y. (True, 0 :: int, rr_id x) \<le> (True, 0, rr_id y)) ?S"
        by (rule sorted_wrt_mono_rel[rotated]) simp
      then show ?thesis by (simp add: sorted_map response_key_def comp_def)
    qed
    ultimately show ?thesis
      by (auto simp: sorted_append response_key_def set_zip)
  qed
  ultimately show ?thesis
    unfolding ranked_rows_def by (intro sort_key_identified[where g = rr_id]) (auto simp: response_key_def)
qed

lemma verdict_ready:
  "fst (row_verdict order minimum w) = Ready \<Longrightarrow> filter_state order minimum (rw_return w) (rw_turnover w) = (Ready, None)"
  by (auto simp: row_verdict_def filter_state_def split: if_splits)

lemma referenced_row_id:
  "rr_id (fst (referenced_row g per order minimum item r s close ws cmp)) = mr_id item"
  "rr_state (fst (referenced_row g per order minimum item r s close ws cmp)) = Ready \<Longrightarrow>
     filter_state order minimum (rr_return (fst (referenced_row g per order minimum item r s close ws cmp)))
       (rr_turnover (fst (referenced_row g per order minimum item r s close ws cmp))) = (Ready, None)"
  by (simp_all add: referenced_row_def bare_row_def Let_def verdict_ready)

lemma calculate_row_id:
  assumes "calculate_row g table per ref_time order minimum anchor item = Inr x"
  shows "rr_id (fst x) = mr_id item"
    "rr_state (fst x) = Ready \<Longrightarrow> filter_state order minimum (rr_return (fst x)) (rr_turnover (fst x)) = (Ready, None)"
proof -
  have unref: "unreferenced_state st \<noteq> Ready" for st by (cases st) (simp_all add: unreferenced_state_def)
  show "rr_id (fst x) = mr_id item"
    using assms by (auto simp: calculate_row_def bare_row_def and_then_Inr Let_def referenced_row_id(1)
        split: option.splits prod.splits)
  show "rr_state (fst x) = Ready \<Longrightarrow>
      filter_state order minimum (rr_return (fst x)) (rr_turnover (fst x)) = (Ready, None)"
    using assms unref by (auto simp: calculate_row_def bare_row_def and_then_Inr Let_def referenced_row_id(2)
        split: option.splits prod.splits)
qed

lemma calculated_rows:
  assumes "map_ok (calculate_row g table per ref_time order minimum anchor) items = Inr xs"
  shows "map rr_id (map fst xs) = map mr_id items"
    "\<forall>row\<in>set (map fst xs). rr_state row = Ready \<longrightarrow>
       filter_state order minimum (rr_return row) (rr_turnover row) = (Ready, None)"
proof -
  have all2: "list_all2 (\<lambda>x y. calculate_row g table per ref_time order minimum anchor x = Inr y) items xs"
    using assms unfolding map_ok_Inr .
  then show "map rr_id (map fst xs) = map mr_id items"
    by (induction items xs rule: list_all2_induct) (simp_all add: calculate_row_id(1))
  from all2 show "\<forall>row\<in>set (map fst xs). rr_state row = Ready \<longrightarrow>
       filter_state order minimum (rr_return row) (rr_turnover row) = (Ready, None)"
    by (induction items xs rule: list_all2_induct) (auto dest: calculate_row_id(2))
qed

text \<open>What the rows of a response look like: a ranked part and an unranked part.\<close>

definition well_ranked :: "row_order \<Rightarrow> pyfloat \<Rightarrow> ranked_row list \<Rightarrow> ranked_row list \<Rightarrow> bool" where
  "well_ranked order minimum lead rest \<longleftrightarrow>
     map rr_rank lead = map (\<lambda>k. Some (int k)) [1..<length lead + 1]
     \<and> sorted (map (rank_key order) lead)
     \<and> (\<forall>row\<in>set lead. rr_state row = Ready
          \<and> filter_state order minimum (rr_return row) (rr_turnover row) = (Ready, None))
     \<and> (\<forall>row\<in>set rest. rr_state row \<noteq> Ready \<and> rr_rank row = None)
     \<and> sorted (map rr_id rest)"

lemma rank_key_rank [simp]: "rank_key order (r\<lparr>rr_rank := k\<rparr>) = rank_key order r"
  by (simp add: rank_key_def)

lemma rank_key_change [simp]: "rank_key order (r\<lparr>rr_change := c\<rparr>) = rank_key order r"
  by (simp add: rank_key_def)

lemma ranked_rows_well_ranked:
  assumes ids: "distinct (map rr_id rows)"
    and ready: "\<forall>row\<in>set rows. rr_state row = Ready \<longrightarrow>
      filter_state order minimum (rr_return row) (rr_turnover row) = (Ready, None)"
  shows "\<exists>lead rest. ranked_rows order rows = lead @ rest \<and> well_ranked order minimum lead rest
    \<and> length lead = length (filter (\<lambda>r. rr_state r = Ready) rows)"
proof -
  let ?E = "sort_key (rank_key order) (filter (\<lambda>r. rr_state r = Ready) rows)"
  let ?top = "map (\<lambda>(r, k). r\<lparr>rr_rank := Some (int k)\<rparr>) (zip ?E [1..<length ?E + 1])"
  let ?rest = "map (\<lambda>r. r\<lparr>rr_rank := None\<rparr>) (sort_key rr_id (filter (\<lambda>r. rr_state r \<noteq> Ready) rows))"
  have keys: "map (rank_key order) ?top = map (rank_key order) ?E"
    by (rule nth_equalityI) (simp_all del: upt_Suc)
  have "map rr_rank ?top = map (\<lambda>k. Some (int k)) [1..<length ?top + 1]"
    by (rule nth_equalityI) (simp_all del: upt_Suc)
  moreover have "sorted (map (rank_key order) ?top)" unfolding keys by (rule sorted_sort_key)
  moreover have "\<forall>row\<in>set ?top. rr_state row = Ready
      \<and> filter_state order minimum (rr_return row) (rr_turnover row) = (Ready, None)"
  proof
    fix row assume "row \<in> set ?top"
    then obtain r k where "row = r\<lparr>rr_rank := Some (int k)\<rparr>" "r \<in> set ?E" by (auto dest!: set_zip_leftD)
    then show "rr_state row = Ready
        \<and> filter_state order minimum (rr_return row) (rr_turnover row) = (Ready, None)"
      using ready by auto
  qed
  moreover have "\<forall>row\<in>set ?rest. rr_state row \<noteq> Ready \<and> rr_rank row = None" by auto
  moreover have "sorted (map rr_id ?rest)" by (simp add: comp_def)
  ultimately have "well_ranked order minimum ?top ?rest" unfolding well_ranked_def by blast
  moreover have "length ?top = length (filter (\<lambda>r. rr_state r = Ready) rows)" by (simp del: upt_Suc)
  ultimately show ?thesis using ranked_rows_split[OF ids, of order] by blast
qed

text \<open>A final response only changes \<open>rank_change\<close> in the rows of the base response.\<close>

lemma plain_response_rows:
  assumes "plain_response g prev q now = Inr r"
  obtains base reason old where "plain_base g q = Inr base"
    "change_reason g prev now q (rp_anchor base) = Inr reason"
    "r = finish_response g prev now reason old base"
    "reason = None \<longrightarrow> (\<exists>p r'. prev = Some p \<and> plain_base p q = Inr r' \<and> old = rp_rows r')"
proof -
  obtain base reason where b: "plain_base g q = Inr base"
      and c: "change_reason g prev now q (rp_anchor base) = Inr reason"
    using assms by (auto simp: plain_response_def and_then_Inr)
  have no_prev: "reason \<noteq> None" if "prev = None"
    using c that by (auto simp: change_reason_def split: if_splits)
  show thesis
  proof (cases "prev = None \<or> reason \<noteq> None")
    case True
    then have "r = finish_response g prev now reason [] base"
      using assms b c no_prev by (auto simp: plain_response_def split: option.splits)
    then show ?thesis using that[OF b c] True no_prev by blast
  next
    case False
    then obtain p where p: "prev = Some p" and reason: "reason = None" by auto
    then obtain r' where "plain_base p q = Inr r'" "r = finish_response g prev now reason (rp_rows r') base"
      using assms b c by (auto simp: plain_response_def and_then_Inr)
    then show ?thesis using that[OF b c] p by blast
  qed
qed


section \<open>Rank changes\<close>

lemma dict_of_SomeD: "dict_of f xs k = Some x \<Longrightarrow> x \<in> set xs \<and> f x = k"
  by (auto simp: dict_of_def dest: map_of_SomeD)

lemma change_of_compared:
  assumes "rc_status (change_of reason old row) = Compared"
  shows "reason = None \<and> (\<exists>o' j k. o' \<in> set old \<and> rr_id o' = rr_id row \<and> rr_rank o' = Some j
    \<and> rr_rank row = Some k \<and> rc_previous (change_of reason old row) = Some j
    \<and> rc_delta (change_of reason old row) = Some (j - k))"
  using assms by (auto simp: change_of_def Let_def dest: dict_of_SomeD split: option.splits)

lemma change_of_row [simp]: "change_of reason old (row\<lparr>rr_change := c\<rparr>) = change_of reason old row"
  by (simp add: change_of_def or_state_def Let_def cong: option.case_cong)

lemma change_reason_None:
  assumes "change_reason g prev now q anchor = Inr None"
  shows "\<exists>p. prev = Some p \<and> gi_cutoff p = gi_cutoff g - minute_ms \<and> rm_version (gi_map p) = rm_version (gi_map g)
    \<and> gi_metric p = gi_metric g \<and> now - gi_cutoff p \<le> stale_ms"
  using assms by (auto simp: change_reason_def split: if_splits option.splits)

text \<open>
  C27. A rank is compared only with the minute before: when a row reports \<open>compared\<close>, the previous
  generation ended exactly one minute earlier, has the same map and metric version and is not stale,
  its own answer to the same query ranks the same row, and the reported delta is the difference of
  the two ranks.
\<close>

theorem rank_change_is_from_previous_minute:
  assumes "plain_response g prev q now = Inr r" and "row \<in> set (rp_rows r)"
    and "rc_status (rr_change row) = Compared"
  shows "\<exists>p rp old j k. prev = Some p \<and> gi_cutoff p = gi_cutoff g - minute_ms
    \<and> rm_version (gi_map p) = rm_version (gi_map g) \<and> gi_metric p = gi_metric g
    \<and> now - gi_cutoff p \<le> stale_ms
    \<and> plain_base p q = Inr rp \<and> old \<in> set (rp_rows rp) \<and> rr_id old = rr_id row
    \<and> rr_rank old = Some j \<and> rr_rank row = Some k
    \<and> rc_previous (rr_change row) = Some j \<and> rc_delta (rr_change row) = Some (j - k)"
proof -
  obtain base reason old where base: "plain_base g q = Inr base"
      and why: "change_reason g prev now q (rp_anchor base) = Inr reason"
      and r: "r = finish_response g prev now reason old base"
      and olds: "reason = None \<longrightarrow> (\<exists>p r'. prev = Some p \<and> plain_base p q = Inr r' \<and> old = rp_rows r')"
    by (rule plain_response_rows[OF assms(1)])
  obtain row0 where row: "row = row0\<lparr>rr_change := change_of reason old row0\<rparr>"
    using assms(2) by (auto simp: r finish_response_def Let_def)
  have cmp: "rc_status (change_of reason old row0) = Compared" using assms(3) row by simp
  note c = change_of_compared[OF cmp]
  then have none: "reason = None" by simp
  obtain p where p: "prev = Some p" "gi_cutoff p = gi_cutoff g - minute_ms"
      "rm_version (gi_map p) = rm_version (gi_map g)" "gi_metric p = gi_metric g" "now - gi_cutoff p \<le> stale_ms"
    using change_reason_None why none by blast
  obtain rp where rp: "plain_base p q = Inr rp" "old = rp_rows rp" using olds none p(1) by auto
  obtain o' j k where "o' \<in> set old" "rr_id o' = rr_id row0" "rr_rank o' = Some j" "rr_rank row0 = Some k"
      "rc_previous (change_of reason old row0) = Some j" "rc_delta (change_of reason old row0) = Some (j - k)"
    using c by blast
  then show ?thesis using p rp by (auto simp: row)
qed

section \<open>A concrete generation\<close>

definition flat_series :: series where
  "flat_series = \<lparr>se_first = history_start 0, se_closes = replicate history_size (FFin 100),
     se_totals = replicate (Suc history_size) (FFin 0), se_missing = replicate (Suc history_size) 0,
     se_ratio_15m = only_status INoBaseline, se_ratio_1h = only_status INoBaseline,
     se_position = only_status INoRange\<rparr>"

definition sample_reference :: reference where
  "sample_reference = \<lparr>rf_provider = Bybit, rf_symbol = ''BTCUSDT'', rf_base = ''BTC'', rf_multiplier = 1, rf_revision = ''r1''\<rparr>"

definition sample_mapping :: mapping_row where
  "sample_mapping = \<lparr>mr_id = ''btc'', mr_asset = ''BTC'', mr_status = MVerified, mr_reason = None,
     mr_originals = [\<lparr>og_venue = Bitget, og_id = ''bitget:BTCUSDT'', og_version = 1, og_symbol = ''BTCUSDT'',
       og_base = ''BTC'', og_multiplier = Some 1\<rparr>],
     mr_reference = Some sample_reference,
     mr_widget = \<lparr>wg_status = WReview, wg_symbol = None, wg_reason = None, wg_evidence = [], wg_reference_key = None\<rparr>,
     mr_evidence = [''e'']\<rparr>"

definition sample_map :: ranking_map where
  "sample_map = \<lparr>rm_version = ''v1'', rm_verified_at = 0, rm_roster_generated_at = 0, rm_fingerprint = ''f'',
     rm_source = ''s'', rm_count = 1, rm_rows = [sample_mapping]\<rparr>"

definition sample_input :: "int \<Rightarrow> gen_input" where
  "sample_input cutoff = \<lparr>gi_map = sample_map, gi_cutoff = cutoff, gi_generated_at = cutoff, gi_roster_checked_at = 0,
     gi_roster_health = health_of_status RUnconfigured None, gi_metric = metric_version,
     gi_unavailable = [], gi_disconnected = [], gi_invalid = [],
     gi_series = [(''btc'', flat_series\<lparr>se_first := history_start cutoff\<rparr>)]\<rparr>"

definition sample_query :: query where
  "sample_query = \<lparr>qu_period = Some P15m, qu_reference = ''00:00'', qu_order = Some ByTurnover, qu_minimum = FFin 0\<rparr>"

lemma py_nth_replicate: "- int n \<le> i \<Longrightarrow> i < int n \<Longrightarrow> py_nth (replicate n x) i = Inr x"
  by (auto simp: py_nth_def py_index_def)

lemma f_round_zero [simp]: "f_round 0 = FFin 0" and f_round_one [simp]: "f_round 1 = FFin 1"
  using f_round_representable[of 1] representable_int[of 1] by (simp_all add: f_round_def f_exact_def f_limit_def)

definition flat_at :: "int \<Rightarrow> series" where
  "flat_at cutoff = flat_series\<lparr>se_first := history_start cutoff\<rparr>"

lemma flat_lookups:
  assumes "0 \<le> i" "i < int history_size"
  shows "close_at (flat_at cutoff) i = Inr (Some (FFin 100))"
    "py_nth (se_missing (flat_at cutoff)) (i + 1) = Inr 0"
    "py_nth (se_totals (flat_at cutoff)) (i + 1) = Inr (FFin 0)"
  using assms by (simp_all add: close_at_def flat_at_def flat_series_def py_nth_replicate f_eq_def del: replicate_Suc)

lemma flat_index:
  assumes "minute_ms dvd cutoff" "minute_ms dvd a" "history_start cutoff \<le> a" "a \<le> cutoff"
  shows "0 \<le> series_index (flat_at cutoff) a" "series_index (flat_at cutoff) a < int history_size"
proof -
  obtain i where "i < history_size" "(a - history_start cutoff) div minute_ms = int i"
    using minute_index[OF assms] by blast
  then show "0 \<le> series_index (flat_at cutoff) a" "series_index (flat_at cutoff) a < int history_size"
    by (simp_all add: series_index_def flat_at_def flat_series_def)
qed

lemma flat_calculate:
  assumes "minute_ms dvd cutoff" "minute_ms dvd a" "history_start cutoff \<le> a" "a < cutoff"
  shows "calculate (flat_at cutoff) a cutoff = Inr (Some (FFin 0), Some (FFin 0), Ready)"
    "turnover_window (flat_at cutoff) a cutoff
       = Inr \<lparr>tw_anchor = a, tw_cutoff = cutoff, tw_quote = Some (FFin 0), tw_status = IReady\<rparr>"
proof -
  have le: "history_start cutoff \<le> cutoff" "a \<le> cutoff" "a \<noteq> cutoff" using assms by simp_all
  note i = flat_index[OF assms(1-3) le(2)] and j = flat_index[OF assms(1,1) le(1) order_refl]
  note lookups = flat_lookups[OF i] flat_lookups[OF j]
  have change: "calculate_change (FFin 100) (FFin 100) = Inr (FFin 0)"
    by (simp add: calculate_change_def f_sub_def)
  have "length (se_closes (flat_at cutoff)) = history_size" by (simp add: flat_at_def flat_series_def)
  then show "calculate (flat_at cutoff) a cutoff = Inr (Some (FFin 0), Some (FFin 0), Ready)"
    "turnover_window (flat_at cutoff) a cutoff
       = Inr \<lparr>tw_anchor = a, tw_cutoff = cutoff, tw_quote = Some (FFin 0), tw_status = IReady\<rparr>"
    using le assms(1,2,4) i j
    by (simp_all add: calculate_def turnover_window_def lookups change f_sub_def mk_turnover_window_def
        dvd_eq_mod_eq_0 Let_def)
qed

section \<open>Every valid query is answered\<close>

definition window_valid :: "turnover_window \<Rightarrow> bool" where
  "window_valid w \<longleftrightarrow> (tw_status w = IReady \<longrightarrow> (\<exists>v. tw_quote w = Some (FFin v)))"

lemma mk_turnover_window_ok:
  assumes "a \<le> c" "minute_ms dvd a" "minute_ms dvd c"
  shows "st \<in> {IHistoryMissing, IStarting, IInvalidData, IReferenceUnavailable} \<Longrightarrow>
      \<exists>w. mk_turnover_window a c None st = Inr w \<and> window_valid w"
    "float_finite v \<Longrightarrow> 0 \<le> fval v \<Longrightarrow> \<exists>w. mk_turnover_window a c (Some v) IReady = Inr w \<and> window_valid w"
  using assms by (auto simp: mk_turnover_window_def window_valid_def dvd_eq_mod_eq_0 float_finite_iff)

lemma turnover_window_total:
  assumes s: "series_ok tbl key cutoff s" and d: "minute_ms dvd cutoff" "minute_ms dvd a" "minute_ms dvd c"
    and range: "history_start cutoff \<le> a" "a \<le> c" "c \<le> cutoff"
  shows "\<exists>w. turnover_window s a c = Inr w \<and> window_valid w"
proof -
  note len = series_lengths[OF s] and mk = mk_turnover_window_ok[OF range(2) d(2,3)]
  obtain i where i: "i < history_size" "(a - history_start cutoff) div minute_ms = int i"
    using minute_index[OF d(1,2) range(1)] range by (metis order_trans)
  obtain j where j: "j < history_size" "(c - history_start cutoff) div minute_ms = int j"
    using minute_index[OF d(1,3) _ range(3)] range by (metis order_trans)
  have idx: "series_index s a = int i" "series_index s c = int j"
    using i j by (simp_all add: series_index_def len)
  have nth: "\<exists>x. py_nth (se_missing s) (int k + 1) = Inr x" "\<exists>x. py_nth (se_totals s) (int k + 1) = Inr x"
    if "k < history_size" for k
    using that len by simp_all
  obtain m1 m0 t1 t0 where "py_nth (se_missing s) (int j + 1) = Inr m1" "py_nth (se_missing s) (int i + 1) = Inr m0"
      "py_nth (se_totals s) (int j + 1) = Inr t1" "py_nth (se_totals s) (int i + 1) = Inr t0"
    using nth i j by metis
  then have "turnover_window s a c =
      (if a = c then mk_turnover_window a c None IStarting
       else if m1 \<noteq> m0 then mk_turnover_window a c None IHistoryMissing
       else if \<not> float_finite (f_sub t1 t0) \<or> fval (f_sub t1 t0) < 0 then mk_turnover_window a c None IInvalidData
       else mk_turnover_window a c (Some (f_sub t1 t0)) IReady)"
    using i(1) j(1) unfolding turnover_window_def idx len Let_def by simp
  then show ?thesis
    using mk(1)[of IStarting] mk(1)[of IHistoryMissing] mk(1)[of IInvalidData] mk(2)[of "f_sub t1 t0"]
    by (simp split: if_splits)
qed

lemma compare_turnover_total:
  "window_valid w \<Longrightarrow> window_valid v \<Longrightarrow> \<exists>r. compare_turnover w v = Inr r"
  by (auto simp: compare_turnover_def window_valid_def f_div_None f_eq_def ready_indicator_def
      split: option.split)

lemma shifted_window_total:
  assumes "\<And>s'. s = Some s' \<Longrightarrow> series_ok tbl key cutoff s'"
    and "minute_ms dvd cutoff" "minute_ms dvd a" "history_start cutoff \<le> a - shift * day_ms" "a \<le> cutoff" "0 \<le> shift"
  shows "\<exists>w. shifted_window s a cutoff shift = Inr w \<and> window_valid w"
proof -
  have "minute_ms dvd day_ms" by (simp add: day_ms_def)
  then have d: "minute_ms dvd a - shift * day_ms" "minute_ms dvd cutoff - shift * day_ms"
    using assms(2,3) by simp_all
  have le: "a - shift * day_ms \<le> cutoff - shift * day_ms" "cutoff - shift * day_ms \<le> cutoff"
    using assms(5,6) by (simp_all add: ranking_times)
  show ?thesis
  proof (cases s)
    case None
    then show ?thesis using mk_turnover_window_ok(1)[OF le(1) d] by (simp add: shifted_window_def)
  next
    case (Some s')
    then show ?thesis
      using turnover_window_total[OF assms(1)[OF Some] assms(2) d assms(4) le] by (simp add: shifted_window_def)
  qed
qed

lemma turnover_comparison_total:
  assumes "\<And>s'. s = Some s' \<Longrightarrow> series_ok tbl key cutoff s'"
    and "minute_ms dvd cutoff" "minute_ms dvd a" "history_start cutoff \<le> a - 2 * day_ms" "a \<le> cutoff"
  shows "\<exists>c. turnover_comparison s a cutoff = Inr c"
proof -
  have day: "0 < day_ms" by (simp add: ranking_times)
  have shift: "\<exists>w. shifted_window s a cutoff k = Inr w \<and> window_valid w" if "0 \<le> k" "k \<le> 2" for k
  proof -
    have "k * day_ms \<le> 2 * day_ms" using that day by (intro mult_right_mono) auto
    then show ?thesis
      using shifted_window_total[OF assms(1) assms(2,3) _ assms(5), of s k] that assms(4) by auto
  qed
  obtain w0 w1 w2 where w: "shifted_window s a cutoff 0 = Inr w0" "window_valid w0"
      "shifted_window s a cutoff 1 = Inr w1" "window_valid w1" "shifted_window s a cutoff 2 = Inr w2" "window_valid w2"
    using shift[of 0] shift[of 1] shift[of 2] by auto
  then show ?thesis
    using compare_turnover_total[OF w(2) w(4)] compare_turnover_total[OF w(2) w(6)]
    by (auto simp: turnover_comparison_def)
qed

text \<open>A generation whose series were all built from one validated table.\<close>

definition built_from :: "bar_table \<Rightarrow> gen_input \<Rightarrow> bool" where
  "built_from tbl g \<longleftrightarrow> store_ok tbl \<and> float_bars tbl \<and> minute_ms dvd gi_cutoff g
     \<and> (\<forall>row\<in>set (rm_rows (gi_map g)). mr_reference row \<noteq> None \<longrightarrow>
          (\<exists>s key. series_for g (mr_id row) = Inr s \<and> series_ok tbl key (gi_cutoff g) s))"

lemma make_generation_built:
  assumes "store_ok tbl" and "float_bars tbl"
  shows "cutoff mod minute_ms = 0 \<Longrightarrow> cutoff \<le> at_ms \<Longrightarrow>
      \<exists>g. make_generation m cutoff at_ms tbl un dis bad checked health = Inr g"
    "make_generation m cutoff at_ms tbl un dis bad checked health = Inr g \<Longrightarrow> built_from tbl g \<and> gi_map g = m"
proof -
  have entry: "\<exists>e. series_entry tbl cutoff row = Inr e
      \<and> (\<forall>(i, s)\<in>set e. \<exists>key. series_ok tbl key cutoff s) \<and> (mr_reference row \<noteq> None \<longrightarrow> mr_id row \<in> fst ` set e)"
    if cut: "minute_ms dvd cutoff" for row
  proof (cases "mr_reference row")
    case (Some r)
    obtain s where "series_of_store tbl (reference_key r) cutoff = Inr s" "series_ok tbl (reference_key r) cutoff s"
      using series_of_store_ok[OF assms cut] by blast
    with Some show ?thesis by (auto simp: series_entry_def)
  qed (simp add: series_entry_def)
  show total: "\<exists>g. make_generation m cutoff at_ms tbl un dis bad checked health = Inr g"
    if "cutoff mod minute_ms = 0" "cutoff \<le> at_ms"
  proof -
    have "minute_ms dvd cutoff" using that by (simp add: dvd_eq_mod_eq_0)
    then obtain f where "\<And>row. series_entry tbl cutoff row = Inr (f row)" using entry by metis
    then have "map_ok (series_entry tbl cutoff) (rm_rows m) = Inr (map f (rm_rows m))" by (intro map_ok_total)
    then show ?thesis using that by (simp add: make_generation_def)
  qed
  show "built_from tbl g \<and> gi_map g = m"
    if mk: "make_generation m cutoff at_ms tbl un dis bad checked health = Inr g"
  proof -
    have cut: "minute_ms dvd cutoff" using mk by (auto simp: make_generation_def dvd_eq_mod_eq_0 split: if_splits)
    obtain f where f: "\<And>row. series_entry tbl cutoff row = Inr (f row)" using entry[OF cut] by metis
    then have "map_ok (series_entry tbl cutoff) (rm_rows m) = Inr (map f (rm_rows m))" by (intro map_ok_total)
    then have g: "gi_map g = m" "gi_cutoff g = cutoff" "gi_series g = concat (map f (rm_rows m))"
      using mk by (auto simp: make_generation_def split: if_splits)
    have "\<exists>s key. series_for g (mr_id row) = Inr s \<and> series_ok tbl key cutoff s"
      if row: "row \<in> set (rm_rows m)" "mr_reference row \<noteq> None" for row
    proof -
      have "mr_id row \<in> fst ` set (f row)" using entry[OF cut, of row] f row by auto
      then have "mr_id row \<in> fst ` set (gi_series g)" using row unfolding g by auto
      then obtain s where s: "map_of (rev (gi_series g)) (mr_id row) = Some s"
        by (metis map_of_eq_None_iff not_None_eq set_rev)
      then have "(mr_id row, s) \<in> set (gi_series g)" by (auto dest: map_of_SomeD)
      then obtain row' where "(mr_id row, s) \<in> set (f row')" unfolding g by auto
      then have "\<exists>key. series_ok tbl key cutoff s" using entry[OF cut, of row'] f by auto
      then show ?thesis using s by (auto simp: series_for_def)
    qed
    then show ?thesis using assms cut by (simp add: built_from_def g)
  qed
qed

text \<open>Every anchor of a query fits the history of its generation.\<close>

definition anchor_fits :: "int \<Rightarrow> int \<Rightarrow> bool" where
  "anchor_fits cutoff a \<longleftrightarrow> minute_ms dvd cutoff \<and> minute_ms dvd a \<and> a \<le> cutoff
     \<and> history_start cutoff \<le> a - 2 * day_ms"

lemma anchor_at_fits: "anchor_at cutoff per ref_time = Inr a \<Longrightarrow> anchor_fits cutoff a"
  using anchor_general[where cutoff = cutoff and per = per and reference = ref_time] by (simp add: anchor_fits_def)

lemma anchor_at_total:
  "parse_hhmm ref_time \<noteq> None \<Longrightarrow> minute_ms dvd cutoff \<Longrightarrow> \<exists>a. anchor_at cutoff (Some p) ref_time = Inr a"
  by (cases p) (auto simp: anchor_at_def dvd_eq_mod_eq_0 Let_def)

lemma calculate_total:
  assumes "built_from tbl g" and "series_ok tbl key (gi_cutoff g) s" and fit: "anchor_fits (gi_cutoff g) a"
  shows "\<exists>p. calculate s a (gi_cutoff g) = Inr p"
proof (cases "a = gi_cutoff g")
  case True
  then show ?thesis by (simp add: calculate_def)
next
  case False
  then have "a < gi_cutoff g" "history_start (gi_cutoff g) \<le> a" "minute_ms dvd a" "minute_ms dvd gi_cutoff g" "store_ok tbl"
    using assms by (auto simp: anchor_fits_def built_from_def ranking_times)
  then show ?thesis using calculate_cases[OF _ assms(2)] by metis
qed

lemma close_indicator_total:
  assumes "built_from tbl g" and s: "series_ok tbl key (gi_cutoff g) s"
  shows "\<exists>i. close_indicator g r s = Inr i"
proof -
  let ?last = "history_size - 1"
  have pos: "?last < history_size" by (simp add: history_size_def)
  have ne: "se_closes s \<noteq> []" using series_lengths(1)[OF s] by (auto simp: history_size_def)
  then have last_close: "last (se_closes s) = se_closes s ! ?last"
    using series_lengths(1)[OF s] by (simp add: last_conv_nth)
  have "float_finite (se_closes s ! ?last)"
  proof (cases "bar_at tbl key (minute_at (gi_cutoff g) ?last)")
    case None
    then show ?thesis using s pos by (simp add: series_ok_def)
  next
    case (Some b)
    then have "valid_bar b = Inr ()" using assms(1) by (auto simp: built_from_def store_ok_def bar_at_member list_all_iff)
    then have "float_finite (mb_close b)" using valid_barD(3)[of b "mb_close b"] by (simp add: bar_values_def)
    with Some show ?thesis using s pos by (simp add: series_ok_def)
  qed
  then show ?thesis
    by (auto simp: close_indicator_def close_at_def ne last_close ready_indicator_def split: option.splits if_splits)
qed

lemma all_windows_total: "(\<And>p. \<exists>w. f p = Inr w) \<Longrightarrow> \<exists>ws. all_windows f = Inr ws"
  unfolding all_windows_def by (metis and_then_simps(2))

lemma row_windows_total:
  assumes "built_from tbl g" and "item \<in> set (rm_rows (gi_map g))" and "\<And>p. anchor_fits (gi_cutoff g) (anchors p)"
  shows "\<exists>e. row_windows g anchors item = Inr e \<and> (mr_reference item \<noteq> None \<longrightarrow> mr_id item \<in> fst ` set e)"
proof (cases "mr_reference item")
  case None
  then show ?thesis by (simp add: row_windows_def)
next
  case (Some r)
  obtain s key where s: "series_for g (mr_id item) = Inr s" "series_ok tbl key (gi_cutoff g) s"
    using assms(1,2) Some by (fastforce simp: built_from_def)
  obtain close where close: "close_indicator g r s = Inr close" using close_indicator_total[OF assms(1) s(2)] by blast
  have "\<exists>w. project_window g r s (anchors p) = Inr w" for p
    using calculate_total[OF assms(1) s(2) assms(3)[of p]] by (auto simp: project_window_def split: prod.split)
  then obtain ws where "all_windows (\<lambda>p. project_window g r s (anchors p)) = Inr ws"
    using all_windows_total[of "\<lambda>p. project_window g r s (anchors p)"] by blast
  then show ?thesis using Some s close by (simp add: row_windows_def)
qed

lemma compute_windows_total:
  assumes "built_from tbl g" and "parse_hhmm ref_time \<noteq> None"
  shows "\<exists>t. compute_windows g ref_time = Inr t
    \<and> (\<forall>item\<in>set (rm_rows (gi_map g)). mr_reference item \<noteq> None \<longrightarrow> map_of t (mr_id item) \<noteq> None)"
proof -
  have cut: "minute_ms dvd gi_cutoff g" using assms(1) by (simp add: built_from_def)
  obtain f where f: "\<And>p. anchor_at (gi_cutoff g) (Some p) ref_time = Inr (f p)"
    using anchor_at_total[OF assms(2) cut] by metis
  then have fits: "anchor_fits (gi_cutoff g) (f p)" for p using anchor_at_fits by blast
  have "f = (\<lambda>p. case p of P15m \<Rightarrow> f P15m | P1h \<Rightarrow> f P1h | P24h \<Rightarrow> f P24h | PDaily \<Rightarrow> f PDaily)"
    by (auto split: period.split)
  then have anchors: "period_anchors g ref_time = Inr f" by (simp add: period_anchors_def f)
  let ?has = "\<lambda>item e. mr_reference item \<noteq> None \<longrightarrow> mr_id item \<in> fst ` set e"
  have "\<exists>e. row_windows g f item = Inr e \<and> ?has item e" if "item \<in> set (rm_rows (gi_map g))" for item
    using row_windows_total[OF assms(1) that, of f, OF fits] by blast
  then obtain es where es: "map_ok (row_windows g f) (rm_rows (gi_map g)) = Inr es"
      "list_all2 ?has (rm_rows (gi_map g)) es"
    using map_ok_exists[of "rm_rows (gi_map g)" "row_windows g f" ?has] by blast
  have "map_of (concat es) (mr_id item) \<noteq> None"
    if item: "item \<in> set (rm_rows (gi_map g))" "mr_reference item \<noteq> None" for item
  proof -
    obtain e where e: "e \<in> set es" "mr_id item \<in> fst ` set e"
      using list_all2_partner[OF es(2) item(1)] item(2) by blast
    then have "mr_id item \<in> fst ` set (concat es)" by auto
    then show ?thesis by (simp only: map_of_eq_None_iff not_not)
  qed
  then show ?thesis by (simp add: compute_windows_def anchors es(1))
qed

lemma calculate_row_total:
  assumes "built_from tbl g" and "item \<in> set (rm_rows (gi_map g))"
    and table: "mr_reference item \<noteq> None \<Longrightarrow> map_of table (mr_id item) \<noteq> None"
    and "parse_hhmm ref_time \<noteq> None" and fit: "anchor_fits (gi_cutoff g) anchor"
  shows "\<exists>x. calculate_row g table per ref_time order minimum anchor item = Inr x"
proof -
  have cut: "minute_ms dvd gi_cutoff g" using assms(1) by (simp add: built_from_def)
  have cmp: "\<exists>c. turnover_comparison s anchor (gi_cutoff g) = Inr c"
    if "\<And>s'. s = Some s' \<Longrightarrow> series_ok tbl key (gi_cutoff g) s'" for s key
    using turnover_comparison_total[OF that] fit by (auto simp: anchor_fits_def)
  show ?thesis
  proof (cases "mr_reference item")
    case None
    have "\<exists>ws. all_windows (\<lambda>p. and_then (anchor_at (gi_cutoff g) (Some p) ref_time) (\<lambda>a.
        Inr \<lparr>rw_anchor = a, rw_return = None, rw_turnover = None, rw_state = unreferenced_state (mr_status item)\<rparr>)) = Inr ws"
      using anchor_at_total[OF assms(4) cut] by (intro all_windows_total) (metis and_then_simps(2))
    then show ?thesis using None cmp[of None] by (auto simp: calculate_row_def Let_def)
  next
    case (Some r)
    obtain s key where s: "series_for g (mr_id item) = Inr s" "series_ok tbl key (gi_cutoff g) s"
      using assms(1,2) Some by (fastforce simp: built_from_def)
    obtain close ws where "map_of table (mr_id item) = Some (close, ws)" using table Some by auto
    moreover obtain c where "turnover_comparison (if blocked_key g (reference_key r) then None else Some s)
        anchor (gi_cutoff g) = Inr c"
      using cmp[of None key] cmp[of "Some s" key] s(2) by (cases "blocked_key g (reference_key r)") auto
    ultimately show ?thesis using Some s by (simp add: calculate_row_def)
  qed
qed

lemma plain_base_total:
  assumes "built_from tbl g" and chk: "check_query g q = Inr (per, order, anchor)"
  shows "\<exists>r. plain_base g q = Inr r \<and> rp_anchor r = anchor"
proof -
  have a: "anchor_at (gi_cutoff g) (qu_period q) (qu_reference q) = Inr anchor"
    using chk by (auto simp: check_query_def and_then_Inr split: option.splits if_splits)
  then have fit: "anchor_fits (gi_cutoff g) anchor" by (rule anchor_at_fits)
  have time: "parse_hhmm (qu_reference q) \<noteq> None" using a by (cases "parse_hhmm (qu_reference q)") (simp_all add: anchor_at_def)
  obtain t where t: "compute_windows g (qu_reference q) = Inr t"
      "\<forall>item\<in>set (rm_rows (gi_map g)). mr_reference item \<noteq> None \<longrightarrow> map_of t (mr_id item) \<noteq> None"
    using compute_windows_total[OF assms(1) time] by blast
  let ?calc = "calculate_row g t per (qu_reference q) order (qu_minimum q) anchor"
  have "\<exists>x. ?calc item = Inr x" if "item \<in> set (rm_rows (gi_map g))" for item
    using calculate_row_total[OF assms(1) that _ time fit] t(2) that by blast
  then obtain xs where "map_ok ?calc (rm_rows (gi_map g)) = Inr xs"
    using map_ok_exists[of "rm_rows (gi_map g)" ?calc "\<lambda>_ _. True"] by blast
  then show ?thesis
    by (simp add: plain_base_def chk t(1) calculate_response_def assemble_def Let_def)
qed

lemma check_query_transfer:
  assumes "check_query g q = Inr (per, order, anchor)" and "minute_ms dvd gi_cutoff p"
  shows "\<exists>a. check_query p q = Inr (per, order, a) \<and> anchor_at (gi_cutoff p) (qu_period q) (qu_reference q) = Inr a"
proof -
  have q: "qu_period q = Some per" "qu_order q = Some order"
    using check_query_text[OF assms(1)] by (metis query.select_convs(1), metis query.select_convs(3))
  have "anchor_at (gi_cutoff g) (qu_period q) (qu_reference q) = Inr anchor"
    using assms(1) by (auto simp: check_query_def and_then_Inr split: option.splits if_splits)
  then have "parse_hhmm (qu_reference q) \<noteq> None" by (cases "parse_hhmm (qu_reference q)") (simp_all add: anchor_at_def)
  then obtain a where "anchor_at (gi_cutoff p) (Some per) (qu_reference q) = Inr a"
    using anchor_at_total assms(2) by blast
  then show ?thesis
    using assms(1) q by (auto simp: check_query_def and_then_Inr split: if_splits)
qed


lemma float_sample_bars: "store_ok sample_bars" "float_bars sample_bars"
proof -
  show "store_ok sample_bars" by code_simp
  have "representable 100" "representable 80" "representable 10"
    using representable_int[of 100] representable_int[of 80] representable_int[of 10] by simp_all
  then show "float_bars sample_bars"
    by (simp add: float_bars_def sample_bars_def flat_bar_def bar_values_def f_limit_def)
qed

lemma sample_generation:
  "\<exists>g. make_generation sample_map 600000000 600008000 sample_bars [] [] [] None None = Inr g"
  using float_sample_bars by (rule make_generation_built(1)) (simp_all add: minute_ms_def)

lemma sample_check:
  assumes "gi_cutoff g = 600000000"
  shows "check_query g sample_query = Inr (P15m, ByTurnover, 599100000)"
proof -
  have "parse_hhmm ''00:00'' = Some (0, 0)" by code_simp
  then show ?thesis
    using assms by (simp add: check_query_def anchor_at_def sample_query_def minute_ms_def)
qed



text \<open>The concrete generation ranks its only row first.\<close>

lemma flat_comparison:
  assumes "anchor_fits cutoff a" and "a < cutoff"
  shows "\<exists>c. turnover_comparison (Some (flat_at cutoff)) a cutoff = Inr c"
proof -
  have "minute_ms dvd day_ms" by (simp add: day_ms_def)
  then have "turnover_window (flat_at cutoff) (a - k * day_ms) (cutoff - k * day_ms) = Inr w \<Longrightarrow> window_valid w" for k w
    by (simp add: turnover_window_def mk_turnover_window_def window_valid_def and_then_Inr Let_def float_finite_iff
        split: if_splits) auto
  moreover have "\<exists>w. turnover_window (flat_at cutoff) (a - k * day_ms) (cutoff - k * day_ms) = Inr w"
    if "k \<in> {0, 1, 2}" for k
  proof -
    have fits: "minute_ms dvd a - k * day_ms" "minute_ms dvd cutoff - k * day_ms" "minute_ms dvd cutoff"
      using assms(1) \<open>minute_ms dvd day_ms\<close> by (auto simp: anchor_fits_def)
    have le: "history_start cutoff \<le> a - k * day_ms" "a - k * day_ms < cutoff - k * day_ms" "cutoff - k * day_ms \<le> cutoff"
      using assms that by (auto simp: anchor_fits_def ranking_times)
    note i = flat_index[OF fits(3,1) le(1)] and j = flat_index[OF fits(3,2)]
    have i': "0 \<le> series_index (flat_at cutoff) (a - k * day_ms)"
      "series_index (flat_at cutoff) (a - k * day_ms) < int history_size"
      using i le by simp_all
    have j': "0 \<le> series_index (flat_at cutoff) (cutoff - k * day_ms)"
      "series_index (flat_at cutoff) (cutoff - k * day_ms) < int history_size"
      using j le by simp_all
    have len: "length (se_closes (flat_at cutoff)) = history_size" by (simp add: flat_at_def flat_series_def)
    show ?thesis
      using le i' j' fits
      by (simp add: turnover_window_def flat_lookups[OF i'] flat_lookups[OF j'] len f_sub_def
          mk_turnover_window_def dvd_eq_mod_eq_0 Let_def)
  qed
  ultimately have "\<exists>w. turnover_window (flat_at cutoff) (a - k * day_ms) (cutoff - k * day_ms) = Inr w \<and> window_valid w"
    if "k \<in> {0, 1, 2}" for k
    using that by blast
  from this[of 0] this[of 1] this[of 2] obtain w0 w1 w2 where
    w: "shifted_window (Some (flat_at cutoff)) a cutoff 0 = Inr w0" "window_valid w0"
      "shifted_window (Some (flat_at cutoff)) a cutoff 1 = Inr w1" "window_valid w1"
      "shifted_window (Some (flat_at cutoff)) a cutoff 2 = Inr w2" "window_valid w2"
    by (auto simp: shifted_window_def)
  then show ?thesis
    using compare_turnover_total[OF w(2) w(4)] compare_turnover_total[OF w(2) w(6)]
    by (auto simp: turnover_comparison_def)
qed

lemma flat_base:
  assumes "cutoff = 0 \<or> cutoff = 60000"
  shows "\<exists>r row. plain_base (sample_input cutoff) sample_query = Inr r \<and> rp_rows r = [row]
    \<and> rr_id row = ''btc'' \<and> rr_rank row = Some 1 \<and> rp_anchor r = cutoff - 15 * minute_ms"
proof -
  let ?g = "sample_input cutoff" and ?s = "flat_at cutoff"
  have cut: "minute_ms dvd cutoff" using assms by (auto simp: minute_ms_def)
  have time: "parse_hhmm ''00:00'' = Some (0, 0)" by code_simp
  define f where "f = (\<lambda>p. case p of P15m \<Rightarrow> cutoff - 15 * minute_ms | P1h \<Rightarrow> cutoff - 60 * minute_ms
    | P24h \<Rightarrow> cutoff - day_ms | PDaily \<Rightarrow> - 32400000)"
  have "anchor_at cutoff (Some p) ref_time = Inr (f p)" if "parse_hhmm ref_time = Some (0, 0)" for p ref_time
    using assms that by (cases p) (auto simp: anchor_at_def f_def jst_midnight_def ranking_times)
  then have f: "anchor_at cutoff (Some p) ''00:00'' = Inr (f p)" for p using time by blast
  then have fits: "anchor_fits cutoff (f p)" for p using anchor_at_fits by blast
  have before: "f p < cutoff" for p using assms by (cases p) (auto simp: f_def ranking_times)
  have inp: "gi_cutoff ?g = cutoff" "gi_map ?g = sample_map" "rm_rows sample_map = [sample_mapping]"
    "gi_invalid ?g = []" "gi_unavailable ?g = []" "gi_disconnected ?g = []"
    by (simp_all add: sample_input_def sample_map_def)
  have item: "mr_reference sample_mapping = Some sample_reference" "mr_id sample_mapping = ''btc''"
    by (simp_all add: sample_mapping_def)
  have series: "series_for ?g ''btc'' = Inr ?s" by (simp add: series_for_def sample_input_def flat_at_def)
  have anchors: "period_anchors ?g ''00:00'' = Inr f"
    by (auto simp: period_anchors_def inp f split: period.split)
  define w where "w = (\<lambda>p. \<lparr>rw_anchor = f p, rw_return = Some (FFin 0), rw_turnover = Some (FFin 0), rw_state = Ready\<rparr>)"
  have calc: "calculate ?s (f p) cutoff = Inr (Some (FFin 0), Some (FFin 0), Ready)" for p
    using flat_calculate(1)[OF cut _ _ before] fits[of p] by (auto simp: anchor_fits_def ranking_times)
  have proj: "project_window ?g sample_reference ?s (f p) = Inr (w p)" for p
    by (simp add: project_window_def inp calc window_state_def w_def)
  define ws where "ws = Windows (w P15m) (w P1h) (w P24h) (w PDaily)"
  have wins: "all_windows (\<lambda>p. project_window ?g sample_reference ?s (f p)) = Inr ws"
    by (simp add: all_windows_def proj ws_def)
  have "close_at ?s (- 1) = Inr (Some (FFin 100))"
    by (simp add: close_at_def flat_at_def flat_series_def py_nth_replicate history_size_def f_eq_def del: replicate_Suc)
  then have close: "\<exists>c. close_indicator ?g sample_reference ?s = Inr c"
    by (simp add: close_indicator_def ready_indicator_def)
  then obtain c where c: "close_indicator ?g sample_reference ?s = Inr c" by blast
  have table: "compute_windows ?g ''00:00'' = Inr [(''btc'', c, ws)]"
    by (simp add: compute_windows_def anchors inp row_windows_def item series c wins)
  obtain cmp where cmp: "turnover_comparison (Some ?s) (f P15m) cutoff = Inr cmp"
    using flat_comparison[OF fits before] by blast
  have row: "calculate_row ?g [(''btc'', c, ws)] P15m ''00:00'' ByTurnover (FFin 0) (f P15m) sample_mapping
      = Inr (referenced_row ?g P15m ByTurnover (FFin 0) sample_mapping sample_reference ?s c ws cmp)"
    using cmp by (simp add: calculate_row_def item series blocked_key_def inp)
  let ?row = "fst (referenced_row ?g P15m ByTurnover (FFin 0) sample_mapping sample_reference ?s c ws cmp)"
  have st: "rr_state ?row = Ready" "rr_id ?row = ''btc''"
    by (simp_all add: referenced_row_def bare_row_def Let_def ws_def w_def row_verdict_def filter_state_def item)
  have chk: "check_query ?g sample_query = Inr (P15m, ByTurnover, f P15m)"
    by (simp add: check_query_def sample_query_def inp f)
  have "plain_base ?g sample_query = Inr (assemble ?g P15m ''00:00'' ByTurnover (FFin 0) (f P15m)
      [referenced_row ?g P15m ByTurnover (FFin 0) sample_mapping sample_reference ?s c ws cmp])"
    unfolding plain_base_def chk
    by (simp add: sample_query_def table calculate_response_def inp row)
  then show ?thesis
    using st by (simp add: assemble_def ranked_rows_def ranks_of_def Let_def f_def)
qed

lemma rank_change_is_from_previous_minute_witness:
  "\<exists>r row. plain_response (sample_input 60000) (Some (sample_input 0)) sample_query 70000 = Inr r
     \<and> row \<in> set (rp_rows r) \<and> rc_previous (rr_change row) = Some 1 \<and> rc_delta (rr_change row) = Some 0"
proof -
  let ?g = "sample_input 60000" and ?p = "sample_input 0"
  obtain r row where r: "plain_base ?g sample_query = Inr r" "rp_rows r = [row]" "rr_id row = ''btc''" "rr_rank row = Some 1"
    using flat_base[of 60000] by auto
  obtain s old where s: "plain_base ?p sample_query = Inr s" "rp_rows s = [old]" "rr_id old = ''btc''" "rr_rank old = Some 1"
    using flat_base[of 0] by auto
  have why: "change_reason ?g (Some ?p) 70000 sample_query (rp_anchor r) = Inr None"
    by (simp add: change_reason_def stale_ms_def sample_input_def sample_query_def minute_ms_def)
  let ?r = "finish_response ?g (Some ?p) 70000 None [old] r"
  have resp: "plain_response ?g (Some ?p) sample_query 70000 = Inr ?r"
    by (simp add: plain_response_def r s why)
  let ?row = "row\<lparr>rr_change := change_of None [old] row\<rparr>"
  have mem: "?row \<in> set (rp_rows ?r)" by (simp add: finish_response_def r Let_def)
  have cmp: "rc_status (rr_change ?row) = Compared"
    using r s by (simp add: change_of_def dict_of_def Let_def)
  have "rc_previous (rr_change ?row) = Some 1" using r s by (simp add: change_of_def dict_of_def Let_def)
  moreover have "rr_rank ?row = Some 1" using r by simp
  ultimately have "rc_delta (rr_change ?row) = Some 0"
    using rank_change_is_from_previous_minute[OF resp mem cmp] by auto
  then show ?thesis using resp mem \<open>rc_previous (rr_change ?row) = Some 1\<close> by blast
qed

end
