(* ===== verification/Attention_Models.thy ===== *)
theory Attention_Models
  imports Py_Float
begin

text \<open>
  The contracts of the attention service (\<open>attention-core/models.py\<close>): the feature snapshot it reads,
  the scored rows it publishes and the shadow allocations it recommends.  A record is what the pydantic
  class of that name holds; its \<open>check_\<close> function is what construction runs: first the constraints of
  the fields, then the validator.  Every float of these contracts is finite (\<open>allow_inf_nan=False\<close>).
\<close>

section \<open>Names, statuses and field constraints\<close>

definition attention_minute :: int where "attention_minute = 60000"

datatype component_name = Movement | Activity | Positioning | Dislocation | Confluence

instantiation component_name :: enum
begin

definition enum_component_name :: "component_name list" where
  "enum_component_name = [Movement, Activity, Positioning, Dislocation, Confluence]"

definition enum_all_component_name :: "(component_name \<Rightarrow> bool) \<Rightarrow> bool" where
  "enum_all_component_name P \<longleftrightarrow> list_all P enum_class.enum"

definition enum_ex_component_name :: "(component_name \<Rightarrow> bool) \<Rightarrow> bool" where
  "enum_ex_component_name P \<longleftrightarrow> list_ex P enum_class.enum"

instance
proof
  show "(UNIV :: component_name set) = set enum_class.enum"
    unfolding enum_component_name_def by (auto intro: component_name.exhaust)
  then show "enum_class.enum_all P \<longleftrightarrow> Ball UNIV P" "enum_class.enum_ex P \<longleftrightarrow> Bex UNIV P"
    for P :: "component_name \<Rightarrow> bool"
    unfolding enum_all_component_name_def enum_ex_component_name_def list_all_iff list_ex_iff by auto
qed (simp add: enum_component_name_def)

end

definition components_list :: "component_name list" where
  "components_list = [Movement, Activity, Positioning, Dislocation]"

fun component_text :: "component_name \<Rightarrow> string" where
  "component_text Movement = ''movement''"
| "component_text Activity = ''activity''"
| "component_text Positioning = ''positioning''"
| "component_text Dislocation = ''dislocation''"
| "component_text Confluence = ''confluence''"

datatype feature_status = FsReady | FsMissing | FsStale | FsInvalid | FsUnsupported

datatype component_status = CompReady | CompUnavailable

datatype attention_status = AtReady | AtPartial | AtUnavailable | AtStale

datatype direction = DirUp | DirDown | DirFlat | DirMixed | DirUnknown

datatype identity_status = IdReady | IdPartial | IdInvalid | IdExcluded

definition outcome_cutoff :: "int \<Rightarrow> int" where
  "outcome_cutoff decision_at = (decision_at + attention_minute - 1) div attention_minute * attention_minute"

definition field_error :: "'a result" where
  "field_error = raise_exn ValueError ''Input does not satisfy its field constraint''"

definition between :: "rat \<Rightarrow> rat \<Rightarrow> pyfloat \<Rightarrow> bool" where
  "between a b x \<longleftrightarrow> float_finite x \<and> a \<le> fval x \<and> fval x \<le> b"

definition at_least :: "rat \<Rightarrow> pyfloat \<Rightarrow> bool" where
  "at_least a x \<longleftrightarrow> float_finite x \<and> a \<le> fval x"

definition all_of :: "('a \<Rightarrow> bool) \<Rightarrow> 'a option \<Rightarrow> bool" where
  "all_of P x \<longleftrightarrow> (case x of None \<Rightarrow> True | Some v \<Rightarrow> P v)"

lemma all_of_simps [simp]: "all_of P None" "all_of P (Some x) = P x"
  by (simp_all add: all_of_def)

definition has_text :: "string option \<Rightarrow> bool" where
  "has_text x \<longleftrightarrow> x \<noteq> None \<and> x \<noteq> Some []"

lemma has_text_simps [simp]: "\<not> has_text None" "has_text (Some s) \<longleftrightarrow> s \<noteq> []"
  by (auto simp: has_text_def)

definition after_time :: "int \<Rightarrow> int option \<Rightarrow> bool" where
  "after_time decision_at t \<longleftrightarrow> (case t of None \<Rightarrow> False | Some v \<Rightarrow> decision_at < v)"

section \<open>The feature snapshot\<close>

record source_observation =
  so_source :: string
  so_value :: "pyfloat option"
  so_payload_hash :: "string option"
  so_start_at :: "int option"
  so_end_at :: "int option"
  so_observed_at :: "int option"
  so_source_at :: "int option"
  so_finality :: "string option"
  so_unit :: "string option"

record raw_feature =
  fv_value :: "pyfloat option"
  fv_status :: feature_status
  fv_reason :: "string option"
  fv_unit :: "string option"
  fv_source :: string
  fv_start_at :: "int option"
  fv_end_at :: "int option"
  fv_observed_at :: "int option"
  fv_observations :: "source_observation list"

definition check_raw_feature :: "raw_feature \<Rightarrow> unit result" where
  "check_raw_feature f =
     (if \<not> all_of float_finite (fv_value f)
         \<or> \<not> list_all (\<lambda>x. all_of float_finite (so_value x)) (fv_observations f) then field_error
      else if fv_status f = FsReady \<and> (fv_value f = None \<or> fv_reason f \<noteq> None)
      then raise_exn ValueError ''ready feature requires a value and no reason''
      else if fv_status f \<noteq> FsReady
           \<and> (fv_value f \<noteq> None \<or> \<not> has_text (fv_reason f) \<or> strip (the (fv_reason f)) = [])
      then raise_exn ValueError ''unavailable feature requires null and a reason''
      else case (fv_start_at f, fv_end_at f) of
             (Some s, Some e) \<Rightarrow>
               if e < s then raise_exn ValueError ''feature start follows end'' else Inr ()
           | _ \<Rightarrow> Inr ())"

record input_reference =
  ir_generation_id :: string
  ir_feature_version :: string
  ir_decision_at :: int
  ir_ranking_cutoff :: int
  ir_ranking_generated_at :: int
  ir_ranking_generation_id :: string
  ir_map_version :: string
  ir_metric_version :: string
  ir_universe_generated_at :: int
  ir_service_generated_at :: int
  ir_metrics_generation_id :: "string option"
  ir_metrics_generated_at :: "int option"
  ir_metrics_candle_cutoff :: "int option"
  ir_input_skew_seconds :: pyfloat
  ir_quality_reasons :: "string list"

definition feature_version :: string where
  "feature_version = ''attention-features-v1''"

definition check_input_reference :: "input_reference \<Rightarrow> unit result" where
  "check_input_reference i =
     (if ir_generation_id i = [] \<or> ir_feature_version i \<noteq> feature_version \<or> ir_decision_at i \<le> 0
         \<or> ir_ranking_cutoff i \<le> 0 \<or> ir_ranking_generated_at i \<le> 0 \<or> ir_ranking_generation_id i = []
         \<or> ir_map_version i = [] \<or> ir_metric_version i = [] \<or> ir_universe_generated_at i \<le> 0
         \<or> ir_service_generated_at i \<le> 0 \<or> \<not> at_least 0 (ir_input_skew_seconds i) then field_error
      else if list_ex (after_time (ir_decision_at i))
                [Some (ir_ranking_cutoff i), Some (ir_ranking_generated_at i),
                 Some (ir_universe_generated_at i), Some (ir_service_generated_at i),
                 ir_metrics_generated_at i, ir_metrics_candle_cutoff i]
      then raise_exn ValueError ''future input timestamp''
      else if ir_ranking_cutoff i mod attention_minute \<noteq> 0
              \<or> ir_ranking_generated_at i < ir_ranking_cutoff i
      then raise_exn ValueError ''invalid ranking cutoff''
      else if (ir_metrics_generation_id i = None) \<noteq> (ir_metrics_generated_at i = None)
      then raise_exn ValueError ''metrics identity and time must agree''
      else Inr ())"

record original_reference =
  or_instrument_id :: string
  or_version_id :: int
  or_venue :: string
  or_group_id :: "string option"
  or_multiplier :: "int option"
  or_current :: bool

definition check_original_reference :: "original_reference \<Rightarrow> unit result" where
  "check_original_reference r =
     (if or_version_id r \<le> 0 \<or> \<not> all_of (\<lambda>m. 0 < m) (or_multiplier r) then field_error else Inr ())"

text \<open>
  The eighteen raw features of a row.  The code looks them up by attribute name (\<open>getattr\<close>), so the
  row holds them as a function of the name.
\<close>

datatype feature_name =
    ReferenceClose | ReferenceReturn15m | ReferenceReturn1h | ReferenceReturn24h
  | ReferenceTurnover15m | ReferenceTurnover1h | ReferenceTurnoverRatio15m | ReferenceTurnoverRatio1h
  | ReferenceDayRangePosition | NativeReturn15mMedian | NativeReturn1hMedian
  | OiChange15mMedian | OiChange1hMedian | FundingAbsMaxPerHour | FundingRangePerHour
  | SpreadMedianBps | SpreadMaxBps | MarkDispersionBps

definition feature_names :: "feature_name list" where
  "feature_names =
     [ReferenceClose, ReferenceReturn15m, ReferenceReturn1h, ReferenceReturn24h,
      ReferenceTurnover15m, ReferenceTurnover1h, ReferenceTurnoverRatio15m, ReferenceTurnoverRatio1h,
      ReferenceDayRangePosition, NativeReturn15mMedian, NativeReturn1hMedian,
      OiChange15mMedian, OiChange1hMedian, FundingAbsMaxPerHour, FundingRangePerHour,
      SpreadMedianBps, SpreadMaxBps, MarkDispersionBps]"

lemma feature_names_all [simp]: "f \<in> set feature_names"
  by (cases f) (simp_all add: feature_names_def)

instantiation feature_name :: enum
begin

definition enum_feature_name :: "feature_name list" where
  "enum_feature_name = feature_names"

definition enum_all_feature_name :: "(feature_name \<Rightarrow> bool) \<Rightarrow> bool" where
  "enum_all_feature_name P \<longleftrightarrow> list_all P feature_names"

definition enum_ex_feature_name :: "(feature_name \<Rightarrow> bool) \<Rightarrow> bool" where
  "enum_ex_feature_name P \<longleftrightarrow> list_ex P feature_names"

instance
  by standard (auto simp: enum_feature_name_def enum_all_feature_name_def enum_ex_feature_name_def
      list_all_iff list_ex_iff, simp add: feature_names_def)

end

record feature_row =
  fr_asset_id :: string
  fr_asset :: string
  fr_reference_key :: "string option"
  fr_originals :: "original_reference list"
  fr_decision_at :: int
  fr_identity_status :: identity_status
  fr_quality_reasons :: "string list"
  fr_feature :: "feature_name \<Rightarrow> raw_feature"
  fr_fresh_venues :: int
  fr_ready_venues :: int

definition feature_times :: "raw_feature \<Rightarrow> int option list" where
  "feature_times f =
     [fv_start_at f, fv_end_at f, fv_observed_at f]
     @ concat (map (\<lambda>x. [so_start_at x, so_end_at x, so_observed_at x, so_source_at x]) (fv_observations f))"

definition check_row_feature :: "feature_row \<Rightarrow> raw_feature \<Rightarrow> unit result" where
  "check_row_feature r f =
     (if list_ex (after_time (fr_decision_at r)) (feature_times f)
      then raise_exn ValueError ''future feature observation''
      else if fr_identity_status r \<in> {IdInvalid, IdExcluded} \<and> fv_status f = FsReady
      then raise_exn ValueError ''ineligible identity cannot carry ready features''
      else Inr ())"

definition check_feature_row :: "feature_row \<Rightarrow> unit result" where
  "check_feature_row r =
     and_then (first_error (map check_original_reference (fr_originals r))) (\<lambda>_.
     and_then (first_error (map (\<lambda>n. check_raw_feature (fr_feature r n)) feature_names)) (\<lambda>_.
       if fr_fresh_venues r < 0 \<or> fr_ready_venues r < 0 then field_error
       else first_error (map (\<lambda>n. check_row_feature r (fr_feature r n)) feature_names)))"

section \<open>The scored rows\<close>

record attention_component =
  ac_policy_version :: string
  ac_status :: component_status
  ac_score :: "pyfloat option"
  ac_raw_value :: "pyfloat option"
  ac_rank :: "int option"
  ac_rank_change :: "int option"
  ac_direction :: direction
  ac_reason :: "string option"
  ac_inputs :: "string list"
  ac_peer_count :: int

definition check_component :: "attention_component \<Rightarrow> unit result" where
  "check_component c =
     (if \<not> all_of (between 0 100) (ac_score c) \<or> \<not> all_of float_finite (ac_raw_value c)
         \<or> \<not> all_of (\<lambda>k. 1 \<le> k) (ac_rank c) \<or> ac_peer_count c < 0 then field_error
      else if ac_status c = CompReady
      then (if ac_score c = None \<or> ac_rank c = None \<or> ac_reason c \<noteq> None
            then raise_exn ValueError ''ready component needs score, rank and no reason'' else Inr ())
      else if ac_score c \<noteq> None \<or> ac_rank c \<noteq> None \<or> \<not> has_text (ac_reason c)
      then raise_exn ValueError ''unavailable component needs null score/rank and reason''
      else Inr ())"

text \<open>A row has every component (its validator refuses any other key set): a function of the name.\<close>

record attention_row =
  ar_asset_id :: string
  ar_asset :: string
  ar_reference_key :: "string option"
  ar_originals :: "original_reference list"
  ar_components :: "component_name \<Rightarrow> attention_component"
  ar_ready_count :: int
  ar_coverage_ratio :: pyfloat
  ar_quality_reasons :: "string list"
  ar_data_as_of :: int
  ar_identity_status :: identity_status

definition component_ready :: "attention_row \<Rightarrow> component_name \<Rightarrow> bool" where
  "component_ready r n \<longleftrightarrow> ac_status (ar_components r n) = CompReady"

definition check_attention_row :: "attention_row \<Rightarrow> unit result" where
  "check_attention_row r =
     (let ready = int (length (filter (component_ready r) components_list))
      in if ar_ready_count r < 0 \<or> 4 < ar_ready_count r \<or> \<not> between 0 1 (ar_coverage_ratio r) then field_error
         else if ready \<noteq> ar_ready_count r
                 \<or> \<not> f_eq (ar_coverage_ratio r) (f_round (of_int ready / 4))
         then raise_exn ValueError ''component coverage mismatch''
         else if component_ready r Confluence \<and> ready \<noteq> 4
         then raise_exn ValueError ''confluence requires all four components''
         else Inr ())"

record attention_coverage =
  cv_rows :: int
  cv_eligible :: int
  cv_confluence_ready :: int
  cv_component_ready :: "component_name \<Rightarrow> int"

definition check_attention_coverage :: "attention_coverage \<Rightarrow> unit result" where
  "check_attention_coverage c =
     (if cv_rows c < 0 \<or> cv_eligible c < 0 \<or> cv_confluence_ready c < 0 then field_error else Inr ())"

section \<open>Shadow allocations and the response\<close>

datatype allocation_kind = TopK | Hysteresis | CostAwareGreedy

record allocation_policy =
  ap_id :: string
  ap_kind :: allocation_kind
  ap_component :: component_name
  ap_k :: int
  ap_buffer :: int
  ap_minimum_hold_minutes :: int
  ap_switch_penalty :: pyfloat
  ap_warm_up_cost :: pyfloat

definition check_policy :: "allocation_policy \<Rightarrow> unit result" where
  "check_policy p =
     (if ap_k p \<le> 0 \<or> 100 < ap_k p \<or> ap_buffer p < 0 \<or> ap_minimum_hold_minutes p < 0
         \<or> \<not> at_least 0 (ap_switch_penalty p) \<or> \<not> at_least 0 (ap_warm_up_cost p)
      then field_error else Inr ())"

record shadow_slot =
  sl_asset_id :: string
  sl_group_ids :: "string list"
  sl_entered_at :: int
  sl_score :: pyfloat
  sl_rank :: int

definition check_slot :: "shadow_slot \<Rightarrow> unit result" where
  "check_slot s = (if \<not> between 0 100 (sl_score s) \<or> sl_rank s < 1 then field_error else Inr ())"

record shadow_allocation =
  sa_generation_id :: string
  sa_decision_at :: int
  sa_map_version :: string
  sa_policy :: allocation_policy
  sa_score_policy_version :: string
  sa_manual_selection_id :: "string option"
  sa_comparable :: bool
  sa_reason :: "string option"
  sa_slots :: "shadow_slot list"
  sa_added :: "string list"
  sa_removed :: "string list"
  sa_retained :: "string list"
  sa_added_groups :: "string list"
  sa_removed_groups :: "string list"
  sa_churn :: pyfloat
  sa_switch_cost :: pyfloat

definition check_allocation :: "shadow_allocation \<Rightarrow> unit result" where
  "check_allocation a =
     (if \<not> between 0 1 (sa_churn a) \<or> \<not> at_least 0 (sa_switch_cost a) then field_error else Inr ())"

record attention_response =
  rp_generation_id :: string
  rp_decision_at :: int
  rp_status :: attention_status
  rp_reason :: "string option"
  rp_policy_version :: string
  rp_inputs :: input_reference
  rp_coverage :: attention_coverage
  rp_rows :: "attention_row list"
  rp_allocations :: "shadow_allocation list"

definition check_response :: "attention_response \<Rightarrow> unit result" where
  "check_response r =
     (if rp_generation_id r \<noteq> ir_generation_id (rp_inputs r) \<or> rp_decision_at r \<noteq> ir_decision_at (rp_inputs r)
      then raise_exn ValueError ''generation identity mismatch''
      else if length (remdups (map ar_asset_id (rp_rows r))) \<noteq> length (rp_rows r)
              \<or> int (length (rp_rows r)) \<noteq> cv_rows (rp_coverage r)
      then raise_exn ValueError ''duplicate or missing row''
      else if list_ex (\<lambda>row. rp_decision_at r < ar_data_as_of row) (rp_rows r)
      then raise_exn ValueError ''future row''
      else Inr ())"

text \<open>Constructing a checked value: the value itself, or what its validator raises.\<close>

definition build :: "('a \<Rightarrow> unit result) \<Rightarrow> 'a \<Rightarrow> 'a result" where
  "build check x = and_then (check x) (\<lambda>_. Inr x)"

lemma build_Inr: "build check x = Inr y \<longleftrightarrow> check x = Inr () \<and> y = x"
  by (auto simp: build_def and_then_Inr)

lemma build_ok: "check x = Inr () \<Longrightarrow> build check x = Inr x"
  by (simp add: build_def)

text \<open>What a checked component holds: a ready one a score and a rank, an unavailable one neither.\<close>

lemma check_component_ready:
  assumes "check_component c = Inr ()" and "ac_status c = CompReady"
  shows "\<exists>v k. ac_score c = Some (FFin v) \<and> 0 \<le> v \<and> v \<le> 100 \<and> ac_rank c = Some k \<and> 1 \<le> k"
  using assms
  by (auto simp: check_component_def field_error_def between_def all_of_def float_finite_iff
      split: if_splits option.splits)

lemma check_component_unavailable:
  "check_component c = Inr () \<Longrightarrow> ac_status c = CompUnavailable \<Longrightarrow> ac_score c = None \<and> ac_rank c = None"
  by (auto simp: check_component_def field_error_def split: if_splits)

lemma check_feature_row_value:
  assumes "check_feature_row r = Inr ()" and "fv_status (fr_feature r n) = FsReady"
  shows "\<exists>v. fv_value (fr_feature r n) = Some (FFin v)"
proof -
  have "check_raw_feature (fr_feature r n) = Inr ()"
    using assms(1) by (auto simp: check_feature_row_def and_then_Inr first_error_Inr_all list_all_iff)
  then show ?thesis using assms(2)
    by (auto simp: check_raw_feature_def field_error_def all_of_def float_finite_iff split: if_splits option.splits)
qed

lemma check_feature_row_identity:
  assumes "check_feature_row r = Inr ()" and "fr_identity_status r \<in> {IdInvalid, IdExcluded}"
  shows "fv_status (fr_feature r n) \<noteq> FsReady"
proof -
  have "check_row_feature r (fr_feature r n) = Inr ()"
    using assms(1)
    by (auto simp: check_feature_row_def field_error_def and_then_Inr first_error_Inr_all list_all_iff
        split: if_splits)
  then show ?thesis using assms(2) by (auto simp: check_row_feature_def split: if_splits)
qed

end
