(* ===== verification/Attention_Percentiles.thy ===== *)
theory Attention_Percentiles
  imports Attention_Models "HOL-Library.Product_Lexorder" "HOL-Library.List_Lexorder" "HOL-Library.Char_ord" "HOL-Library.Multiset"
begin

text \<open>
  Cross-sectional midrank percentiles (\<open>attention-core/percentiles.py\<close>).  The dictionary of values is
  an association list with distinct keys; finite floats are sorted by their rational value.  The loop
  over the runs of equal values carries the number of smaller values; the lemmas show that it computes
  the counting definition of a midrank, and that its only rounding is the last division.
\<close>

section \<open>The code\<close>

text \<open>The runs of equal values that \<open>itertools.groupby\<close> yields.\<close>

function value_runs :: "(string \<times> pyfloat) list \<Rightarrow> (string \<times> pyfloat) list list" where
  "value_runs [] = []"
| "value_runs (x # xs) =
     (x # takeWhile (\<lambda>y. snd y = snd x) xs) # value_runs (dropWhile (\<lambda>y. snd y = snd x) xs)"
  by pat_completeness auto
termination by (relation "measure length") (auto intro: le_less_trans[OF length_dropWhile_le])

definition midrank_score :: "int \<Rightarrow> int \<Rightarrow> int \<Rightarrow> pyfloat result" where
  "midrank_score offset tied n =
     (case f_div (f_mul (FFin 100) (f_add (f_round (of_int offset)) (f_round (of_int (tied - 1) / 2))))
                 (f_round (of_int (n - 1))) of
        None \<Rightarrow> raise_exn ZeroDivisionError ''float division by zero''
      | Some score \<Rightarrow> Inr score)"

fun midrank_loop :: "int \<Rightarrow> int \<Rightarrow> (string \<times> pyfloat) list list \<Rightarrow> (string \<times> pyfloat) list result" where
  "midrank_loop n offset [] = Inr []"
| "midrank_loop n offset (tied # runs) =
     and_then (midrank_score offset (int (length tied)) n) (\<lambda>score.
     and_then (midrank_loop n (offset + int (length tied)) runs) (\<lambda>rest.
       Inr (map (\<lambda>x. (fst x, score)) tied @ rest)))"

definition value_order :: "string \<times> pyfloat \<Rightarrow> rat \<times> string" where
  "value_order x = (fval (snd x), fst x)"

definition midrank_percentiles :: "(string \<times> pyfloat) list \<Rightarrow> int \<Rightarrow> (string \<times> pyfloat) list result" where
  "midrank_percentiles vals minimum_peers =
     (if minimum_peers < 1 \<or> \<not> list_all (\<lambda>x. float_finite (snd x)) vals
      then raise_exn ValueError ''invalid percentile input''
      else if int (length vals) < minimum_peers then raise_exn ValueError ''insufficient_peers''
      else if length vals = 1 then Inr (map (\<lambda>x. (fst x, FFin 50)) vals)
      else midrank_loop (int (length vals)) 0 (value_runs (sort_key value_order vals)))"

declare midrank_score_def [unfold_code] value_order_def [unfold_code] midrank_percentiles_def [unfold_code]

section \<open>The counting definition\<close>

definition smaller :: "(string \<times> pyfloat) list \<Rightarrow> pyfloat \<Rightarrow> nat" where
  "smaller xs v = length (filter (\<lambda>x. fval (snd x) < fval v) xs)"

definition equal_to :: "(string \<times> pyfloat) list \<Rightarrow> pyfloat \<Rightarrow> nat" where
  "equal_to xs v = length (filter (\<lambda>x. snd x = v) xs)"

definition midrank :: "(string \<times> pyfloat) list \<Rightarrow> pyfloat \<Rightarrow> rat" where
  "midrank xs v =
     100 * (of_nat (smaller xs v) + (of_nat (equal_to xs v) - 1) / 2) / of_nat (length xs - 1)"

text \<open>The arithmetic before the last division is exact for up to \<open>2 ^ 40\<close> values.\<close>

lemma half_float:
  assumes "\<bar>k\<bar> \<le> 2 ^ 53"
  shows "f_round (of_int k / 2) = FFin (of_int k / 2)"
proof (rule f_round_representable)
  show "representable (of_int k / 2)" using assms by (rule representable_half)
  have "\<bar>of_int k / 2 :: rat\<bar> = of_int \<bar>k\<bar> / 2" by simp
  also have "\<dots> \<le> of_int (2 ^ 53) / 2" using assms by (simp only: divide_le_cancel of_int_le_iff) simp
  also have "\<dots> < f_limit" by (simp add: f_limit_def)
  finally show "\<bar>of_int k / 2 :: rat\<bar> < f_limit" .
qed

lemma int_float: "\<bar>k\<bar> \<le> 2 ^ 52 \<Longrightarrow> f_round (of_int k) = FFin (of_int k)"
  using half_float[of "2 * k"] by simp

lemma midrank_score_exact:
  assumes "0 \<le> offset" "1 \<le> tied" "offset + tied \<le> n" "2 \<le> n" "n \<le> 2 ^ 40"
  shows "midrank_score offset tied n
    = Inr (f_round (100 * (of_int offset + of_int (tied - 1) / 2) / of_int (n - 1)))"
proof -
  let ?h = "2 * offset + (tied - 1)"
  have sum: "of_int offset + of_int (tied - 1) / 2 = (of_int ?h / 2 :: rat)" by (simp add: field_simps)
  have prod: "100 * (of_int ?h / 2) = (of_int (100 * ?h) / 2 :: rat)" by simp
  have small: "\<bar>offset\<bar> \<le> 2 ^ 52" "\<bar>n - 1\<bar> \<le> 2 ^ 52" "\<bar>tied - 1\<bar> \<le> 2 ^ 53" "\<bar>?h\<bar> \<le> 2 ^ 53" "\<bar>100 * ?h\<bar> \<le> 2 ^ 53"
    using assms by simp_all
  have "f_add (f_round (of_int offset)) (f_round (of_int (tied - 1) / 2)) = FFin (of_int ?h / 2)"
    using int_float[OF small(1)] half_float[OF small(3)] half_float[OF small(4)]
    by (simp only: f_add.simps sum)
  then have "f_mul (FFin 100) (f_add (f_round (of_int offset)) (f_round (of_int (tied - 1) / 2)))
      = FFin (100 * (of_int ?h / 2))"
    using half_float[OF small(5)] by (simp only: f_mul.simps prod)
  moreover have "(of_int (n - 1) :: rat) \<noteq> 0" using assms(4) by simp
  ultimately show ?thesis unfolding midrank_score_def int_float[OF small(2)] sum by simp
qed

section \<open>The loop computes the counting definition\<close>

lemma concat_value_runs [simp]: "concat (value_runs xs) = xs"
  by (induction xs rule: value_runs.induct) simp_all

lemma sorted_value_order: "sorted (map (\<lambda>x. fval (snd x)) (sort_key value_order xs))"
proof -
  have "sorted (map value_order (sort_key value_order xs))" by simp
  then have "sorted_wrt (\<lambda>x y. value_order x \<le> value_order y) (sort_key value_order xs)"
    by (simp only: sorted_map)
  then have "sorted_wrt (\<lambda>x y. fval (snd x) \<le> fval (snd y)) (sort_key value_order xs)"
    by (rule sorted_wrt_mono_rel[rotated]) (auto simp: value_order_def less_eq_prod_def)
  then show ?thesis by (simp only: sorted_map)
qed

lemma first_run_above:
  "sorted (map (\<lambda>y. fval (snd y)) xs) \<Longrightarrow> \<forall>y\<in>set xs. float_finite (snd y) \<and> fval (snd x) \<le> fval (snd y)
    \<Longrightarrow> float_finite (snd x) \<Longrightarrow> \<forall>y\<in>set (dropWhile (\<lambda>y. snd y = snd x) xs). fval (snd x) < fval (snd y)"
proof (induction xs)
  case (Cons y ys)
  then show ?case
  proof (cases "snd y = snd x")
    case False
    then have "fval (snd x) < fval (snd y)" using Cons.prems by (auto simp: float_finite_iff)
    then show ?thesis using False Cons.prems(1) by auto
  qed simp
qed simp

lemma filter_first_run:
  assumes "\<forall>y\<in>set (dropWhile (\<lambda>y. snd y = snd x) xs). fval (snd x) < fval (snd y)"
  shows "filter (\<lambda>y. snd y = snd x) xs = takeWhile (\<lambda>y. snd y = snd x) xs"
proof -
  let ?p = "\<lambda>y. snd y = snd x"
  have "filter ?p xs = filter ?p (takeWhile ?p xs) @ filter ?p (dropWhile ?p xs)"
    by (simp only: filter_append[symmetric] takeWhile_dropWhile_id)
  moreover have "filter ?p (takeWhile ?p xs) = takeWhile ?p xs" by (auto simp: filter_id_conv dest: set_takeWhileD)
  moreover have "filter ?p (dropWhile ?p xs) = []" using assms by (fastforce simp: filter_empty_conv)
  ultimately show ?thesis by simp
qed

text \<open>What splitting off the first run does to the two counts.\<close>

lemma counts_append:
  "smaller (xs @ ys) v = smaller xs v + smaller ys v" "equal_to (xs @ ys) v = equal_to xs v + equal_to ys v"
  by (simp_all add: smaller_def equal_to_def)

lemma counts_run:
  assumes "\<forall>z\<in>set run. snd z = u"
  shows "smaller run u = 0" "equal_to run u = length run"
    "fval u < fval v \<Longrightarrow> smaller run v = length run" "fval u < fval v \<Longrightarrow> equal_to run v = 0"
  using assms by (auto simp: smaller_def equal_to_def filter_empty_conv intro!: arg_cong[of _ _ length] filter_True)

lemma counts_above:
  assumes "\<forall>z\<in>set rest. fval v < fval (snd z)"
  shows "smaller rest v = 0" "equal_to rest v = 0"
  using assms by (auto simp: smaller_def equal_to_def filter_empty_conv)

lemma midrank_loop_counts:
  assumes "sorted (map (\<lambda>x. fval (snd x)) xs)" "\<forall>x\<in>set xs. float_finite (snd x)"
    "0 \<le> offset" "offset + int (length xs) \<le> n" "2 \<le> n" "n \<le> 2 ^ 40"
  shows "midrank_loop n offset (value_runs xs)
    = Inr (map (\<lambda>x. (fst x, f_round (100 * (of_int offset + of_nat (smaller xs (snd x))
                                      + (of_nat (equal_to xs (snd x)) - 1) / 2) / of_int (n - 1)))) xs)"
  using assms
proof (induction xs arbitrary: offset rule: value_runs.induct)
  case (2 x xs)
  let ?p = "\<lambda>y. snd y = snd x"
  let ?run = "x # takeWhile ?p xs" and ?rest = "dropWhile ?p xs"
  have split: "x # xs = ?run @ ?rest" by simp
  have len: "length (x # xs) = length ?run + length ?rest" by (simp only: split length_append)
  have above: "\<forall>y\<in>set ?rest. fval (snd x) < fval (snd y)"
    using "2.prems"(1,2) by (intro first_run_above) auto
  have tied: "\<forall>y\<in>set ?run. snd y = snd x" by (auto dest: set_takeWhileD)
  have run: "smaller (x # xs) (snd y) = 0 \<and> equal_to (x # xs) (snd y) = length ?run" if "y \<in> set ?run" for y
    unfolding split counts_append bspec[OF tied that] counts_run(1,2)[OF tied] counts_above[OF above] by simp
  have rest: "smaller (x # xs) (snd y) = length ?run + smaller ?rest (snd y) \<and>
    equal_to (x # xs) (snd y) = equal_to ?rest (snd y)" if "y \<in> set ?rest" for y
    unfolding split counts_append counts_run(3,4)[OF tied bspec[OF above that]] by simp
  have loop: "midrank_loop n (offset + int (length ?run)) (value_runs ?rest)
      = Inr (map (\<lambda>y. (fst y, f_round (100 * (of_int (offset + int (length ?run)) + of_nat (smaller ?rest (snd y))
                                      + (of_nat (equal_to ?rest (snd y)) - 1) / 2) / of_int (n - 1)))) ?rest)"
  proof (rule "2.IH")
    show "sorted (map (\<lambda>x. fval (snd x)) ?rest)"
      using "2.prems"(1) unfolding split map_append sorted_append by blast
    show "\<forall>x\<in>set ?rest. float_finite (snd x)" using "2.prems"(2) by (auto dest: set_dropWhileD)
  qed (use "2.prems"(3-6) len in simp_all)
  have head: "midrank_score offset (int (length ?run)) n
      = Inr (f_round (100 * (of_int offset + of_int (int (length ?run) - 1) / 2) / of_int (n - 1)))"
    using "2.prems" len by (intro midrank_score_exact) simp_all
  have "map (\<lambda>y. (fst y, f_round (100 * (of_int offset + of_int (int (length ?run) - 1) / 2) / of_int (n - 1)))) ?run
      = map (\<lambda>y. (fst y, f_round (100 * (of_int offset + of_nat (smaller (x # xs) (snd y))
                              + (of_nat (equal_to (x # xs) (snd y)) - 1) / 2) / of_int (n - 1)))) ?run"
    by (rule map_cong[OF refl]) (use run in simp)
  moreover have "map (\<lambda>y. (fst y, f_round (100 * (of_int (offset + int (length ?run)) + of_nat (smaller ?rest (snd y))
                              + (of_nat (equal_to ?rest (snd y)) - 1) / 2) / of_int (n - 1)))) ?rest
      = map (\<lambda>y. (fst y, f_round (100 * (of_int offset + of_nat (smaller (x # xs) (snd y))
                              + (of_nat (equal_to (x # xs) (snd y)) - 1) / 2) / of_int (n - 1)))) ?rest"
    by (rule map_cong[OF refl]) (use rest in \<open>simp add: add.assoc\<close>)
  ultimately show ?case
    unfolding value_runs.simps midrank_loop.simps head loop and_then_simps sum.inject
    by (simp only: map_append[symmetric] split[symmetric])
qed simp
lemma counts_perm:
  assumes "mset xs = mset ys"
  shows "smaller xs v = smaller ys v" "equal_to xs v = equal_to ys v"
  using assms unfolding smaller_def equal_to_def by (metis mset_filter size_mset)+

lemma midrank_percentiles_ok:
  assumes "1 \<le> m" "m \<le> int (length vals)" "\<forall>x\<in>set vals. float_finite (snd x)" "int (length vals) \<le> 2 ^ 40"
  shows "midrank_percentiles vals m =
    Inr (map (\<lambda>x. (fst x, if length vals = 1 then FFin 50 else f_round (midrank vals (snd x))))
           (if length vals = 1 then vals else sort_key value_order vals))"
proof (cases "length vals = 1")
  case True
  then show ?thesis using assms by (simp add: midrank_percentiles_def list_all_iff)
next
  case False
  let ?s = "sort_key value_order vals"
  have n: "2 \<le> int (length vals)" using False assms(1,2) by linarith
  have counts: "smaller ?s v = smaller vals v" "equal_to ?s v = equal_to vals v" for v
    by (simp_all add: counts_perm[of ?s vals])
  have "midrank_loop (int (length vals)) 0 (value_runs ?s)
      = Inr (map (\<lambda>x. (fst x, f_round (100 * (of_int 0 + of_nat (smaller ?s (snd x))
                  + (of_nat (equal_to ?s (snd x)) - 1) / 2) / of_int (int (length vals) - 1)))) ?s)"
    using assms n by (intro midrank_loop_counts sorted_value_order) simp_all
  moreover have "(of_int (int (length vals) - 1) :: rat) = of_nat (length vals - 1)"
    using n by (simp add: of_nat_diff)
  ultimately show ?thesis using False assms
    by (simp add: midrank_percentiles_def list_all_iff midrank_def counts)
qed

lemma midrank_bounds:
  assumes "x \<in> set vals" "2 \<le> length vals"
  shows "0 \<le> midrank vals (snd x)" "midrank vals (snd x) \<le> 100"
proof -
  let ?s = "smaller vals (snd x)" and ?e = "equal_to vals (snd x)" and ?n = "length vals - 1"
  have "?e \<noteq> 0" using assms(1) by (auto simp: equal_to_def filter_empty_conv)
  moreover have "?s + ?e \<le> length vals"
  proof -
    have "?e \<le> length (filter (\<lambda>y. \<not> fval (snd y) < fval (snd x)) vals)"
      unfolding equal_to_def by (rule length_filter_le_mono) auto
    then show ?thesis
      using sum_length_filter_compl[of "\<lambda>y. fval (snd y) < fval (snd x)" vals] by (simp add: smaller_def)
  qed
  ultimately have h: "(0::rat) \<le> of_nat ?e - 1" "of_nat ?s + (of_nat ?e - 1) / 2 \<le> (of_nat ?n :: rat)"
    using assms(2) by (simp_all add: of_nat_diff field_simps flip: of_nat_add)
  have pos: "(0::rat) < of_nat ?n" using assms(2) by simp
  show "0 \<le> midrank vals (snd x)" using h(1) by (simp add: midrank_def)
  show "midrank vals (snd x) \<le> 100"
    using mult_left_mono[OF h(2), of 100] pos
    unfolding midrank_def by (simp add: pos_divide_le_eq)
qed

lemma midrank_mono:
  assumes "x \<in> set vals" "y \<in> set vals" "\<forall>z\<in>set vals. float_finite (snd z)" "fval (snd x) \<le> fval (snd y)"
  shows "midrank vals (snd x) \<le> midrank vals (snd y)"
proof (cases "snd x = snd y")
  case False
  then have less: "fval (snd x) < fval (snd y)" using assms(4) bspec[OF assms(3,1)] bspec[OF assms(3,2)] by (auto simp: float_finite_iff)
  have "smaller vals (snd x) + equal_to vals (snd x)
      = length (filter (\<lambda>z. fval (snd z) < fval (snd x) \<or> snd z = snd x) vals)"
    unfolding smaller_def equal_to_def by (induction vals) auto
  also have "\<dots> \<le> smaller vals (snd y)"
    unfolding smaller_def using less by (intro length_filter_le_mono) auto
  finally have le: "smaller vals (snd x) + equal_to vals (snd x) \<le> smaller vals (snd y)" .
  have "1 \<le> equal_to vals (snd y)" "1 \<le> equal_to vals (snd x)"
    using assms(1,2) by (auto simp: equal_to_def Suc_le_eq filter_empty_conv)
  then have "of_nat (smaller vals (snd x)) + (of_nat (equal_to vals (snd x)) - 1) / 2
      \<le> (of_nat (smaller vals (snd y)) + (of_nat (equal_to vals (snd y)) - 1) / 2 :: rat)"
    using le by (simp add: field_simps flip: of_nat_add)
  then show ?thesis unfolding midrank_def by (intro divide_right_mono mult_left_mono) simp_all
qed simp

lemma float_hundred: "0 \<le> v \<Longrightarrow> v \<le> 100 \<Longrightarrow> \<exists>w. f_round v = FFin w \<and> 0 \<le> w \<and> w \<le> 100"
  using f_round_finite_bounds[of 0 100 v] representable_int[of 100]
  by (simp add: representable_def f_limit_def)

lemma percentile_between:
  assumes "x \<in> set vals" "2 \<le> length vals"
  shows "between 0 100 (f_round (midrank vals (snd x)))"
  using float_hundred[OF midrank_bounds[OF assms]] by (auto simp: between_def)

lemma f_round_mono:
  assumes "f_round a = FFin x" "f_round b = FFin y" "a \<le> b"
  shows "x \<le> y"
  using assms f_exact_mono[of a b] by (auto simp: f_round_def Let_def split: if_splits)

definition percentile :: "(string \<times> pyfloat) list \<Rightarrow> pyfloat \<Rightarrow> pyfloat" where
  "percentile vals v = (if length vals = 1 then FFin 50 else f_round (midrank vals v))"

lemma percentile_member_between:
  assumes "x \<in> set vals"
  shows "between 0 100 (percentile vals (snd x))"
proof (cases "length vals = 1")
  case False
  then have "2 \<le> length vals" using length_pos_if_in_set[OF assms] by linarith
  then show ?thesis using percentile_between[OF assms] False by (simp add: percentile_def)
qed (simp add: percentile_def between_def)

lemma percentile_mono:
  assumes "x \<in> set vals" "y \<in> set vals" "\<forall>z\<in>set vals. float_finite (snd z)" "f_le (snd x) (snd y)"
  shows "f_le (percentile vals (snd x)) (percentile vals (snd y))"
proof (cases "length vals = 1")
  case False
  have "fval (snd x) \<le> fval (snd y)"
    using assms(4) bspec[OF assms(3,1)] bspec[OF assms(3,2)] by (auto simp: float_finite_iff)
  then have le: "midrank vals (snd x) \<le> midrank vals (snd y)" using assms(1-3) by (rule_tac midrank_mono)
  obtain a b where ab: "percentile vals (snd x) = FFin a" "percentile vals (snd y) = FFin b"
    using percentile_member_between[OF assms(1)] percentile_member_between[OF assms(2)]
    by (auto simp: between_def float_finite_iff)
  then show ?thesis using False f_round_mono[OF _ _ le] by (simp add: percentile_def)
qed (simp add: percentile_def)

lemma map_of_scored:
  "distinct (map fst xs) \<Longrightarrow> map_of (map (\<lambda>x. (fst x, g (snd x))) xs) k = map_option g (map_of xs k)"
  by (induction xs) auto

text \<open>
  What the scoring relies on: the percentiles of a dictionary with enough finite values, as a dictionary.
\<close>

lemma percentiles_scored:
  assumes "1 \<le> m" "m \<le> int (length vals)" "\<forall>x\<in>set vals. float_finite (snd x)" "int (length vals) \<le> 2 ^ 40"
    "distinct (map fst vals)"
  obtains rs where "midrank_percentiles vals m = Inr rs" "distinct (map fst rs)" "set (map fst rs) = set (map fst vals)"
    "\<And>k. map_of rs k = map_option (percentile vals) (map_of vals k)"
proof -
  define s where "s = (if length vals = 1 then vals else sort_key value_order vals)"
  have s: "mset s = mset vals" by (simp add: s_def)
  then have d: "distinct (map fst s)" "set s = set vals"
    using assms(5) by (metis mset_eq_imp_distinct_iff mset_map, metis mset_eq_setD)
  have eq: "map_of s = map_of vals"
    using d assms(5) by (intro map_of_inject_set[THEN iffD2]) simp_all
  have "midrank_percentiles vals m = Inr (map (\<lambda>x. (fst x, percentile vals (snd x))) s)"
    using midrank_percentiles_ok[OF assms(1-4)] by (simp add: percentile_def s_def)
  then show ?thesis
    by (rule that) (use d in \<open>simp_all add: o_def map_of_scored eq\<close>)
qed

text \<open>
  C26. The run-length loop of \<open>midrank_percentiles\<close> computes the counting definition of a midrank
  percentile: for a dictionary of at least \<open>minimum_peers\<close> finite values it returns, for exactly the keys
  of the dictionary, 100 times the number of smaller values plus half the number of other equal values,
  over the number of other values, rounded once to a float (50 for a single value).  Every percentile is
  between 0 and 100 and percentiles are monotone in the values.
\<close>

theorem percentiles_are_midranks:
  assumes "distinct (map fst vals)" and "\<forall>x\<in>set vals. float_finite (snd x)"
    and "1 \<le> m" "m \<le> int (length vals)" "int (length vals) \<le> 2 ^ 40"
  shows "\<exists>rs. midrank_percentiles vals m = Inr rs \<and> distinct (map fst rs)
    \<and> (\<forall>k. map_of rs k = map_option (percentile vals) (map_of vals k))
    \<and> (\<forall>x\<in>set vals. between 0 100 (percentile vals (snd x))
         \<and> (\<forall>y\<in>set vals. f_le (snd x) (snd y)
              \<longrightarrow> f_le (percentile vals (snd x)) (percentile vals (snd y))))"
proof -
  obtain rs where "midrank_percentiles vals m = Inr rs" "distinct (map fst rs)"
    "\<And>k. map_of rs k = map_option (percentile vals) (map_of vals k)"
    using percentiles_scored[OF assms(3,4,2,5,1)] by metis
  then show ?thesis using percentile_member_between percentile_mono[OF _ _ assms(2)] by blast
qed

definition sample_values :: "(string \<times> pyfloat) list" where
  "sample_values = [(''a'', FFin 3), (''b'', FFin 1), (''c'', FFin 3), (''d'', FFin 2)]"

theorem percentiles_are_midranks_witness:
  "\<exists>rs. midrank_percentiles sample_values 2 = Inr rs
    \<and> map_of rs ''a'' = Some (percentile sample_values (FFin 3))"
proof -
  have d: "distinct (map fst sample_values)" "\<forall>x\<in>set sample_values. float_finite (snd x)"
    "2 \<le> int (length sample_values)" "int (length sample_values) \<le> 2 ^ 40"
    by (simp_all add: sample_values_def)
  have "map_of sample_values ''a'' = Some (FFin 3)" by (simp add: sample_values_def)
  with percentiles_are_midranks[OF d(1,2) _ d(3,4)] show ?thesis by auto
qed

end
