(* ===== verification/Attention_Scoring.thy ===== *)
theory Attention_Scoring
  imports Attention_Percentiles
begin

text \<open>
  Scoring one generation of attention rows (\<open>attention-core/components.py\<close>).  The passes over
  the components visit the feature rows in order and fill one dictionary entry per row; since the asset ids
  are checked to be distinct, such a dictionary is the list of its values in feature order.  A ready
  feature has a value (\<open>check_raw_feature\<close>): the \<open>TypeError\<close> branch is what the code does without one.
\<close>

section \<open>Raw values of a component\<close>

record component_policy =
  cp_version :: string
  cp_minimum_peers :: int

definition check_component_policy :: "component_policy \<Rightarrow> unit result" where
  "check_component_policy p =
     (if cp_version p = [] \<or> cp_minimum_peers p < 1 then raise_exn ValueError ''invalid_component_policy'' else Inr ())"

fun candidates :: "component_name \<Rightarrow> feature_name list" where
  "candidates Movement = [ReferenceReturn15m, ReferenceReturn1h]"
| "candidates Activity = [ReferenceTurnoverRatio15m, ReferenceTurnoverRatio1h]"
| "candidates Positioning = [OiChange15mMedian, OiChange1hMedian, FundingAbsMaxPerHour]"
| "candidates Dislocation = [MarkDispersionBps, FundingRangePerHour, SpreadMaxBps]"
| "candidates Confluence = []"

fun feature_text :: "feature_name \<Rightarrow> string" where
  "feature_text ReferenceClose = ''reference_close''"
| "feature_text ReferenceReturn15m = ''reference_return15m''"
| "feature_text ReferenceReturn1h = ''reference_return1h''"
| "feature_text ReferenceReturn24h = ''reference_return24h''"
| "feature_text ReferenceTurnover15m = ''reference_turnover15m''"
| "feature_text ReferenceTurnover1h = ''reference_turnover1h''"
| "feature_text ReferenceTurnoverRatio15m = ''reference_turnover_ratio15m''"
| "feature_text ReferenceTurnoverRatio1h = ''reference_turnover_ratio1h''"
| "feature_text ReferenceDayRangePosition = ''reference_day_range_position''"
| "feature_text NativeReturn15mMedian = ''native_return15m_median''"
| "feature_text NativeReturn1hMedian = ''native_return1h_median''"
| "feature_text OiChange15mMedian = ''oi_change15m_median''"
| "feature_text OiChange1hMedian = ''oi_change1h_median''"
| "feature_text FundingAbsMaxPerHour = ''funding_abs_max_per_hour''"
| "feature_text FundingRangePerHour = ''funding_range_per_hour''"
| "feature_text SpreadMedianBps = ''spread_median_bps''"
| "feature_text SpreadMaxBps = ''spread_max_bps''"
| "feature_text MarkDispersionBps = ''mark_dispersion_bps''"

fun f_abs :: "pyfloat \<Rightarrow> pyfloat" where
  "f_abs (FFin v) = FFin \<bar>v\<bar>"
| "f_abs (FInf s) = FInf False"
| "f_abs FNaN = FNaN"

definition magnitude :: "component_name \<Rightarrow> pyfloat \<Rightarrow> pyfloat" where
  "magnitude name v = (if name \<noteq> Activity then f_abs v else v)"

text \<open>Python's \<open>max\<close> with a key: the first of the greatest elements.\<close>

fun first_max :: "('a \<Rightarrow> pyfloat) \<Rightarrow> 'a \<Rightarrow> 'a list \<Rightarrow> 'a" where
  "first_max key x [] = x"
| "first_max key x (y # ys) = first_max key (if f_less (key x) (key y) then y else x) ys"

definition ready_value :: "feature_row \<Rightarrow> feature_name \<Rightarrow> (feature_name \<times> pyfloat) result" where
  "ready_value row field =
     (case fv_value (fr_feature row field) of
        None \<Rightarrow> raise_exn TypeError ''bad operand type for abs(): NoneType''
      | Some v \<Rightarrow> Inr (field, v))"

definition eligible_identity :: "identity_status \<Rightarrow> bool" where
  "eligible_identity s \<longleftrightarrow> s = IdReady \<or> s = IdPartial"

record picked =
  pk_raw :: pyfloat
  pk_field :: feature_name
  pk_direction :: direction

definition direction_of :: "component_name \<Rightarrow> pyfloat \<Rightarrow> direction" where
  "direction_of name v =
     (if name = Movement
      then if f_less (FFin 0) v then DirUp else if f_less v (FFin 0) then DirDown else DirFlat
      else DirUnknown)"

definition pick :: "component_name \<Rightarrow> feature_row \<Rightarrow> picked option result" where
  "pick name row =
     (if \<not> eligible_identity (fr_identity_status row) then Inr None
      else and_then (map_ok (ready_value row)
                      (filter (\<lambda>f. fv_status (fr_feature row f) = FsReady) (candidates name))) (\<lambda>available.
        case available of
          [] \<Rightarrow> Inr None
        | x # xs \<Rightarrow>
            let (field, v) = first_max (\<lambda>p. magnitude name (snd p)) x xs
            in Inr (Some \<lparr>pk_raw = magnitude name v, pk_field = field, pk_direction = direction_of name v\<rparr>)))"

text \<open>The dictionary \<open>raw\<close> of a component, and the ranks of a dictionary of scores.\<close>

definition raw_values :: "(feature_row \<times> picked option) list \<Rightarrow> (string \<times> pyfloat) list" where
  "raw_values picks =
     concat (map (\<lambda>(row, p). case p of None \<Rightarrow> [] | Some q \<Rightarrow> [(fr_asset_id row, pk_raw q)]) picks)"

definition score_order :: "string \<times> pyfloat \<Rightarrow> rat \<times> string" where
  "score_order x = (- fval (snd x), fst x)"

definition rank_table :: "(string \<times> pyfloat) list \<Rightarrow> (string \<times> int) list" where
  "rank_table scores =
     (let ordered = map fst (sort_key score_order scores)
      in zip ordered (map int [1..<length ordered + 1]))"

section \<open>One component of every row\<close>

definition previous_row :: "attention_row list \<Rightarrow> string \<Rightarrow> attention_row option" where
  "previous_row rows a = map_of (rev (map (\<lambda>r. (ar_asset_id r, r)) rows)) a"

definition rank_change_from :: "attention_row list \<Rightarrow> component_name \<Rightarrow> string \<Rightarrow> int \<Rightarrow> int option" where
  "rank_change_from rows name a rank =
     (case previous_row rows a of
        None \<Rightarrow> None
      | Some r \<Rightarrow> map_option (\<lambda>k. k - rank) (ac_rank (ar_components r name)))"

definition unavailable_reason :: "feature_row \<Rightarrow> picked option \<Rightarrow> string" where
  "unavailable_reason row p =
     (if fr_identity_status row \<in> {IdInvalid, IdExcluded} then ''identity_ineligible''
      else if p \<noteq> None then ''insufficient_peers'' else ''no_ready_inputs'')"

definition scored_component ::
    "component_policy \<Rightarrow> attention_row list \<Rightarrow> component_name \<Rightarrow> (string \<times> pyfloat) list
      \<Rightarrow> (string \<times> pyfloat) list \<Rightarrow> feature_row \<times> picked option \<Rightarrow> attention_component" where
  "scored_component policy previous name raw scores = (\<lambda>(row, p).
     (case (map_of scores (fr_asset_id row), map_of (rank_table scores) (fr_asset_id row)) of
        (Some score, Some rank) \<Rightarrow>
          \<lparr>ac_policy_version = cp_version policy, ac_status = CompReady, ac_score = Some score,
           ac_raw_value = map_option pk_raw p, ac_rank = Some rank,
           ac_rank_change = rank_change_from previous name (fr_asset_id row) rank,
           ac_direction = (case p of None \<Rightarrow> DirUnknown | Some q \<Rightarrow> pk_direction q), ac_reason = None,
           ac_inputs = (case p of None \<Rightarrow> [] | Some q \<Rightarrow> [feature_text (pk_field q)]),
           ac_peer_count = int (length raw)\<rparr>
      | _ \<Rightarrow>
          \<lparr>ac_policy_version = cp_version policy, ac_status = CompUnavailable, ac_score = None,
           ac_raw_value = map_option pk_raw p, ac_rank = None, ac_rank_change = None,
           ac_direction = (case p of None \<Rightarrow> DirUnknown | Some q \<Rightarrow> pk_direction q),
           ac_reason = Some (unavailable_reason row p),
           ac_inputs = (case p of None \<Rightarrow> [] | Some q \<Rightarrow> [feature_text (pk_field q)]),
           ac_peer_count = int (length raw)\<rparr>))"

definition score_component ::
    "component_policy \<Rightarrow> attention_row list \<Rightarrow> feature_row list \<Rightarrow> component_name \<Rightarrow> attention_component list result" where
  "score_component policy previous features name =
     and_then (map_ok (pick name) features) (\<lambda>ps.
       let picks = zip features ps;
           raw = raw_values picks
       in and_then (if cp_minimum_peers policy \<le> int (length raw)
                    then midrank_percentiles raw (cp_minimum_peers policy) else Inr []) (\<lambda>scores.
            map_ok (\<lambda>x. build check_component (scored_component policy previous name raw scores x)) picks))"

section \<open>The rows and the response\<close>

datatype row_scores = RowScores
  (rs_movement: attention_component) (rs_activity: attention_component)
  (rs_positioning: attention_component) (rs_dislocation: attention_component)

definition score_list :: "row_scores \<Rightarrow> attention_component list" where
  "score_list s = [rs_movement s, rs_activity s, rs_positioning s, rs_dislocation s]"

fun with_confluence :: "row_scores \<Rightarrow> attention_component \<Rightarrow> component_name \<Rightarrow> attention_component" where
  "with_confluence s c Movement = rs_movement s"
| "with_confluence s c Activity = rs_activity s"
| "with_confluence s c Positioning = rs_positioning s"
| "with_confluence s c Dislocation = rs_dislocation s"
| "with_confluence s c Confluence = c"

text \<open>\<open>statistics.mean\<close> of finite floats: their exact sum over their number, rounded once.\<close>

definition f_mean :: "pyfloat list \<Rightarrow> pyfloat result" where
  "f_mean xs =
     (if xs = [] then raise_exn ValueError ''mean requires at least one data point''
      else Inr (f_round (sum_list (map fval xs) / of_nat (length xs))))"

definition present :: "'a option list \<Rightarrow> 'a list" where
  "present xs = concat (map (\<lambda>x. case x of None \<Rightarrow> [] | Some v \<Rightarrow> [v]) xs)"

definition all_ready :: "row_scores \<Rightarrow> bool" where
  "all_ready s \<longleftrightarrow> list_all (\<lambda>c. ac_status c = CompReady) (score_list s)"

definition confluence_entry :: "feature_row \<times> row_scores \<Rightarrow> (string \<times> pyfloat) list result" where
  "confluence_entry = (\<lambda>(row, s).
     if all_ready s
     then and_then (f_mean (present (map ac_score (score_list s)))) (\<lambda>m. Inr [(fr_asset_id row, m)])
     else Inr [])"

definition confluence_component ::
    "component_policy \<Rightarrow> attention_row list \<Rightarrow> (string \<times> pyfloat) list \<Rightarrow> string \<Rightarrow> attention_component" where
  "confluence_component policy previous confluence a =
     (case (map_of confluence a, map_of (rank_table confluence) a) of
        (Some score, Some rank) \<Rightarrow>
          \<lparr>ac_policy_version = cp_version policy, ac_status = CompReady, ac_score = Some score,
           ac_raw_value = Some score, ac_rank = Some rank,
           ac_rank_change = rank_change_from previous Confluence a rank, ac_direction = DirUnknown,
           ac_reason = None, ac_inputs = map component_text components_list,
           ac_peer_count = int (length confluence)\<rparr>
      | _ \<Rightarrow>
          \<lparr>ac_policy_version = cp_version policy, ac_status = CompUnavailable, ac_score = None,
           ac_raw_value = None, ac_rank = None, ac_rank_change = None, ac_direction = DirUnknown,
           ac_reason = Some ''incomplete_components'', ac_inputs = map component_text components_list,
           ac_peer_count = int (length confluence)\<rparr>)"

definition build_row ::
    "input_reference \<Rightarrow> component_policy \<Rightarrow> attention_row list \<Rightarrow> (string \<times> pyfloat) list
      \<Rightarrow> feature_row \<times> row_scores \<Rightarrow> attention_row result" where
  "build_row generation policy previous confluence = (\<lambda>(row, s).
     and_then (build check_component (confluence_component policy previous confluence (fr_asset_id row))) (\<lambda>c.
       let components = with_confluence s c;
           count = int (length (filter (\<lambda>n. ac_status (components n) = CompReady) components_list))
       in build check_attention_row
            \<lparr>ar_asset_id = fr_asset_id row, ar_asset = fr_asset row, ar_reference_key = fr_reference_key row,
             ar_originals = fr_originals row, ar_components = components, ar_ready_count = count,
             ar_coverage_ratio = f_round (of_int count / 4), ar_quality_reasons = fr_quality_reasons row,
             ar_data_as_of = ir_ranking_cutoff generation, ar_identity_status = fr_identity_status row\<rparr>))"

definition sort_score :: "attention_row \<Rightarrow> component_name \<Rightarrow> bool \<times> rat" where
  "sort_score row name =
     (case ac_score (ar_components row name) of None \<Rightarrow> (True, 0) | Some v \<Rightarrow> (False, - fval v))"

definition attention_order :: "attention_row \<Rightarrow> (bool \<times> rat) \<times> (bool \<times> rat) \<times> (bool \<times> rat) \<times> string" where
  "attention_order row = (sort_score row Confluence, sort_score row Movement, sort_score row Activity, ar_asset_id row)"

definition count_ready :: "attention_row list \<Rightarrow> component_name \<Rightarrow> int" where
  "count_ready rows name = int (length (filter (\<lambda>r. component_ready r name) rows))"

definition assemble_response ::
    "input_reference \<Rightarrow> component_policy \<Rightarrow> (string \<times> pyfloat) list \<Rightarrow> attention_row list \<Rightarrow> attention_response result" where
  "assemble_response generation policy confluence rows =
     (let result = sort_key attention_order rows;
          ready = count_ready result;
          status = (if result \<noteq> [] \<and> length confluence = length result then AtReady
                    else if list_ex (\<lambda>n. ready n \<noteq> 0) components_list then AtPartial else AtUnavailable)
      in and_then (build check_attention_coverage
             \<lparr>cv_rows = int (length result),
              cv_eligible = int (length (filter (\<lambda>r. eligible_identity (ar_identity_status r)) result)),
              cv_confluence_ready = int (length confluence), cv_component_ready = ready\<rparr>) (\<lambda>coverage.
           build check_response
             \<lparr>rp_generation_id = ir_generation_id generation, rp_decision_at = ir_decision_at generation,
              rp_status = status,
              rp_reason = (if status = AtReady then None else Some ''incomplete_component_coverage''),
              rp_policy_version = cp_version policy, rp_inputs = generation, rp_coverage = coverage,
              rp_rows = result, rp_allocations = []\<rparr>))"

definition comparable_rows :: "input_reference \<Rightarrow> component_policy \<Rightarrow> attention_response option \<Rightarrow> attention_row list" where
  "comparable_rows generation policy previous =
     (case previous of
        None \<Rightarrow> []
      | Some p \<Rightarrow>
          if rp_policy_version p = cp_version policy
             \<and> ir_feature_version (rp_inputs p) = ir_feature_version generation
             \<and> ir_map_version (rp_inputs p) = ir_map_version generation
             \<and> ir_metric_version (rp_inputs p) = ir_metric_version generation
             \<and> rp_decision_at p < ir_decision_at generation
          then rp_rows p else [])"

definition score_attention ::
    "input_reference \<Rightarrow> feature_row list \<Rightarrow> component_policy \<Rightarrow> attention_response option \<Rightarrow> attention_response result" where
  "score_attention generation features policy previous =
     (if length (remdups (map fr_asset_id features)) \<noteq> length features
      then raise_exn ValueError ''duplicate_feature_asset''
      else if list_ex (\<lambda>f. fr_decision_at f \<noteq> ir_decision_at generation) features
      then raise_exn ValueError ''feature_generation_mismatch''
      else let old = comparable_rows generation policy previous in
        and_then (score_component policy old features Movement) (\<lambda>movement.
        and_then (score_component policy old features Activity) (\<lambda>activity.
        and_then (score_component policy old features Positioning) (\<lambda>positioning.
        and_then (score_component policy old features Dislocation) (\<lambda>dislocation.
          let scored = zip features
                (map (\<lambda>(m, a, p, d). RowScores m a p d) (zip movement (zip activity (zip positioning dislocation))))
          in and_then (map_ok confluence_entry scored) (\<lambda>entries.
             and_then (map_ok (build_row generation policy old (concat entries)) scored) (\<lambda>rows.
               assemble_response generation policy (concat entries) rows)))))))"

section \<open>The rank table\<close>

lemma sorted_key_strict:
  assumes "distinct (map f xs)"
  shows "sorted_wrt (<) (map f (sort_key f xs))"
proof -
  have "distinct (map f (sort_key f xs))"
    using assms by (metis mset_eq_imp_distinct_iff mset_map mset_sort)
  then show ?thesis by (simp add: strict_sorted_iff)
qed

lemma distinct_score_order: "distinct (map fst scores) \<Longrightarrow> distinct (map score_order scores)"
  by (induction scores) (auto simp: score_order_def)

lemma rank_table_nth:
  fixes scores
  defines "s \<equiv> sort_key score_order scores"
  assumes "distinct (map fst scores)" "i < length scores"
  shows "map_of (rank_table scores) (fst (s ! i)) = Some (int i + 1)"
proof -
  have "distinct (map fst s)"
    using assms(2) unfolding s_def by (metis mset_eq_imp_distinct_iff mset_map mset_sort)
  then show ?thesis
    using map_of_zip_nth[of "map fst s" "map int [1..<length s + 1]" i] assms(3)
    by (simp add: rank_table_def Let_def s_def[symmetric] del: upt_Suc) (simp add: s_def add.commute)
qed

lemma rank_table_position:
  assumes "distinct (map fst scores)" "map_of scores a = Some v"
  obtains i where "i < length scores" "sort_key score_order scores ! i = (a, v)"
    "map_of (rank_table scores) a = Some (int i + 1)"
proof -
  have "(a, v) \<in> set (sort_key score_order scores)" using map_of_SomeD[OF assms(2)] by simp
  then obtain i where "i < length scores" "sort_key score_order scores ! i = (a, v)"
    unfolding in_set_conv_nth by auto
  then show ?thesis using rank_table_nth[OF assms(1), of i] by (intro that[of i]) simp_all
qed

lemma rank_table_less:
  assumes "distinct (map fst scores)" "map_of scores a = Some v" "map_of scores b = Some w"
    "map_of (rank_table scores) a = Some j" "map_of (rank_table scores) b = Some k"
  shows "j < k \<longleftrightarrow> score_order (a, v) < score_order (b, w)"
proof -
  let ?s = "sort_key score_order scores"
  obtain i where i: "i < length scores" "?s ! i = (a, v)" "j = int i + 1"
    using rank_table_position[OF assms(1,2)] assms(4) by (metis option.inject)
  obtain i' where i': "i' < length scores" "?s ! i' = (b, w)" "k = int i' + 1"
    using rank_table_position[OF assms(1,3)] assms(5) by (metis option.inject)
  have less: "score_order (?s ! m) < score_order (?s ! n)" if "m < n" "n < length scores" for m n
    using sorted_wrt_nth_less[OF sorted_key_strict[OF distinct_score_order[OF assms(1)]], of m n] that by simp
  consider "i < i'" | "i = i'" | "i' < i" by linarith
  then show ?thesis
  proof cases
    case 1
    then show ?thesis using less[of i i'] i i' by simp
  next
    case 2
    then show ?thesis using i i' by simp
  next
    case 3
    then have "score_order (b, w) < score_order (a, v)" using less[of i' i] i i' by simp
    then show ?thesis using 3 i(3) i'(3) by auto
  qed
qed

lemma rank_table_bounds:
  assumes "distinct (map fst scores)" "map_of scores a = Some v"
  shows "\<exists>k. map_of (rank_table scores) a = Some k \<and> 1 \<le> k \<and> k \<le> int (length scores)"
  by (rule rank_table_position[OF assms]) auto

section \<open>Picking the raw value\<close>

lemma first_max_member: "first_max key x xs \<in> set (x # xs)"
  by (induction xs arbitrary: x) (auto split: if_splits)

lemma first_max_greatest:
  "\<forall>y\<in>set (x # xs). float_finite (key y) \<Longrightarrow> \<forall>y\<in>set (x # xs). f_le (key y) (key (first_max key x xs))"
proof (induction xs arbitrary: x)
  case (Cons y ys)
  let ?m = "if f_less (key x) (key y) then y else x"
  have IH: "\<forall>z\<in>set (?m # ys). f_le (key z) (key (first_max key ?m ys))" using Cons by (intro Cons.IH) auto
  have "float_finite (key (first_max key ?m ys))"
    using first_max_member[of key ?m ys] Cons.prems by auto
  then obtain a b c where "key x = FFin a" "key y = FFin b" "key (first_max key ?m ys) = FFin c"
    using Cons.prems by (auto simp: float_finite_iff)
  then show ?case using IH by (auto split: if_splits)
qed (auto simp: f_le_def f_eq_def float_finite_iff)

lemma f_abs_finite [simp]: "float_finite (f_abs v) \<longleftrightarrow> float_finite v"
  by (cases v) simp_all

lemma magnitude_finite [simp]: "float_finite (magnitude name v) \<longleftrightarrow> float_finite v"
  by (simp add: magnitude_def)

text \<open>The magnitudes among which a component picks, and what it picks.\<close>

definition ready_magnitudes :: "component_name \<Rightarrow> feature_row \<Rightarrow> pyfloat list" where
  "ready_magnitudes name row =
     (if eligible_identity (fr_identity_status row)
      then map (\<lambda>f. magnitude name (the (fv_value (fr_feature row f))))
             (filter (\<lambda>f. fv_status (fr_feature row f) = FsReady) (candidates name))
      else [])"

definition greatest_of :: "pyfloat list \<Rightarrow> pyfloat option \<Rightarrow> bool" where
  "greatest_of ms v \<longleftrightarrow>
     (case v of None \<Rightarrow> ms = [] | Some m \<Rightarrow> m \<in> set ms \<and> float_finite m \<and> (\<forall>x\<in>set ms. f_le x m))"

lemma pick_greatest:
  assumes "check_feature_row row = Inr ()"
  shows "\<exists>p. pick name row = Inr p \<and> greatest_of (ready_magnitudes name row) (map_option pk_raw p)"
proof (cases "eligible_identity (fr_identity_status row)")
  case True
  define fs where "fs = filter (\<lambda>f. fv_status (fr_feature row f) = FsReady) (candidates name)"
  define g where "g f = (f, the (fv_value (fr_feature row f)))" for f
  have fin: "\<exists>v. fv_value (fr_feature row f) = Some (FFin v)" if "f \<in> set fs" for f
    using check_feature_row_value[OF assms] that by (simp add: fs_def)
  have ok: "map_ok (ready_value row) fs = Inr (map g fs)"
    by (rule map_ok_total) (use fin in \<open>force simp: ready_value_def g_def\<close>)
  have ms: "ready_magnitudes name row = map (\<lambda>p. magnitude name (snd p)) (map g fs)"
    using True by (simp add: ready_magnitudes_def fs_def g_def)
  show ?thesis
  proof (cases fs)
    case Nil
    then show ?thesis using True ok ms by (simp add: pick_def fs_def[symmetric] greatest_of_def)
  next
    case (Cons f fs')
    let ?k = "\<lambda>p. magnitude name (snd p)"
    let ?m = "first_max ?k (g f) (map g fs')"
    have mem: "?m \<in> set (map g fs)" using first_max_member[of ?k "g f" "map g fs'"] by (simp add: Cons)
    have all: "\<forall>y\<in>set (map g fs). float_finite (?k y)" using fin by (force simp: g_def)
    have "\<forall>y\<in>set (map g fs). f_le (?k y) (?k ?m)"
      using first_max_greatest[of "g f" "map g fs'" ?k] all by (simp add: Cons)
    then have "greatest_of (ready_magnitudes name row) (Some (?k ?m))"
      using mem all unfolding ms greatest_of_def by (auto simp: image_image)
    then show ?thesis
      using True ok by (simp add: pick_def fs_def[symmetric] Cons Let_def case_prod_beta)
  qed
qed (simp add: pick_def ready_magnitudes_def greatest_of_def)

definition picked_of :: "component_name \<Rightarrow> feature_row \<Rightarrow> picked option" where
  "picked_of name f = (case pick name f of Inl _ \<Rightarrow> None | Inr p \<Rightarrow> p)"

text \<open>The raw values of a component over a batch, by asset, and the score the policy gives an asset.\<close>

definition raws :: "component_name \<Rightarrow> feature_row list \<Rightarrow> (string \<times> pyfloat) list" where
  "raws name fs = raw_values (map (\<lambda>f. (f, picked_of name f)) fs)"

definition score_of :: "component_policy \<Rightarrow> component_name \<Rightarrow> feature_row list \<Rightarrow> string \<Rightarrow> pyfloat option" where
  "score_of policy name fs a =
     (if cp_minimum_peers policy \<le> int (length (raws name fs))
      then map_option (percentile (raws name fs)) (map_of (raws name fs) a) else None)"

definition rows_ok :: "feature_row list \<Rightarrow> bool" where
  "rows_ok fs \<longleftrightarrow> distinct (map fr_asset_id fs) \<and> (\<forall>f\<in>set fs. check_feature_row f = Inr ())
     \<and> int (length fs) \<le> 2 ^ 40"

lemma picked_of_greatest:
  "check_feature_row f = Inr () \<Longrightarrow> pick name f = Inr (picked_of name f)
    \<and> greatest_of (ready_magnitudes name f) (map_option pk_raw (picked_of name f))"
  using pick_greatest[of f name] by (auto simp: picked_of_def)

lemma raws_simps:
  "raws name [] = []"
  "raws name (f # fs) =
     (case picked_of name f of None \<Rightarrow> raws name fs | Some q \<Rightarrow> (fr_asset_id f, pk_raw q) # raws name fs)"
  by (simp_all add: raws_def raw_values_def split: option.splits)

lemma raws_keys: "fst ` set (raws name fs) \<subseteq> fr_asset_id ` set fs"
  by (induction fs) (auto simp: raws_simps split: option.splits)

lemma raws_distinct: "distinct (map fr_asset_id fs) \<Longrightarrow> distinct (map fst (raws name fs))"
proof (induction fs)
  case (Cons f fs)
  then have "fr_asset_id f \<notin> fst ` set (raws name fs)" using raws_keys[of name fs] by auto
  then show ?case using Cons by (simp add: raws_simps split: option.splits)
qed (simp add: raws_simps)

lemma raws_length: "length (raws name fs) \<le> length fs"
  by (induction fs) (auto simp: raws_simps split: option.splits)

lemma raws_at:
  "distinct (map fr_asset_id fs) \<Longrightarrow> f \<in> set fs
    \<Longrightarrow> map_of (raws name fs) (fr_asset_id f) = map_option pk_raw (picked_of name f)"
proof (induction fs)
  case (Cons g gs)
  show ?case
  proof (cases "f = g")
    case True
    then have "fr_asset_id f \<notin> fst ` set (raws name gs)"
      using Cons.prems(1) raws_keys[of name gs] by auto
    then have "map_of (raws name gs) (fr_asset_id f) = None" by (simp only: map_of_eq_None_iff not_False_eq_True)
    then show ?thesis using True by (simp add: raws_simps split: option.splits)
  next
    case False
    then have "f \<in> set gs" "fr_asset_id f \<in> fr_asset_id ` set gs" "fr_asset_id g \<notin> fr_asset_id ` set gs"
      using Cons.prems by auto
    then have "fr_asset_id f \<noteq> fr_asset_id g" "f \<in> set gs" by metis+
    then show ?thesis using Cons by (simp add: raws_simps split: option.splits)
  qed
qed simp

lemma raws_finite:
  assumes "\<forall>f\<in>set fs. check_feature_row f = Inr ()"
  shows "\<forall>x\<in>set (raws name fs). float_finite (snd x)"
  using assms
proof (induction fs)
  case (Cons f fs)
  then have "greatest_of (ready_magnitudes name f) (map_option pk_raw (picked_of name f))"
    using picked_of_greatest[of f name] by simp
  then show ?case using Cons by (auto simp: raws_simps greatest_of_def split: option.splits)
qed (simp add: raws_simps)

lemma score_between: "score_of policy name fs a = Some v \<Longrightarrow> between 0 100 v"
  using percentile_member_between[of "(a, _)" "raws name fs"]
  by (force simp: score_of_def dest: map_of_SomeD split: if_splits)

definition scores_table :: "component_policy \<Rightarrow> component_name \<Rightarrow> feature_row list \<Rightarrow> (string \<times> pyfloat) list \<Rightarrow> bool" where
  "scores_table policy name fs scores \<longleftrightarrow>
     distinct (map fst scores) \<and> (\<forall>a. map_of scores a = score_of policy name fs a)
     \<and> length scores \<le> length (raws name fs)"

lemma midrank_table:
  assumes "rows_ok fs" "1 \<le> cp_minimum_peers policy"
  obtains scores where "(if cp_minimum_peers policy \<le> int (length (raws name fs))
      then midrank_percentiles (raws name fs) (cp_minimum_peers policy) else Inr []) = Inr scores"
    "scores_table policy name fs scores"
proof (cases "cp_minimum_peers policy \<le> int (length (raws name fs))")
  case True
  have d: "distinct (map fst (raws name fs))" "\<forall>x\<in>set (raws name fs). float_finite (snd x)"
    "int (length (raws name fs)) \<le> 2 ^ 40"
    using assms raws_distinct[of fs name] raws_finite[of fs name] raws_length[of name fs] by (simp_all add: rows_ok_def)
  obtain rs where rs: "midrank_percentiles (raws name fs) (cp_minimum_peers policy) = Inr rs" "distinct (map fst rs)"
    "set (map fst rs) = set (map fst (raws name fs))" "\<And>k. map_of rs k = map_option (percentile (raws name fs)) (map_of (raws name fs) k)"
    using percentiles_scored[OF assms(2) True d(2,3,1)] by blast
  have "length rs = length (raws name fs)"
    using distinct_card[OF rs(2)] distinct_card[OF d(1)] rs(3) by simp
  then show ?thesis using rs True by (intro that[of rs]) (simp_all add: scores_table_def score_of_def)
next
  case False
  then show ?thesis by (intro that[of "[]"]) (simp_all add: scores_table_def score_of_def)
qed

lemma scored_component_checked:
  assumes "scores_table policy name fs scores" "f \<in> set fs" "rows_ok fs"
  shows "check_component (scored_component policy old name (raws name fs) scores (f, picked_of name f)) = Inr ()"
proof -
  have fin: "all_of float_finite (map_option pk_raw (picked_of name f))"
    using picked_of_greatest[of f name] assms(2,3) by (auto simp: rows_ok_def greatest_of_def split: option.splits)
  show ?thesis
  proof (cases "map_of scores (fr_asset_id f)")
    case None
    then show ?thesis using fin by (simp add: scored_component_def check_component_def unavailable_reason_def)
  next
    case (Some v)
    obtain k where k: "map_of (rank_table scores) (fr_asset_id f) = Some k" "1 \<le> k"
      using rank_table_bounds[OF _ Some] assms(1) by (auto simp: scores_table_def)
    have "between 0 100 v" using Some assms(1) score_between by (simp add: scores_table_def)
    then show ?thesis using Some k fin by (simp add: scored_component_def check_component_def)
  qed
qed

lemma score_component_ok:
  assumes "rows_ok fs" "1 \<le> cp_minimum_peers policy"
  obtains scores where "scores_table policy name fs scores"
    "score_component policy old fs name
       = Inr (map (\<lambda>f. scored_component policy old name (raws name fs) scores (f, picked_of name f)) fs)"
proof -
  obtain scores where s: "(if cp_minimum_peers policy \<le> int (length (raws name fs))
      then midrank_percentiles (raws name fs) (cp_minimum_peers policy) else Inr []) = Inr scores"
    "scores_table policy name fs scores"
    using midrank_table[OF assms] by blast
  have picks: "map_ok (pick name) fs = Inr (map (picked_of name) fs)"
    by (rule map_ok_total) (use assms(1) picked_of_greatest in \<open>simp add: rows_ok_def\<close>)
  have z: "zip fs (map (picked_of name) fs) = map (\<lambda>f. (f, picked_of name f)) fs" by (simp add: zip_map2 zip_same_conv_map)
  let ?c = "scored_component policy old name (raws name fs) scores"
  have "map_ok (\<lambda>x. build check_component (?c x)) (map (\<lambda>f. (f, picked_of name f)) fs)
      = Inr (map ?c (map (\<lambda>f. (f, picked_of name f)) fs))"
    by (rule map_ok_total) (use s(2) assms(1) scored_component_checked in \<open>auto intro!: build_ok\<close>)
  then have "score_component policy old fs name = Inr (map ?c (map (\<lambda>f. (f, picked_of name f)) fs))"
    unfolding score_component_def picks and_then_simps Let_def z raws_def[symmetric] s(1) .
  then show ?thesis by (intro that[OF s(2)]) (simp add: o_def)
qed

text \<open>The scored component of a row, its score and its rank.\<close>

lemma scored_component_cases:
  fixes old
  assumes "scores_table policy name fs scores" "f \<in> set fs" "rows_ok fs"
  defines "c \<equiv> scored_component policy old name (raws name fs) scores (f, picked_of name f)"
  shows "ac_score c = score_of policy name fs (fr_asset_id f)"
    and "ac_status c = CompReady \<longleftrightarrow> score_of policy name fs (fr_asset_id f) \<noteq> None"
    and "ac_rank c = (if ac_status c = CompReady then map_of (rank_table scores) (fr_asset_id f) else None)"
    and "ac_peer_count c = int (length (raws name fs))"
proof -
  have ranked: "map_of scores (fr_asset_id f) = None
      \<or> (\<exists>v k. map_of scores (fr_asset_id f) = Some v \<and> map_of (rank_table scores) (fr_asset_id f) = Some k)"
    using rank_table_bounds[of scores "fr_asset_id f"] assms(1)
    by (cases "map_of scores (fr_asset_id f)") (auto simp: scores_table_def)
  have s: "map_of scores (fr_asset_id f) = score_of policy name fs (fr_asset_id f)"
    using assms(1) by (simp add: scores_table_def)
  show "ac_score c = score_of policy name fs (fr_asset_id f)"
    and "ac_status c = CompReady \<longleftrightarrow> score_of policy name fs (fr_asset_id f) \<noteq> None"
    and "ac_rank c = (if ac_status c = CompReady then map_of (rank_table scores) (fr_asset_id f) else None)"
    and "ac_peer_count c = int (length (raws name fs))"
    using ranked unfolding s[symmetric] c_def scored_component_def by (auto split: option.splits)
qed

section \<open>Confluence\<close>

lemma score_list_mean:
  assumes "all_ready s" "\<forall>c\<in>set (score_list s). check_component c = Inr ()"
  shows "\<exists>v. f_mean (present (map ac_score (score_list s))) = Inr v \<and> between 0 100 v
    \<and> v = f_round (sum_list (map (\<lambda>c. fval (the (ac_score c))) (score_list s)) / 4)"
proof -
  have sc: "\<exists>v. ac_score c = Some (FFin v) \<and> 0 \<le> v \<and> v \<le> 100" if "c \<in> set (score_list s)" for c
    using assms that check_component_ready[of c] by (force simp: all_ready_def list_all_iff)
  have "rs_movement s \<in> set (score_list s)" "rs_activity s \<in> set (score_list s)"
    "rs_positioning s \<in> set (score_list s)" "rs_dislocation s \<in> set (score_list s)"
    by (simp_all add: score_list_def)
  then obtain a b c d where v: "ac_score (rs_movement s) = Some (FFin a)" "ac_score (rs_activity s) = Some (FFin b)"
    "ac_score (rs_positioning s) = Some (FFin c)" "ac_score (rs_dislocation s) = Some (FFin d)"
    and bounds: "0 \<le> a" "a \<le> 100" "0 \<le> b" "b \<le> 100" "0 \<le> c" "c \<le> 100" "0 \<le> d" "d \<le> 100"
    using sc by metis
  have "\<exists>w. f_round ((a + (b + (c + d))) / 4) = FFin w \<and> 0 \<le> w \<and> w \<le> 100"
    using bounds by (intro float_hundred) simp_all
  then show ?thesis
    using v by (auto simp: f_mean_def present_def score_list_def between_def)
qed

definition confluence_score :: "row_scores \<Rightarrow> pyfloat option" where
  "confluence_score s =
     (if all_ready s then Some (f_round (sum_list (map (\<lambda>c. fval (the (ac_score c))) (score_list s)) / 4)) else None)"

lemma confluence_entry_ok:
  assumes "\<forall>c\<in>set (score_list s). check_component c = Inr ()"
  shows "confluence_entry (f, s) = Inr (case confluence_score s of None \<Rightarrow> [] | Some v \<Rightarrow> [(fr_asset_id f, v)])"
    and "all_of (between 0 100) (confluence_score s)"
  using score_list_mean[OF _ assms] by (auto simp: confluence_entry_def confluence_score_def)

definition confluence_table :: "(feature_row \<times> row_scores) list \<Rightarrow> (string \<times> pyfloat) list" where
  "confluence_table scored =
     concat (map (\<lambda>(f, s). case confluence_score s of None \<Rightarrow> [] | Some v \<Rightarrow> [(fr_asset_id f, v)]) scored)"

lemma confluence_table_simps:
  "confluence_table [] = []"
  "confluence_table ((f, s) # xs) =
     (case confluence_score s of None \<Rightarrow> confluence_table xs | Some v \<Rightarrow> (fr_asset_id f, v) # confluence_table xs)"
  by (simp_all add: confluence_table_def split: option.splits)

lemma confluence_keys: "fst ` set (confluence_table xs) \<subseteq> (\<lambda>x. fr_asset_id (fst x)) ` set xs"
  unfolding confluence_table_def by (force split: option.splits)

lemma confluence_distinct:
  "distinct (map (\<lambda>x. fr_asset_id (fst x)) xs) \<Longrightarrow> distinct (map fst (confluence_table xs))"
proof (induction xs)
  case (Cons x xs)
  then have "fr_asset_id (fst x) \<notin> fst ` set (confluence_table xs)" using confluence_keys[of xs] by auto
  then show ?case using Cons by (cases x) (simp add: confluence_table_simps split: option.splits)
qed (simp add: confluence_table_simps)

lemma confluence_at:
  "distinct (map (\<lambda>x. fr_asset_id (fst x)) xs) \<Longrightarrow> (f, s) \<in> set xs
    \<Longrightarrow> map_of (confluence_table xs) (fr_asset_id f) = confluence_score s"
proof (induction xs)
  case (Cons x xs)
  show ?case
  proof (cases "x = (f, s)")
    case True
    then have "fr_asset_id f \<notin> fst ` set (confluence_table xs)"
      using Cons.prems(1) confluence_keys[of xs] by auto
    then have "map_of (confluence_table xs) (fr_asset_id f) = None" by (simp only: map_of_eq_None_iff not_False_eq_True)
    then show ?thesis using True by (simp add: confluence_table_simps split: option.splits)
  next
    case False
    then have mem: "(f, s) \<in> set xs" using Cons.prems by simp
    then have "fr_asset_id f \<in> (\<lambda>x. fr_asset_id (fst x)) ` set xs" by force
    moreover have "fr_asset_id (fst x) \<notin> (\<lambda>x. fr_asset_id (fst x)) ` set xs" using Cons.prems(1) by simp
    ultimately have "fr_asset_id f \<noteq> fr_asset_id (fst x)" by metis
    then show ?thesis using Cons.IH mem Cons.prems(1)
      by (cases x) (simp add: confluence_table_simps split: option.splits)
  qed
qed simp

lemma confluence_component_cases:
  fixes old policy
  assumes "distinct (map (\<lambda>x. fr_asset_id (fst x)) xs)" "(f, s) \<in> set xs" "all_of (between 0 100) (confluence_score s)"
  defines "c \<equiv> confluence_component policy old (confluence_table xs) (fr_asset_id f)"
  shows "check_component c = Inr ()"
    and "ac_score c = confluence_score s"
    and "ac_status c = CompReady \<longleftrightarrow> all_ready s"
    and "ac_rank c = (if all_ready s then map_of (rank_table (confluence_table xs)) (fr_asset_id f) else None)"
    and "ac_peer_count c = int (length (confluence_table xs))"
proof -
  have s: "map_of (confluence_table xs) (fr_asset_id f) = confluence_score s" by (rule confluence_at[OF assms(1,2)])
  have ranked: "\<exists>k. map_of (rank_table (confluence_table xs)) (fr_asset_id f) = Some k \<and> 1 \<le> k" if "confluence_score s = Some v" for v
    using rank_table_bounds[OF confluence_distinct[OF assms(1)], of "fr_asset_id f" v] s that by auto
  show "check_component c = Inr ()"
    using assms(3) ranked unfolding c_def confluence_component_def s check_component_def
    by (auto simp: between_def split: option.splits)
  show "ac_score c = confluence_score s" and "ac_status c = CompReady \<longleftrightarrow> all_ready s"
    and "ac_rank c = (if all_ready s then map_of (rank_table (confluence_table xs)) (fr_asset_id f) else None)"
    and "ac_peer_count c = int (length (confluence_table xs))"
    using ranked unfolding c_def confluence_component_def s
    by (auto simp: confluence_score_def split: option.splits if_splits)
qed

lemma float_quarter: "k \<le> 4 \<Longrightarrow> between 0 1 (f_round (of_int (int k) / 4))"
  using f_round_finite_bounds[of 0 1 "of_int (int k) / 4"] representable_int[of 1]
  by (auto simp: representable_def f_limit_def between_def)

definition row_of_scores :: "input_reference \<Rightarrow> feature_row \<Rightarrow> (component_name \<Rightarrow> attention_component) \<Rightarrow> attention_row" where
  "row_of_scores generation f cs =
     (let count = int (length (filter (\<lambda>n. ac_status (cs n) = CompReady) components_list))
      in \<lparr>ar_asset_id = fr_asset_id f, ar_asset = fr_asset f, ar_reference_key = fr_reference_key f,
          ar_originals = fr_originals f, ar_components = cs, ar_ready_count = count,
          ar_coverage_ratio = f_round (of_int count / 4), ar_quality_reasons = fr_quality_reasons f,
          ar_data_as_of = ir_ranking_cutoff generation, ar_identity_status = fr_identity_status f\<rparr>)"

lemma row_of_scores_simps [simp]:
  "ar_asset_id (row_of_scores g f cs) = fr_asset_id f" "ar_components (row_of_scores g f cs) = cs"
  "ar_data_as_of (row_of_scores g f cs) = ir_ranking_cutoff g"
  "ar_identity_status (row_of_scores g f cs) = fr_identity_status f"
  "component_ready (row_of_scores g f cs) n \<longleftrightarrow> ac_status (cs n) = CompReady"
  by (simp_all add: row_of_scores_def component_ready_def Let_def)

lemma check_row_of_scores:
  assumes "ac_status (cs Confluence) = CompReady \<Longrightarrow> \<forall>n\<in>set components_list. ac_status (cs n) = CompReady"
  shows "check_attention_row (row_of_scores g f cs) = Inr ()"
proof -
  let ?k = "length (filter (\<lambda>n. ac_status (cs n) = CompReady) components_list)"
  have le: "?k \<le> 4" using length_filter_le[of _ components_list] by (simp add: components_list_def)
  have full: "ac_status (cs Confluence) = CompReady \<Longrightarrow> ?k = 4"
    using assms by (auto simp: components_list_def)
  have fields: "ar_ready_count (row_of_scores g f cs) = int ?k"
    "ar_coverage_ratio (row_of_scores g f cs) = f_round (of_int (int ?k) / 4)"
    by (simp_all add: row_of_scores_def Let_def)
  have "f_round (of_int (int ?k) / 4) \<noteq> FNaN" by (simp add: f_round_def Let_def)
  moreover have "component_ready (row_of_scores g f cs) = (\<lambda>n. ac_status (cs n) = CompReady)" by (simp add: fun_eq_iff)
  ultimately show ?thesis
    using le full float_quarter[OF le]
    by (simp add: check_attention_row_def fields f_eq_def del: of_int_of_nat_eq)
qed

lemma build_row_ok:
  assumes "distinct (map (\<lambda>x. fr_asset_id (fst x)) xs)" "(f, s) \<in> set xs" "all_of (between 0 100) (confluence_score s)"
  shows "build_row g policy old (confluence_table xs) (f, s)
    = Inr (row_of_scores g f (with_confluence s (confluence_component policy old (confluence_table xs) (fr_asset_id f))))"
proof -
  let ?c = "confluence_component policy old (confluence_table xs) (fr_asset_id f)"
  have c: "check_component ?c = Inr ()" "ac_status ?c = CompReady \<longleftrightarrow> all_ready s"
    using confluence_component_cases[OF assms] by simp_all
  have "check_attention_row (row_of_scores g f (with_confluence s ?c)) = Inr ()"
    by (rule check_row_of_scores) (use c(2) in \<open>simp add: all_ready_def score_list_def components_list_def\<close>)
  then show ?thesis
    using build_ok[of check_component, OF c(1)] by (simp add: build_row_def build_ok row_of_scores_def Let_def)
qed

section \<open>A whole generation\<close>

definition row_scores_of ::
    "component_policy \<Rightarrow> attention_row list \<Rightarrow> (component_name \<Rightarrow> (string \<times> pyfloat) list) \<Rightarrow> feature_row list \<Rightarrow> feature_row \<Rightarrow> row_scores" where
  "row_scores_of policy old T fs f =
     (let c = (\<lambda>name. scored_component policy old name (raws name fs) (T name) (f, picked_of name f))
      in RowScores (c Movement) (c Activity) (c Positioning) (c Dislocation))"

definition confluences ::
    "component_policy \<Rightarrow> attention_row list \<Rightarrow> (component_name \<Rightarrow> (string \<times> pyfloat) list) \<Rightarrow> feature_row list \<Rightarrow> (string \<times> pyfloat) list" where
  "confluences policy old T fs = confluence_table (map (\<lambda>f. (f, row_scores_of policy old T fs f)) fs)"

definition final_row ::
    "input_reference \<Rightarrow> component_policy \<Rightarrow> attention_row list \<Rightarrow> (component_name \<Rightarrow> (string \<times> pyfloat) list) \<Rightarrow> feature_row list
      \<Rightarrow> feature_row \<Rightarrow> attention_row" where
  "final_row g policy old T fs f =
     row_of_scores g f (with_confluence (row_scores_of policy old T fs f)
       (confluence_component policy old (confluences policy old T fs) (fr_asset_id f)))"

lemma final_row_simps [simp]:
  "ar_asset_id (final_row g policy old T fs f) = fr_asset_id f"
  "ar_data_as_of (final_row g policy old T fs f) = ir_ranking_cutoff g"
  by (simp_all add: final_row_def)

lemma zip_scores:
  "zip fs (map (\<lambda>(m, a, p, d). RowScores m a p d) (zip (map cm fs) (zip (map ca fs) (zip (map cp fs) (map cd fs)))))
    = map (\<lambda>f. (f, RowScores (cm f) (ca f) (cp f) (cd f))) fs"
  by (induction fs) simp_all

lemma row_scores_checked:
  assumes "\<And>name. scores_table policy name fs (T name)" "f \<in> set fs" "rows_ok fs"
  shows "\<forall>c\<in>set (score_list (row_scores_of policy old T fs f)). check_component c = Inr ()"
  using scored_component_checked[OF assms] by (simp add: score_list_def row_scores_of_def Let_def)

lemma assemble_ok:
  assumes "check_input_reference g = Inr ()" "distinct (map ar_asset_id rows)"
    "\<forall>r\<in>set rows. ar_data_as_of r = ir_ranking_cutoff g"
  shows "\<exists>resp. assemble_response g policy confluence rows = Inr resp \<and> check_response resp = Inr ()
    \<and> rp_rows resp = sort_key attention_order rows
    \<and> (rp_status resp = AtReady \<longleftrightarrow> rows \<noteq> [] \<and> length confluence = length rows)"
proof -
  let ?s = "sort_key attention_order rows"
  have cut: "ir_ranking_cutoff g \<le> ir_decision_at g"
    using assms(1) by (auto simp: check_input_reference_def field_error_def after_time_def split: if_splits)
  have d: "distinct (map ar_asset_id ?s)" using assms(2) by (metis mset_eq_imp_distinct_iff mset_map mset_sort)
  then have len: "length (remdups (map ar_asset_id ?s)) = length ?s" by (simp add: distinct_remdups_id)
  have future: "\<not> list_ex (\<lambda>row. ir_decision_at g < ar_data_as_of row) ?s" using assms(3) cut by (auto simp: list_ex_iff)
  have "?s = [] \<longleftrightarrow> rows = []" by (metis length_0_conv length_sort)
  then show ?thesis
    using len future
    by (simp add: assemble_response_def Let_def build_def check_attention_coverage_def check_response_def)
qed

lemma score_attention_rows:
  fixes prev
  assumes "check_input_reference g = Inr ()" "check_component_policy policy = Inr ()" "rows_ok fs"
    "\<forall>f\<in>set fs. fr_decision_at f = ir_decision_at g"
  defines "old \<equiv> comparable_rows g policy prev"
  obtains T resp where "\<forall>name. scores_table policy name fs (T name)"
    "score_attention g fs policy prev = Inr resp" "check_response resp = Inr ()"
    "rp_rows resp = sort_key attention_order (map (final_row g policy old T fs) fs)"
    "rp_status resp = AtReady \<longleftrightarrow> fs \<noteq> [] \<and> length (confluences policy old T fs) = length fs"
proof -
  have peers: "1 \<le> cp_minimum_peers policy" using assms(2) by (auto simp: check_component_policy_def split: if_splits)
  define c where "c T name f = scored_component policy old name (raws name fs) T (f, picked_of name f)" for T name f
  have "\<forall>name. \<exists>scores. scores_table policy name fs scores
      \<and> score_component policy old fs name = Inr (map (c scores name) fs)"
    unfolding c_def using score_component_ok[OF assms(3) peers] by metis
  then obtain T where T: "\<And>name. scores_table policy name fs (T name)"
    "\<And>name. score_component policy old fs name = Inr (map (c (T name) name) fs)" by metis
  define rs where "rs f = row_scores_of policy old T fs f" for f
  define xs where "xs = map (\<lambda>f. (f, rs f)) fs"
  have rs: "RowScores (c (T Movement) Movement f) (c (T Activity) Activity f)
      (c (T Positioning) Positioning f) (c (T Dislocation) Dislocation f) = rs f" for f
    by (simp add: rs_def row_scores_of_def c_def Let_def)
  have d: "distinct (map fr_asset_id fs)" using assms(3) by (simp add: rows_ok_def)
  then have dx: "distinct (map (\<lambda>x. fr_asset_id (fst x)) xs)" by (simp add: xs_def o_def)
  have checked: "\<forall>c\<in>set (score_list s). check_component c = Inr ()" if "(f, s) \<in> set xs" for f s
    using that row_scores_checked[OF T(1) _ assms(3)] by (auto simp: xs_def rs_def)
  have entries: "map_ok confluence_entry xs
      = Inr (map (\<lambda>(f, s). case confluence_score s of None \<Rightarrow> [] | Some v \<Rightarrow> [(fr_asset_id f, v)]) xs)"
    by (rule map_ok_total) (use checked confluence_entry_ok(1) in force)
  have table: "confluence_table xs = confluences policy old T fs" by (simp add: confluences_def xs_def rs_def)
  have "map_ok (build_row g policy old (confluence_table xs)) xs
      = Inr (map (\<lambda>(f, s). row_of_scores g f (with_confluence s (confluence_component policy old (confluence_table xs) (fr_asset_id f)))) xs)"
    by (rule map_ok_total) (use checked confluence_entry_ok(2) build_row_ok[OF dx] in force)
  then have rows: "map_ok (build_row g policy old (confluences policy old T fs)) xs = Inr (map (final_row g policy old T fs) fs)"
    by (simp add: table) (simp add: xs_def o_def final_row_def rs_def)
  have "score_attention g fs policy prev
      = assemble_response g policy (confluences policy old T fs) (map (final_row g policy old T fs) fs)"
    using d assms(4) rows
    by (simp add: score_attention_def old_def[symmetric] T(2) Let_def zip_scores rs xs_def[symmetric] entries
        confluence_table_def[symmetric] table list_ex_iff distinct_remdups_id)
  then show ?thesis
    using that[OF allI[OF T(1)]] assemble_ok[OF assms(1), of "map (final_row g policy old T fs) fs" policy "confluences policy old T fs"] d
    by (auto simp: o_def)
qed

lemma final_components:
  "name \<in> set components_list \<Longrightarrow> ar_components (final_row g policy old T fs f) name
     = scored_component policy old name (raws name fs) (T name) (f, picked_of name f)"
  "ar_components (final_row g policy old T fs f) Confluence
     = confluence_component policy old (confluences policy old T fs) (fr_asset_id f)"
  by (auto simp: final_row_def row_scores_of_def components_list_def Let_def)

lemma component_cases: "n = Confluence \<or> n \<in> set components_list"
  by (cases n) (simp_all add: components_list_def)

text \<open>The table from which the ranks of a component come: its scores, or the confluence means.\<close>

definition rank_source ::
    "component_policy \<Rightarrow> attention_row list \<Rightarrow> (component_name \<Rightarrow> (string \<times> pyfloat) list) \<Rightarrow> feature_row list \<Rightarrow> component_name \<Rightarrow> (string \<times> pyfloat) list" where
  "rank_source policy old T fs n = (if n = Confluence then confluences policy old T fs else T n)"

lemma rank_source_cases:
  fixes old g
  assumes "\<And>name. scores_table policy name fs (T name)" "rows_ok fs" "f \<in> set fs"
  defines "c \<equiv> (\<lambda>n. ar_components (final_row g policy old T fs f) n)"
  shows "distinct (map fst (rank_source policy old T fs n))"
    and "check_component (c n) = Inr ()"
    and "ac_score (c n) = map_of (rank_source policy old T fs n) (fr_asset_id f)"
    and "ac_status (c n) = CompReady \<longleftrightarrow> ac_score (c n) \<noteq> None"
    and "ac_status (c n) = CompReady \<Longrightarrow> ac_rank (c n) = map_of (rank_table (rank_source policy old T fs n)) (fr_asset_id f)"
    and "int (length (rank_source policy old T fs n)) \<le> ac_peer_count (c n)"
proof -
  let ?xs = "map (\<lambda>f. (f, row_scores_of policy old T fs f)) fs"
  have d: "distinct (map (\<lambda>x. fr_asset_id (fst x)) ?xs)" using assms(2) by (simp add: rows_ok_def o_def)
  have mem: "(f, row_scores_of policy old T fs f) \<in> set ?xs" using assms(3) by simp
  have fin: "all_of (between 0 100) (confluence_score (row_scores_of policy old T fs f))"
    by (rule confluence_entry_ok(2)) (rule row_scores_checked[OF assms(1,3,2)])
  note conf = confluence_component_cases[OF d mem fin, where old = old and policy = policy, folded confluences_def]
  note cat = confluence_at[OF d mem, folded confluences_def]
  note cd = confluence_distinct[OF d, folded confluences_def]
  have ready: "all_ready s \<longleftrightarrow> confluence_score s \<noteq> None" for s by (simp add: confluence_score_def)
  have part: "distinct (map fst (T n))" "map_of (T n) (fr_asset_id f) = score_of policy n fs (fr_asset_id f)"
    "length (T n) \<le> length (raws n fs)" if "n \<noteq> Confluence"
    using assms(1)[of n] by (simp_all add: scores_table_def)
  note scored = scored_component_cases[OF assms(1,3,2), where old = old] scored_component_checked[OF assms(1,3,2), where old = old]
  show "distinct (map fst (rank_source policy old T fs n))"
    using part(1) cd by (simp add: rank_source_def)
  show "check_component (c n) = Inr ()"
    and "ac_score (c n) = map_of (rank_source policy old T fs n) (fr_asset_id f)"
    and "ac_status (c n) = CompReady \<longleftrightarrow> ac_score (c n) \<noteq> None"
    and "ac_status (c n) = CompReady \<Longrightarrow> ac_rank (c n) = map_of (rank_table (rank_source policy old T fs n)) (fr_asset_id f)"
    and "int (length (rank_source policy old T fs n)) \<le> ac_peer_count (c n)"
    using component_cases[of n] conf cat part scored[of n] ready
    by (cases "n = Confluence"; simp add: c_def rank_source_def final_components)+
qed

text \<open>
  C40. Scoring never fails on what the feature builder hands it: for a checked generation reference and policy,
  and checked feature rows of that generation with distinct assets, \<open>score_attention\<close> returns a
  response; the response, every row and every component pass their validators, and the rows are exactly
  one per feature row.
\<close>

theorem scoring_never_fails:
  assumes "check_input_reference g = Inr ()" and "check_component_policy policy = Inr ()"
    and "distinct (map fr_asset_id fs)" and "\<forall>f\<in>set fs. check_feature_row f = Inr () \<and> fr_decision_at f = ir_decision_at g"
    and "int (length fs) \<le> 2 ^ 40"
  shows "\<exists>resp. score_attention g fs policy prev = Inr resp \<and> check_response resp = Inr ()
    \<and> mset (map ar_asset_id (rp_rows resp)) = mset (map fr_asset_id fs)
    \<and> (\<forall>row\<in>set (rp_rows resp). check_attention_row row = Inr () \<and> (\<forall>n. check_component (ar_components row n) = Inr ()))"
proof -
  define old where "old = comparable_rows g policy prev"
  have ok: "rows_ok fs" "\<forall>f\<in>set fs. fr_decision_at f = ir_decision_at g" using assms(3-5) by (simp_all add: rows_ok_def)
  obtain T resp where T: "\<And>name. scores_table policy name fs (T name)"
    and resp: "score_attention g fs policy prev = Inr resp" "check_response resp = Inr ()"
      "rp_rows resp = sort_key attention_order (map (final_row g policy old T fs) fs)"
    unfolding old_def using score_attention_rows[OF assms(1,2) ok, of prev] by metis
  have "check_attention_row (final_row g policy old T fs f) = Inr ()" if "f \<in> set fs" for f
  proof -
    let ?c = "ar_components (final_row g policy old T fs f)"
    have "\<forall>n\<in>set components_list. ac_status (?c n) = CompReady" if "ac_status (?c Confluence) = CompReady"
    proof -
      let ?s = "row_scores_of policy old T fs f"
      let ?xs = "map (\<lambda>f. (f, row_scores_of policy old T fs f)) fs"
      have "all_ready ?s"
      proof -
        have d: "distinct (map (\<lambda>x. fr_asset_id (fst x)) ?xs)" using assms(3) by (simp add: o_def)
        have fin: "all_of (between 0 100) (confluence_score ?s)"
          by (rule confluence_entry_ok(2)) (rule row_scores_checked[OF T \<open>f \<in> set fs\<close> ok(1)])
        have mem: "(f, ?s) \<in> set ?xs" using \<open>f \<in> set fs\<close> by simp
        show ?thesis
          using confluence_component_cases(3)[OF d mem fin, where old = old and policy = policy] that
          by (simp add: final_components confluences_def)
      qed
      then show ?thesis by (simp add: final_row_def all_ready_def score_list_def components_list_def)
    qed
    then show ?thesis unfolding final_row_def using check_row_of_scores by (metis row_of_scores_simps(2))
  qed
  then have "\<forall>row\<in>set (rp_rows resp). check_attention_row row = Inr () \<and> (\<forall>n. check_component (ar_components row n) = Inr ())"
    using rank_source_cases(2)[OF T ok(1)] by (auto simp: resp(3))
  moreover have "mset (map ar_asset_id (rp_rows resp)) = mset (map fr_asset_id fs)"
    by (simp only: resp(3) mset_map mset_sort image_mset.compositionality) (simp add: o_def)
  ultimately show ?thesis using resp by blast
qed

lemma final_row_of:
  assumes "distinct (map fr_asset_id fs)" "f \<in> set fs" "ar_asset_id row = fr_asset_id f"
    "row \<in> set (map (final_row g policy old T fs) fs)"
  shows "row = final_row g policy old T fs f"
proof -
  obtain h where h: "h \<in> set fs" "row = final_row g policy old T fs h" using assms(4) by auto
  then have "h = f" using assms(1-3) by (simp add: distinct_map inj_on_def)
  then show ?thesis using h by simp
qed

lemma final_score:
  fixes old g
  assumes "\<And>name. scores_table policy name fs (T name)" "rows_ok fs" "f \<in> set fs" "n \<in> set components_list"
  defines "row \<equiv> final_row g policy old T fs f"
  shows "ac_score (ar_components row n) = score_of policy n fs (fr_asset_id f)"
    and "component_ready row n
      \<longleftrightarrow> ready_magnitudes n f \<noteq> [] \<and> cp_minimum_peers policy \<le> int (length (raws n fs))"
    and "greatest_of (ready_magnitudes n f) (map_of (raws n fs) (fr_asset_id f))"
proof -
  have raw: "map_of (raws n fs) (fr_asset_id f) = map_option pk_raw (picked_of n f)"
    using assms(2,3) by (intro raws_at) (simp_all add: rows_ok_def)
  show gr: "greatest_of (ready_magnitudes n f) (map_of (raws n fs) (fr_asset_id f))"
    unfolding raw using picked_of_greatest[of f n] assms(2,3) by (simp add: rows_ok_def)
  have none: "ready_magnitudes n f = [] \<longleftrightarrow> map_of (raws n fs) (fr_asset_id f) = None"
    using gr by (auto simp: greatest_of_def split: option.splits)
  note c = scored_component_cases(1,2)[OF assms(1,3,2), where old = old, of n]
  show "ac_score (ar_components row n) = score_of policy n fs (fr_asset_id f)"
    by (simp add: row_def final_components(1)[OF assms(4)] c(1))
  show "component_ready row n
      \<longleftrightarrow> ready_magnitudes n f \<noteq> [] \<and> cp_minimum_peers policy \<le> int (length (raws n fs))"
    using none c(2) by (simp add: row_def component_ready_def final_components(1)[OF assms(4)] score_of_def)
qed

lemma final_confluence:
  fixes old g
  assumes "\<And>name. scores_table policy name fs (T name)" "rows_ok fs" "f \<in> set fs"
  defines "row \<equiv> final_row g policy old T fs f"
  shows "ac_score (ar_components row Confluence) =
      (if \<forall>n\<in>set components_list. component_ready row n
       then Some (f_round (sum_list (map (\<lambda>n. fval (the (ac_score (ar_components row n)))) components_list) / 4))
       else None)"
    and "component_ready row Confluence \<longleftrightarrow> (\<forall>n\<in>set components_list. component_ready row n)"
proof -
  let ?s = "row_scores_of policy old T fs f"
  let ?xs = "map (\<lambda>f. (f, row_scores_of policy old T fs f)) fs"
  have d: "distinct (map (\<lambda>x. fr_asset_id (fst x)) ?xs)" using assms(2) by (simp add: o_def rows_ok_def)
  have fin: "all_of (between 0 100) (confluence_score ?s)"
    by (rule confluence_entry_ok(2)) (rule row_scores_checked[OF assms(1,3,2)])
  have mem: "(f, ?s) \<in> set ?xs" using assms(3) by simp
  note c = confluence_component_cases(2,3)[OF d mem fin, where old = old and policy = policy, folded confluences_def]
  have ready: "all_ready ?s \<longleftrightarrow> (\<forall>n\<in>set components_list. component_ready row n)"
    by (simp add: row_def final_row_def all_ready_def score_list_def components_list_def)
  have scores: "map (\<lambda>n. fval (the (ac_score (ar_components row n)))) components_list
      = map (\<lambda>c. fval (the (ac_score c))) (score_list ?s)"
    by (simp add: row_def final_row_def score_list_def components_list_def)
  show "ac_score (ar_components row Confluence) =
      (if \<forall>n\<in>set components_list. component_ready row n
       then Some (f_round (sum_list (map (\<lambda>n. fval (the (ac_score (ar_components row n)))) components_list) / 4))
       else None)"
    unfolding scores ready[symmetric] using c(1) by (simp add: row_def final_components(2) confluence_score_def)
  show "component_ready row Confluence \<longleftrightarrow> (\<forall>n\<in>set components_list. component_ready row n)"
    unfolding ready[symmetric] using c(2) by (simp add: row_def component_ready_def final_components(2))
qed

text \<open>Two ready rows of a component: their ranks are in the range of the peers and follow the scores.\<close>

definition ranked_pair :: "attention_component \<Rightarrow> string \<Rightarrow> attention_component \<Rightarrow> string \<Rightarrow> bool" where
  "ranked_pair c a c' a' \<longleftrightarrow>
     (case (ac_rank c, ac_rank c', ac_score c, ac_score c') of
        (Some k, Some k', Some v, Some v') \<Rightarrow>
          1 \<le> k \<and> k \<le> ac_peer_count c \<and> (k < k' \<longleftrightarrow> fval v' < fval v \<or> fval v' = fval v \<and> a < a')
      | _ \<Rightarrow> False)"

lemma final_ranks:
  fixes old g
  assumes "\<And>name. scores_table policy name fs (T name)" "rows_ok fs" "f \<in> set fs" "f' \<in> set fs"
  defines "row \<equiv> final_row g policy old T fs f" and "row' \<equiv> final_row g policy old T fs f'"
  assumes "component_ready row n" "component_ready row' n"
  shows "ranked_pair (ar_components row n) (fr_asset_id f) (ar_components row' n) (fr_asset_id f')"
proof -
  let ?t = "rank_source policy old T fs n"
  note d = rank_source_cases(1)[OF assms(1,2,3), where old = old and n = n]
  note c = rank_source_cases(2-6)[OF assms(1,2,3), where old = old and n = n and g = g, folded row_def]
  note c' = rank_source_cases(2-6)[OF assms(1,2,4), where old = old and n = n and g = g, folded row'_def]
  have ready: "ac_status (ar_components row n) = CompReady" "ac_status (ar_components row' n) = CompReady"
    using assms(7,8) by (simp_all add: component_ready_def)
  then obtain v v' where v: "map_of ?t (fr_asset_id f) = Some v" "map_of ?t (fr_asset_id f') = Some v'"
    using c(2,3) c'(2,3) by auto
  obtain k where k: "map_of (rank_table ?t) (fr_asset_id f) = Some k" "1 \<le> k" "k \<le> int (length ?t)"
    using rank_table_bounds[OF d v(1)] by blast
  obtain k' where k': "map_of (rank_table ?t) (fr_asset_id f') = Some k'"
    using rank_table_bounds[OF d v(2)] by blast
  have "k < k' \<longleftrightarrow> score_order (fr_asset_id f, v) < score_order (fr_asset_id f', v')"
    by (rule rank_table_less[OF d v k(1) k'])
  then show ?thesis
    using k k' c(2,4,5) c'(2,4) ready v
    by (auto simp: ranked_pair_def score_order_def less_prod_def)
qed

text \<open>
  C6. What a response says.  For a feature row and its response row: each of the four components is ready
  exactly when the row has a ready candidate feature and at least \<open>minimum_peers\<close> rows do; its score is then the
  midrank percentile, among the raw values of all rows, of the row's raw value, the greatest of its candidate
  magnitudes.  Confluence is ready exactly when all four are, and is their mean.  Within every component the
  ranks of the ready rows are positive, at most the peer count, and order the rows by falling score, ties by
  asset id.
\<close>

theorem scores_are_ranked_percentiles:
  assumes "check_input_reference g = Inr ()" and "check_component_policy policy = Inr ()"
    and "distinct (map fr_asset_id fs)" and "\<forall>f\<in>set fs. check_feature_row f = Inr () \<and> fr_decision_at f = ir_decision_at g"
    and "int (length fs) \<le> 2 ^ 40" and "score_attention g fs policy prev = Inr resp"
    and "f \<in> set fs" "f' \<in> set fs" "row \<in> set (rp_rows resp)" "row' \<in> set (rp_rows resp)"
    and "ar_asset_id row = fr_asset_id f" "ar_asset_id row' = fr_asset_id f'"
  shows "(\<forall>n\<in>set components_list.
        ac_score (ar_components row n) = score_of policy n fs (fr_asset_id f)
        \<and> (component_ready row n
             \<longleftrightarrow> ready_magnitudes n f \<noteq> [] \<and> cp_minimum_peers policy \<le> int (length (raws n fs)))
        \<and> greatest_of (ready_magnitudes n f) (map_of (raws n fs) (fr_asset_id f)))
    \<and> (component_ready row Confluence \<longleftrightarrow> (\<forall>n\<in>set components_list. component_ready row n))
    \<and> (component_ready row Confluence \<longrightarrow> ac_score (ar_components row Confluence)
         = Some (f_round (sum_list (map (\<lambda>n. fval (the (ac_score (ar_components row n)))) components_list) / 4)))
    \<and> (\<forall>n. component_ready row n \<and> component_ready row' n
         \<longrightarrow> ranked_pair (ar_components row n) (fr_asset_id f) (ar_components row' n) (fr_asset_id f'))"
proof -
  define old where "old = comparable_rows g policy prev"
  have ok: "rows_ok fs" "\<forall>f\<in>set fs. fr_decision_at f = ir_decision_at g" using assms(3-5) by (simp_all add: rows_ok_def)
  obtain T where T: "\<And>name. scores_table policy name fs (T name)"
    and rows: "rp_rows resp = sort_key attention_order (map (final_row g policy old T fs) fs)"
    unfolding old_def using score_attention_rows[OF assms(1,2) ok, of prev] assms(6) by (metis sum.inject(2))
  have row: "row = final_row g policy old T fs f" "row' = final_row g policy old T fs f'"
    using assms(9,10) unfolding rows
    by (auto intro!: final_row_of[OF assms(3,7,11)] final_row_of[OF assms(3,8,12)])
  show ?thesis
    using final_score[OF T ok(1) assms(7)] final_confluence[OF T ok(1) assms(7), where g = g and old = old]
      final_ranks[OF T ok(1) assms(7,8), where g = g and old = old]
    unfolding row by auto
qed
section \<open>A concrete generation\<close>

definition sample_feature :: "pyfloat option \<Rightarrow> raw_feature" where
  "sample_feature v =
     \<lparr>fv_value = v, fv_status = (if v = None then FsMissing else FsReady),
      fv_reason = (if v = None then Some ''absent'' else None), fv_unit = None, fv_source = ''ranking'',
      fv_start_at = None, fv_end_at = None, fv_observed_at = None, fv_observations = []\<rparr>"

definition sample_row :: "string \<Rightarrow> rat \<Rightarrow> feature_row" where
  "sample_row a v =
     \<lparr>fr_asset_id = a, fr_asset = a, fr_reference_key = None, fr_originals = [], fr_decision_at = 120000,
      fr_identity_status = IdReady, fr_quality_reasons = [],
      fr_feature = (\<lambda>n. sample_feature (if n = ReferenceReturn15m then Some (FFin v) else None)),
      fr_fresh_venues = 0, fr_ready_venues = 0\<rparr>"

definition sample_generation_ref :: input_reference where
  "sample_generation_ref =
     \<lparr>ir_generation_id = ''g'', ir_feature_version = feature_version, ir_decision_at = 120000,
      ir_ranking_cutoff = 60000, ir_ranking_generated_at = 60000, ir_ranking_generation_id = ''r'',
      ir_map_version = ''m'', ir_metric_version = ''v'', ir_universe_generated_at = 60000,
      ir_service_generated_at = 60000, ir_metrics_generation_id = None, ir_metrics_generated_at = None,
      ir_metrics_candle_cutoff = None, ir_input_skew_seconds = FFin 0, ir_quality_reasons = []\<rparr>"

definition sample_component_policy :: component_policy where
  "sample_component_policy = \<lparr>cp_version = ''p'', cp_minimum_peers = 2\<rparr>"

definition sample_rows :: "feature_row list" where
  "sample_rows = [sample_row ''a'' 3, sample_row ''b'' (- 5)]"

lemma sample_row_checked: "check_feature_row (sample_row a v) = Inr ()"
  by (simp add: check_feature_row_def sample_row_def feature_names_def check_raw_feature_def sample_feature_def
      check_row_feature_def feature_times_def after_time_def strip_def py_space_def first_error.simps)

lemma sample_checked:
  "check_input_reference sample_generation_ref = Inr ()" "check_component_policy sample_component_policy = Inr ()"
  "distinct (map fr_asset_id sample_rows)" "int (length sample_rows) \<le> 2 ^ 40"
  "\<forall>f\<in>set sample_rows. check_feature_row f = Inr () \<and> fr_decision_at f = ir_decision_at sample_generation_ref"
  using sample_row_checked
  by (auto simp: check_input_reference_def sample_generation_ref_def at_least_def after_time_def attention_minute_def
      check_component_policy_def sample_component_policy_def sample_rows_def sample_row_def)

theorem scoring_never_fails_witness:
  "\<exists>resp. score_attention sample_generation_ref sample_rows sample_component_policy None = Inr resp
    \<and> check_response resp = Inr () \<and> mset (map ar_asset_id (rp_rows resp)) = {#''a'', ''b''#}"
proof -
  have "mset (map fr_asset_id sample_rows) = {#''a'', ''b''#}" by (simp add: sample_rows_def sample_row_def)
  then show ?thesis
    using scoring_never_fails[OF sample_checked(1,2,3,5,4), of None] by (simp only: ) blast
qed

theorem scores_are_ranked_percentiles_witness:
  "\<exists>resp row row'. score_attention sample_generation_ref sample_rows sample_component_policy None = Inr resp
    \<and> row \<in> set (rp_rows resp) \<and> row' \<in> set (rp_rows resp)
    \<and> ac_score (ar_components row Movement) = score_of sample_component_policy Movement sample_rows ''a''
    \<and> (component_ready row Movement \<and> component_ready row' Movement
         \<longrightarrow> ranked_pair (ar_components row Movement) ''a'' (ar_components row' Movement) ''b'')"
proof -
  let ?a = "sample_row ''a'' 3" and ?b = "sample_row ''b'' (- 5)"
  define old where "old = comparable_rows sample_generation_ref sample_component_policy None"
  have ok: "rows_ok sample_rows" "\<forall>f\<in>set sample_rows. fr_decision_at f = ir_decision_at sample_generation_ref"
    using sample_checked(3-5) by (simp_all add: rows_ok_def)
  obtain T resp where resp: "score_attention sample_generation_ref sample_rows sample_component_policy None = Inr resp"
    "rp_rows resp = sort_key attention_order
       (map (final_row sample_generation_ref sample_component_policy old T sample_rows) sample_rows)"
    unfolding old_def using score_attention_rows[OF sample_checked(1,2) ok, of None] by metis
  have mem: "?a \<in> set sample_rows" "?b \<in> set sample_rows" by (simp_all add: sample_rows_def)
  let ?r = "final_row sample_generation_ref sample_component_policy old T sample_rows"
  have rows: "?r ?a \<in> set (rp_rows resp)" "?r ?b \<in> set (rp_rows resp)" using mem by (auto simp: resp(2))
  have ids: "fr_asset_id ?a = ''a''" "fr_asset_id ?b = ''b''" by (simp_all add: sample_row_def)
  have m: "Movement \<in> set components_list" by (simp add: components_list_def)
  show ?thesis
    using scores_are_ranked_percentiles[OF sample_checked(1,2,3,5,4) resp(1) mem rows final_row_simps(1) final_row_simps(1)]
      resp(1) rows m unfolding ids by blast
qed

end
