(* ===== verification/Attention_Allocation.thy ===== *)
theory Attention_Allocation
  imports Attention_Scoring "HOL-Library.AList"
begin

text \<open>
  The shadow allocation of attention slots (\<open>attention-core/allocation.py\<close>): three policies choose at
  most \<open>k\<close> eligible assets, given the slots of the previous allocation.  A dictionary is an association list
  in insertion order, built by \<open>AList.update\<close>; a set of group ids is a finite set.  The score of an
  eligible row is asserted when the rows are sorted, before any other use of it; its rank is asserted where the code
  reads it.  \<open>k\<close> is positive (\<open>check_policy\<close>).
\<close>

section \<open>Eligible rows, held slots and transition cost\<close>

definition py_dict :: "('k \<times> 'v) list \<Rightarrow> ('k \<times> 'v) list" where
  "py_dict xs = fold (\<lambda>(k, v). AList.update k v) xs []"

definition comparable_allocation :: "attention_response \<Rightarrow> allocation_policy \<Rightarrow> shadow_allocation option \<Rightarrow> bool" where
  "comparable_allocation response policy previous \<longleftrightarrow>
     (case previous of
        None \<Rightarrow> False
      | Some p \<Rightarrow>
          sa_map_version p = ir_map_version (rp_inputs response) \<and> sa_policy p = policy
          \<and> sa_score_policy_version p = rp_policy_version response \<and> sa_decision_at p \<le> rp_decision_at response)"

definition old_slots :: "attention_response \<Rightarrow> allocation_policy \<Rightarrow> shadow_allocation option \<Rightarrow> (string \<times> shadow_slot) list" where
  "old_slots response policy previous =
     (case previous of
        Some p \<Rightarrow> if comparable_allocation response policy previous
                  then py_dict (map (\<lambda>s. (sl_asset_id s, s)) (sa_slots p)) else []
      | None \<Rightarrow> [])"

definition row_eligible :: "attention_response \<Rightarrow> allocation_policy \<Rightarrow> attention_row \<Rightarrow> bool" where
  "row_eligible response policy row \<longleftrightarrow>
     rp_status response \<in> {AtReady, AtPartial} \<and> ar_identity_status row \<in> {IdReady, IdPartial}
     \<and> component_ready row (ap_component policy)
     \<and> 0 \<le> rp_decision_at response - ar_data_as_of row \<and> rp_decision_at response - ar_data_as_of row \<le> 150000"

definition eligible_assets :: "attention_response \<Rightarrow> allocation_policy \<Rightarrow> (string \<times> attention_row) list" where
  "eligible_assets response policy =
     py_dict (map (\<lambda>r. (ar_asset_id r, r)) (filter (row_eligible response policy) (rp_rows response)))"

text \<open>What the choice of a policy reads: the time, the policy, the old slots and the eligible rows.\<close>

record allocation_input =
  ai_decision_at :: int
  ai_policy :: allocation_policy
  ai_old :: "(string \<times> shadow_slot) list"
  ai_eligible :: "(string \<times> attention_row) list"

definition is_eligible :: "allocation_input \<Rightarrow> string \<Rightarrow> bool" where
  "is_eligible i a \<longleftrightarrow> a \<in> fst ` set (ai_eligible i)"

definition chosen_component :: "allocation_input \<Rightarrow> string \<Rightarrow> attention_component option" where
  "chosen_component i a = map_option (\<lambda>r. ar_components r (ap_component (ai_policy i))) (map_of (ai_eligible i) a)"

definition asserted :: "'a option \<Rightarrow> 'a result" where
  "asserted x = (case x of None \<Rightarrow> raise_exn AssertionError [] | Some v \<Rightarrow> Inr v)"

definition asset_score :: "allocation_input \<Rightarrow> string \<Rightarrow> pyfloat" where
  "asset_score i a =
     (case chosen_component i a of None \<Rightarrow> FNaN | Some c \<Rightarrow> (case ac_score c of None \<Rightarrow> FNaN | Some v \<Rightarrow> v))"

definition asset_rank :: "allocation_input \<Rightarrow> string \<Rightarrow> int result" where
  "asset_rank i a = asserted (Option.bind (chosen_component i a) ac_rank)"

definition best_first :: "allocation_input \<Rightarrow> string \<Rightarrow> rat \<times> string" where
  "best_first i a = (- fval (asset_score i a), a)"

definition ordered_assets :: "allocation_input \<Rightarrow> string list result" where
  "ordered_assets i =
     and_then (map_ok (\<lambda>(a, r). asserted (ac_score (ar_components r (ap_component (ai_policy i))))) (ai_eligible i)) (\<lambda>_.
       Inr (sort_key (best_first i) (map fst (ai_eligible i))))"

definition entered_at :: "allocation_input \<Rightarrow> string \<Rightarrow> int" where
  "entered_at i a = (case map_of (ai_old i) a of None \<Rightarrow> ai_decision_at i | Some s \<Rightarrow> sl_entered_at s)"

definition held :: "allocation_input \<Rightarrow> string \<Rightarrow> bool" where
  "held i a \<longleftrightarrow> a \<in> fst ` set (ai_old i)
     \<and> ai_decision_at i - entered_at i a < ap_minimum_hold_minutes (ai_policy i) * attention_minute"

definition asset_groups :: "allocation_input \<Rightarrow> string \<Rightarrow> string set" where
  "asset_groups i a =
     (case map_of (ai_eligible i) a of
        None \<Rightarrow> {}
      | Some r \<Rightarrow> set (concat (map (\<lambda>x. case or_group_id x of None \<Rightarrow> [] | Some g \<Rightarrow> if or_current x then [g] else [])
                               (ar_originals r))))"

definition all_groups :: "(string \<times> string set) list \<Rightarrow> string set" where
  "all_groups xs = \<Union> (set (map snd xs))"

definition unmapped :: "(string \<times> string set) list \<Rightarrow> string set" where
  "unmapped xs = set (map fst (filter (\<lambda>x. snd x = {}) xs))"

definition transition_cost ::
    "allocation_policy \<Rightarrow> (string \<times> string set) list \<Rightarrow> (string \<times> string set) list \<Rightarrow> pyfloat" where
  "transition_cost policy before after =
     (let additions = int (card (all_groups after - all_groups before)) + int (card (unmapped after - unmapped before));
          removals = int (card (all_groups before - all_groups after)) + int (card (unmapped before - unmapped after))
      in f_add (f_mul (ap_switch_penalty policy) (f_round (of_int (additions + removals))))
               (f_mul (ap_warm_up_cost policy) (f_round (of_int additions))))"

section \<open>The three policies\<close>

definition k_of :: "allocation_input \<Rightarrow> nat" where
  "k_of i = nat (ap_k (ai_policy i))"

text \<open>Hysteresis: keep old slots that are held or ranked within the buffer, then fill up by rank.\<close>

fun keep_ranked :: "allocation_input \<Rightarrow> string list \<Rightarrow> string list result" where
  "keep_ranked i [] = Inr []"
| "keep_ranked i (a # as) =
     (if \<not> is_eligible i a then keep_ranked i as
      else if held i a then and_then (keep_ranked i as) (\<lambda>rest. Inr (a # rest))
      else and_then (asset_rank i a) (\<lambda>rank.
             and_then (keep_ranked i as) (\<lambda>rest.
               Inr (if rank \<le> ap_k (ai_policy i) + ap_buffer (ai_policy i) then a # rest else rest))))"

definition hold_order :: "allocation_input \<Rightarrow> string \<Rightarrow> bool \<times> int \<times> rat \<times> string" where
  "hold_order i a = (\<not> held i a, entered_at i a, - fval (asset_score i a), a)"

fun fill_ranked :: "allocation_input \<Rightarrow> string list \<Rightarrow> string list \<Rightarrow> string list result" where
  "fill_ranked i [] chosen = Inr chosen"
| "fill_ranked i (a # as) chosen =
     (if k_of i \<le> length chosen then Inr chosen
      else if a \<in> set chosen then fill_ranked i as chosen
      else and_then (asset_rank i a) (\<lambda>rank.
             fill_ranked i as (if rank \<le> ap_k (ai_policy i) then chosen @ [a] else chosen)))"

definition choose_hysteresis :: "allocation_input \<Rightarrow> string list \<Rightarrow> string list result" where
  "choose_hysteresis i ordered =
     and_then (keep_ranked i (map fst (ai_old i))) (\<lambda>kept.
       fill_ranked i ordered (take (k_of i) (sort_key (hold_order i) kept)))"

text \<open>Cost-aware: replace the worst slot that is not held when the gain in score exceeds the transition cost.\<close>

definition worst_first :: "allocation_input \<Rightarrow> string \<Rightarrow> rat \<times> string" where
  "worst_first i a = (fval (asset_score i a), a)"

definition score_gain :: "allocation_input \<Rightarrow> string \<Rightarrow> string \<Rightarrow> pyfloat" where
  "score_gain i a worst =
     (case f_div (f_sub (asset_score i a) (asset_score i worst)) (FFin 100) of None \<Rightarrow> FNaN | Some b \<Rightarrow> b)"

definition group_map :: "allocation_input \<Rightarrow> string list \<Rightarrow> (string \<times> string set) list" where
  "group_map i as = map (\<lambda>a. (a, asset_groups i a)) as"

definition replace_step :: "allocation_input \<Rightarrow> string \<Rightarrow> string list \<Rightarrow> string list" where
  "replace_step i a chosen =
     (if a \<in> set chosen then chosen
      else if length chosen < k_of i then chosen @ [a]
      else case sort_key (worst_first i) (filter (\<lambda>c. \<not> held i c) chosen) of
             [] \<Rightarrow> chosen
           | worst # _ \<Rightarrow>
               if f_less (transition_cost (ai_policy i) (group_map i chosen)
                            (group_map i (filter (\<lambda>c. c \<noteq> worst) chosen @ [a])))
                         (score_gain i a worst)
               then remove1 worst chosen @ [a] else chosen)"

definition choose_cost_aware :: "allocation_input \<Rightarrow> string list \<Rightarrow> string list" where
  "choose_cost_aware i ordered =
     fold (replace_step i) ordered (take (k_of i) (filter (is_eligible i) (map fst (ai_old i))))"

definition choose_assets :: "allocation_input \<Rightarrow> bool \<Rightarrow> string list \<Rightarrow> string list result" where
  "choose_assets i comparable ordered =
     (if ap_kind (ai_policy i) = TopK \<or> \<not> comparable then Inr (take (k_of i) ordered)
      else if ap_kind (ai_policy i) = Hysteresis then choose_hysteresis i ordered
      else Inr (choose_cost_aware i ordered))"

section \<open>The allocation\<close>

definition make_slot :: "allocation_input \<Rightarrow> string \<Rightarrow> shadow_slot result" where
  "make_slot i a =
     and_then (asset_rank i a) (\<lambda>rank.
       build check_slot
         \<lparr>sl_asset_id = a, sl_group_ids = sorted_list_of_set (asset_groups i a), sl_entered_at = entered_at i a,
          sl_score = asset_score i a, sl_rank = rank\<rparr>)"

definition slot_groups :: "shadow_slot list \<Rightarrow> (string \<times> string set) list" where
  "slot_groups slots = py_dict (map (\<lambda>s. (sl_asset_id s, set (sl_group_ids s))) slots)"

definition old_groups :: "(string \<times> shadow_slot) list \<Rightarrow> (string \<times> string set) list" where
  "old_groups old = map (\<lambda>(a, s). (a, set (sl_group_ids s))) old"

definition allocation_reason :: "attention_response \<Rightarrow> bool \<Rightarrow> shadow_allocation option \<Rightarrow> string option" where
  "allocation_reason response comparable previous =
     (if rp_status response \<notin> {AtReady, AtPartial} then Some ''attention_unavailable''
      else if comparable then None
      else if previous = None then Some ''no_previous_allocation'' else Some ''map_or_policy_changed'')"

definition churn_of :: "allocation_policy \<Rightarrow> bool \<Rightarrow> string set \<Rightarrow> string set \<Rightarrow> pyfloat result" where
  "churn_of policy comparable added removed =
     (if \<not> comparable then Inr (FFin 0)
      else if ap_k policy = 0 then raise_exn ZeroDivisionError ''division by zero''
      else Inr (f_round (of_nat (card (added \<union> removed)) / of_int (2 * ap_k policy))))"

definition input_of :: "attention_response \<Rightarrow> allocation_policy \<Rightarrow> shadow_allocation option \<Rightarrow> allocation_input" where
  "input_of response policy previous =
     \<lparr>ai_decision_at = rp_decision_at response, ai_policy = policy,
      ai_old = old_slots response policy previous, ai_eligible = eligible_assets response policy\<rparr>"

definition report_allocation ::
    "attention_response \<Rightarrow> allocation_policy \<Rightarrow> shadow_allocation option \<Rightarrow> string option
      \<Rightarrow> shadow_slot list \<Rightarrow> shadow_allocation result" where
  "report_allocation response policy previous manual slots =
     (let comparable = comparable_allocation response policy previous;
          old = old_slots response policy previous;
          current = set (map sl_asset_id slots); before = set (map fst old);
          old_ids = all_groups (old_groups old); new_ids = all_groups (slot_groups slots)
      in and_then (churn_of policy comparable (current - before) (before - current)) (\<lambda>churn.
           build check_allocation
             \<lparr>sa_generation_id = rp_generation_id response, sa_decision_at = rp_decision_at response,
              sa_map_version = ir_map_version (rp_inputs response), sa_policy = policy,
              sa_score_policy_version = rp_policy_version response, sa_manual_selection_id = manual,
              sa_comparable = comparable, sa_reason = allocation_reason response comparable previous,
              sa_slots = slots,
              sa_added = sorted_list_of_set (current - before), sa_removed = sorted_list_of_set (before - current),
              sa_retained = sorted_list_of_set (before \<inter> current),
              sa_added_groups = sorted_list_of_set (new_ids - old_ids),
              sa_removed_groups = sorted_list_of_set (old_ids - new_ids),
              sa_churn = churn, sa_switch_cost = transition_cost policy (old_groups old) (slot_groups slots)\<rparr>))"

definition allocate_shadow_hotset ::
    "attention_response \<Rightarrow> allocation_policy \<Rightarrow> shadow_allocation option \<Rightarrow> string option \<Rightarrow> shadow_allocation result" where
  "allocate_shadow_hotset response policy previous manual =
     (let i = input_of response policy previous
      in and_then (ordered_assets i) (\<lambda>ordered.
         and_then (choose_assets i (comparable_allocation response policy previous) ordered) (\<lambda>chosen.
         and_then (map_ok (make_slot i) (sort_key (best_first i) chosen)) (\<lambda>slots.
           report_allocation response policy previous manual slots))))"

section \<open>Dictionaries in insertion order\<close>

lemma py_dict_snoc: "py_dict (xs @ [(k, v)]) = AList.update k v (py_dict xs)"
  by (simp add: py_dict_def)

lemma map_of_py_dict: "map_of (py_dict xs) = map_of (rev xs)"
proof (induction xs rule: rev_induct)
  case (snoc x xs)
  then show ?case by (cases x) (simp add: py_dict_snoc update_conv' fun_upd_def)
qed (simp add: py_dict_def)

lemma distinct_py_dict: "distinct (map fst (py_dict xs))"
proof (induction xs rule: rev_induct)
  case (snoc x xs)
  then show ?case by (cases x) (simp add: py_dict_snoc distinct_update)
qed (simp add: py_dict_def)

lemma keys_py_dict: "fst ` set (py_dict xs) = fst ` set xs"
  using arg_cong[OF map_of_py_dict[of xs], of dom] by (simp add: dom_map_of_conv_image_fst)

lemma length_py_dict: "length (py_dict xs) \<le> length xs"
proof -
  have "length (py_dict xs) = card (fst ` set (py_dict xs))"
    using distinct_card[OF distinct_py_dict[of xs]] by simp
  also have "\<dots> \<le> length xs" unfolding keys_py_dict by (metis card_length length_map set_map)
  finally show ?thesis .
qed

lemma py_dict_member: "(k, v) \<in> set (py_dict xs) \<Longrightarrow> (k, v) \<in> set xs"
  by (metis distinct_py_dict map_of_SomeD map_of_eq_Some_iff map_of_py_dict set_rev)

section \<open>What every policy keeps\<close>

text \<open>Distinct eligible assets, at most \<open>k\<close> of them.\<close>

definition slots_ok :: "allocation_input \<Rightarrow> string list \<Rightarrow> bool" where
  "slots_ok i chosen \<longleftrightarrow> distinct chosen \<and> (\<forall>a\<in>set chosen. is_eligible i a) \<and> length chosen \<le> k_of i"

definition keeps_held :: "allocation_input \<Rightarrow> string list \<Rightarrow> bool" where
  "keeps_held i chosen \<longleftrightarrow> (\<forall>a. held i a \<and> is_eligible i a \<longrightarrow> a \<in> set chosen)"

lemma keep_ranked_kept:
  "keep_ranked i as = Inr kept \<Longrightarrow> set kept \<subseteq> {a \<in> set as. is_eligible i a}
     \<and> {a \<in> set as. is_eligible i a \<and> held i a} \<subseteq> set kept
     \<and> length kept \<le> length as \<and> (distinct as \<longrightarrow> distinct kept)"
  by (induction as arbitrary: kept) (fastforce simp: and_then_Inr split: if_splits)+

lemma fill_ranked_fills:
  "fill_ranked i as chosen = Inr xs \<Longrightarrow> length chosen \<le> k_of i \<Longrightarrow> distinct chosen
    \<Longrightarrow> distinct xs \<and> length xs \<le> k_of i \<and> set chosen \<subseteq> set xs \<and> set xs \<subseteq> set chosen \<union> set as"
proof (induction as arbitrary: chosen)
  case (Cons a as)
  show ?case
  proof (cases "k_of i \<le> length chosen \<or> a \<in> set chosen")
    case True
    then show ?thesis using Cons by (fastforce split: if_splits)
  next
    case False
    then obtain rank where r: "asset_rank i a = Inr rank"
      "fill_ranked i as (if rank \<le> ap_k (ai_policy i) then chosen @ [a] else chosen) = Inr xs"
      using Cons.prems(1) by (auto simp: and_then_Inr)
    have "distinct xs \<and> length xs \<le> k_of i
        \<and> set (if rank \<le> ap_k (ai_policy i) then chosen @ [a] else chosen) \<subseteq> set xs
        \<and> set xs \<subseteq> set (if rank \<le> ap_k (ai_policy i) then chosen @ [a] else chosen) \<union> set as"
      using False Cons.prems(2,3) by (intro Cons.IH[OF r(2)]) auto
    then show ?thesis by (auto split: if_splits)
  qed
qed simp

lemma set_sort_key_filter_hd:
  assumes "sort_key f (filter P xs) = y # ys"
  shows "y \<in> set xs \<and> P y"
proof -
  have "y \<in> set (sort_key f (filter P xs))" unfolding assms by simp
  then show ?thesis by simp
qed

lemma replace_step_keeps:
  assumes "slots_ok i chosen" "keeps_held i chosen" "is_eligible i a"
  shows "slots_ok i (replace_step i a chosen) \<and> keeps_held i (replace_step i a chosen)
    \<and> length chosen \<le> length (replace_step i a chosen)"
proof (cases "a \<in> set chosen \<or> length chosen < k_of i")
  case True
  then show ?thesis using assms by (auto simp: replace_step_def slots_ok_def keeps_held_def)
next
  case full: False
  show ?thesis
  proof (cases "sort_key (worst_first i) (filter (\<lambda>c. \<not> held i c) chosen)")
    case Nil
    then show ?thesis using assms full by (simp add: replace_step_def)
  next
    case (Cons w ws)
    then have w: "w \<in> set chosen" "\<not> held i w" using set_sort_key_filter_hd[OF Cons] by simp_all
    have "length (remove1 w chosen @ [a]) = length chosen"
      using w(1) by (simp add: length_remove1) (metis Suc_pred length_pos_if_in_set)
    then have "slots_ok i (remove1 w chosen @ [a]) \<and> keeps_held i (remove1 w chosen @ [a])
        \<and> length chosen \<le> length (remove1 w chosen @ [a])"
      using assms w full by (auto simp: slots_ok_def keeps_held_def notin_set_remove1)
    then show ?thesis using assms full Cons by (simp add: replace_step_def)
  qed
qed

lemma replace_steps_keep:
  assumes "slots_ok i chosen" "keeps_held i chosen" "\<forall>a\<in>set as. is_eligible i a"
  shows "slots_ok i (fold (replace_step i) as chosen) \<and> keeps_held i (fold (replace_step i) as chosen)"
  using assms
proof (induction as arbitrary: chosen)
  case (Cons a as)
  then show ?case using replace_step_keeps[of i chosen a] by simp
qed simp

text \<open>The input of a call: dictionaries with distinct keys, not more old slots than \<open>k\<close>.\<close>

definition input_ok :: "allocation_input \<Rightarrow> bool" where
  "input_ok i \<longleftrightarrow> distinct (map fst (ai_old i)) \<and> distinct (map fst (ai_eligible i)) \<and> length (ai_old i) \<le> k_of i"

lemma ordered_assets_Inr:
  assumes "ordered_assets i = Inr ordered" "distinct (map fst (ai_eligible i))"
  shows "distinct ordered" "set ordered = {a. is_eligible i a}" "sorted_wrt (\<lambda>a b. best_first i a < best_first i b) ordered"
proof -
  have o: "ordered = sort_key (best_first i) (map fst (ai_eligible i))"
    using assms(1) by (auto simp: ordered_assets_def and_then_Inr)
  show d: "distinct ordered" using assms(2) by (simp add: o)
  show "set ordered = {a. is_eligible i a}" by (auto simp: o is_eligible_def)
  have "sorted_wrt (<) (map (best_first i) ordered)"
    unfolding o by (rule sorted_key_strict) (use assms(2) in \<open>simp add: distinct_map inj_on_def best_first_def\<close>)
  then show "sorted_wrt (\<lambda>a b. best_first i a < best_first i b) ordered" by (simp add: sorted_wrt_map)
qed

lemma held_is_old: "held i a \<Longrightarrow> a \<in> fst ` set (ai_old i)"
  by (simp add: held_def)

lemma choose_assets_keep:
  assumes "input_ok i" "ordered_assets i = Inr ordered" "choose_assets i comparable ordered = Inr chosen"
  shows "slots_ok i chosen" and "comparable \<Longrightarrow> ap_kind (ai_policy i) \<noteq> TopK \<Longrightarrow> keeps_held i chosen"
proof -
  have old: "distinct (map fst (ai_old i))" "length (ai_old i) \<le> k_of i" using assms(1) by (simp_all add: input_ok_def)
  have ord: "distinct ordered" "set ordered = {a. is_eligible i a}"
    using ordered_assets_Inr[OF assms(2)] assms(1) by (simp_all add: input_ok_def)
  have top: "slots_ok i (take (k_of i) ordered)"
    using ord by (auto simp: slots_ok_def dest: in_set_takeD)
  have hyst: "slots_ok i chosen \<and> keeps_held i chosen" if h: "choose_hysteresis i ordered = Inr chosen"
  proof -
    obtain kept where kept: "keep_ranked i (map fst (ai_old i)) = Inr kept"
      and fill: "fill_ranked i ordered (take (k_of i) (sort_key (hold_order i) kept)) = Inr chosen"
      using h by (auto simp: choose_hysteresis_def and_then_Inr)
    have k: "set kept \<subseteq> {a. is_eligible i a}" "distinct kept" "length kept \<le> k_of i"
      "{a \<in> fst ` set (ai_old i). is_eligible i a \<and> held i a} \<subseteq> set kept"
      using keep_ranked_kept[OF kept] old by auto
    have all: "take (k_of i) (sort_key (hold_order i) kept) = sort_key (hold_order i) kept" using k(3) by simp
    have "distinct chosen \<and> length chosen \<le> k_of i \<and> set kept \<subseteq> set chosen \<and> set chosen \<subseteq> set kept \<union> set ordered"
      using fill_ranked_fills[OF fill] k all by simp
    moreover have "\<forall>a. held i a \<and> is_eligible i a \<longrightarrow> a \<in> set kept" using k(4) held_is_old by blast
    ultimately show ?thesis using k(1) ord by (auto simp: slots_ok_def keeps_held_def)
  qed
  have greedy: "slots_ok i (choose_cost_aware i ordered) \<and> keeps_held i (choose_cost_aware i ordered)"
  proof -
    let ?start = "filter (is_eligible i) (map fst (ai_old i))"
    have "length ?start \<le> k_of i" using length_filter_le[of "is_eligible i" "map fst (ai_old i)"] old(2)
      by (metis le_trans length_map)
    then have "slots_ok i (take (k_of i) ?start) \<and> keeps_held i (take (k_of i) ?start)"
      using old(1) held_is_old by (auto simp: slots_ok_def keeps_held_def)
    then show ?thesis
      unfolding choose_cost_aware_def using ord(2) by (intro replace_steps_keep) auto
  qed
  show "slots_ok i chosen"
    using assms(3) top hyst greedy by (auto simp: choose_assets_def split: if_splits)
  show "keeps_held i chosen" if "comparable" "ap_kind (ai_policy i) \<noteq> TopK"
    using assms(3) that hyst greedy by (auto simp: choose_assets_def split: if_splits)
qed

lemma report_fields:
  fixes old slots response policy previous
  defines "old \<equiv> set (map fst (old_slots response policy previous))" and "now \<equiv> set (map sl_asset_id slots)"
  assumes "report_allocation response policy previous manual slots = Inr alloc"
  shows "sa_slots alloc = slots" "sa_policy alloc = policy" "sa_decision_at alloc = rp_decision_at response"
    "sa_added alloc = sorted_list_of_set (now - old)" "sa_removed alloc = sorted_list_of_set (old - now)"
    "sa_retained alloc = sorted_list_of_set (old \<inter> now)"
    "sa_comparable alloc = comparable_allocation response policy previous"
    "sa_reason alloc = allocation_reason response (sa_comparable alloc) previous"
    "sa_manual_selection_id alloc = manual" "check_allocation alloc = Inr ()"
    "churn_of policy (sa_comparable alloc) (now - old) (old - now) = Inr (sa_churn alloc)"
    "sa_map_version alloc = ir_map_version (rp_inputs response)"
    "sa_score_policy_version alloc = rp_policy_version response"
  using assms(3) by (auto simp: report_allocation_def Let_def and_then_Inr build_Inr old_def now_def)

text \<open>The slots of a call, one per chosen asset, best first.\<close>

lemma allocateE:
  assumes "allocate_shadow_hotset response policy previous manual = Inr alloc"
  obtains ordered chosen where "ordered_assets (input_of response policy previous) = Inr ordered"
    "choose_assets (input_of response policy previous) (comparable_allocation response policy previous) ordered = Inr chosen"
    "map_ok (make_slot (input_of response policy previous)) (sort_key (best_first (input_of response policy previous)) chosen)
       = Inr (sa_slots alloc)"
    "report_allocation response policy previous manual (sa_slots alloc) = Inr alloc"
proof -
  obtain ordered chosen slots where h: "ordered_assets (input_of response policy previous) = Inr ordered"
    "choose_assets (input_of response policy previous) (comparable_allocation response policy previous) ordered = Inr chosen"
    "map_ok (make_slot (input_of response policy previous)) (sort_key (best_first (input_of response policy previous)) chosen) = Inr slots"
    "report_allocation response policy previous manual slots = Inr alloc"
    using assms by (auto simp: allocate_shadow_hotset_def Let_def and_then_Inr)
  have "sa_slots alloc = slots" by (rule report_fields(1)[OF h(4)])
  then show ?thesis using h by (intro that) simp_all
qed

lemma make_slot_Inr:
  assumes "make_slot i a = Inr s"
  shows "sl_asset_id s = a" "sl_entered_at s = entered_at i a" "sl_score s = asset_score i a"
    "asset_rank i a = Inr (sl_rank s)" "sl_group_ids s = sorted_list_of_set (asset_groups i a)"
    "check_slot s = Inr ()"
  using assms by (auto simp: make_slot_def and_then_Inr build_Inr)

lemma slots_of_chosen:
  assumes "map_ok (make_slot i) as = Inr slots"
  shows "map sl_asset_id slots = as" "\<forall>s\<in>set slots. make_slot i (sl_asset_id s) = Inr s"
proof -
  have l: "list_all2 (\<lambda>a s. make_slot i a = Inr s) as slots" using assms by (simp add: map_ok_Inr)
  then show "map sl_asset_id slots = as"
    by (induction rule: list_all2_induct) (auto dest: make_slot_Inr(1))
  show "\<forall>s\<in>set slots. make_slot i (sl_asset_id s) = Inr s"
    using l by (induction rule: list_all2_induct) (auto simp: make_slot_Inr(1))
qed

definition fits :: "shadow_allocation \<Rightarrow> bool" where
  "fits p \<longleftrightarrow> distinct (map sl_asset_id (sa_slots p)) \<and> int (length (sa_slots p)) \<le> ap_k (sa_policy p)"

lemma eligible_row:
  assumes "map_of (eligible_assets response policy) a = Some r"
  shows "r \<in> set (rp_rows response)" "ar_asset_id r = a" "row_eligible response policy r"
  using assms by (auto simp: eligible_assets_def map_of_py_dict dest!: map_of_SomeD)

lemma is_eligible_iff:
  "is_eligible (input_of response policy previous) a
    \<longleftrightarrow> (\<exists>r\<in>set (rp_rows response). ar_asset_id r = a \<and> row_eligible response policy r)"
  unfolding is_eligible_def input_of_def eligible_assets_def by (simp add: keys_py_dict image_image) (auto simp: image_iff)

lemma input_of_ok:
  assumes "check_policy policy = Inr ()" "\<forall>p. previous = Some p \<longrightarrow> fits p"
  shows "input_ok (input_of response policy previous)"
proof -
  have "length (old_slots response policy previous) \<le> nat (ap_k policy)"
  proof (cases "comparable_allocation response policy previous")
    case True
    then obtain p where p: "previous = Some p" "sa_policy p = policy"
      by (auto simp: comparable_allocation_def split: option.splits)
    have "length (old_slots response policy previous) \<le> length (sa_slots p)"
      using True p length_py_dict[of "map (\<lambda>s. (sl_asset_id s, s)) (sa_slots p)"] by (simp add: old_slots_def)
    then show ?thesis using assms(2) p by (auto simp: fits_def)
  qed (auto simp: old_slots_def split: option.splits)
  moreover have "distinct (map fst (old_slots response policy previous))"
    by (simp add: old_slots_def distinct_py_dict split: option.splits)
  ultimately show ?thesis
    by (simp add: input_ok_def input_of_def k_of_def eligible_assets_def distinct_py_dict)
qed

lemma ordered_scores:
  assumes "ordered_assets i = Inr ordered" "map_of (ai_eligible i) a = Some r"
  shows "ac_score (ar_components r (ap_component (ai_policy i))) = Some (asset_score i a)"
proof -
  obtain vs where "map_ok (\<lambda>(a, r). asserted (ac_score (ar_components r (ap_component (ai_policy i))))) (ai_eligible i) = Inr vs"
    using assms(1) by (auto simp: ordered_assets_def and_then_Inr)
  then have "list_all2 (\<lambda>x v. asserted (ac_score (ar_components (snd x) (ap_component (ai_policy i)))) = Inr v) (ai_eligible i) vs"
    by (simp add: map_ok_Inr case_prod_beta)
  then obtain v where "asserted (ac_score (ar_components r (ap_component (ai_policy i)))) = Inr v"
    using list_all2_partner[OF _ map_of_SomeD[OF assms(2)]] by fastforce
  then show ?thesis
    using assms(2) by (auto simp: asserted_def asset_score_def chosen_component_def split: option.splits)
qed

lemma asset_rank_Inr:
  "asset_rank i a = Inr k \<Longrightarrow> map_of (ai_eligible i) a = Some r
    \<Longrightarrow> ac_rank (ar_components r (ap_component (ai_policy i))) = Some k"
  by (auto simp: asset_rank_def asserted_def chosen_component_def split: option.splits)

lemma old_entered:
  assumes "comparable_allocation response policy previous" "previous = Some p" "fits p" "s \<in> set (sa_slots p)"
  shows "entered_at (input_of response policy previous) (sl_asset_id s) = sl_entered_at s"
    and "sl_asset_id s \<in> fst ` set (ai_old (input_of response policy previous))"
proof -
  have "map_of (rev (map (\<lambda>s. (sl_asset_id s, s)) (sa_slots p))) (sl_asset_id s) = Some s"
    by (rule map_of_is_SomeI) (use assms(3,4) in \<open>auto simp: fits_def rev_map[symmetric] o_def\<close>)
  then have m: "map_of (ai_old (input_of response policy previous)) (sl_asset_id s) = Some s"
    using assms(1,2) by (simp add: input_of_def old_slots_def map_of_py_dict)
  then show "entered_at (input_of response policy previous) (sl_asset_id s) = sl_entered_at s"
    by (simp add: entered_at_def)
  show "sl_asset_id s \<in> fst ` set (ai_old (input_of response policy previous))"
    using map_of_SomeD[OF m] by force
qed

text \<open>
  C5. Every allocation that is made from a previous one with at most \<open>k\<close> distinct slots has at most \<open>k\<close>
  distinct slots itself, so this holds along any chain of allocations.  Each slot belongs to an eligible row of
  the response and carries that row's score and rank.  Outside the top-k policy a slot of a comparable
  allocation that is younger than the minimum hold is never evicted while its asset is eligible: it is in the
  new allocation with its entry time.
\<close>

theorem allocation_keeps_held_slots:
  assumes "check_policy policy = Inr ()" and "\<forall>p. previous = Some p \<longrightarrow> fits p"
    and "allocate_shadow_hotset response policy previous manual = Inr alloc"
  shows "fits alloc
    \<and> (\<forall>s\<in>set (sa_slots alloc). \<exists>r\<in>set (rp_rows response).
         ar_asset_id r = sl_asset_id s \<and> row_eligible response policy r
         \<and> ac_score (ar_components r (ap_component policy)) = Some (sl_score s)
         \<and> ac_rank (ar_components r (ap_component policy)) = Some (sl_rank s))
    \<and> (\<forall>p s r. previous = Some p \<and> comparable_allocation response policy previous \<and> ap_kind policy \<noteq> TopK
         \<and> s \<in> set (sa_slots p)
         \<and> rp_decision_at response - sl_entered_at s < ap_minimum_hold_minutes policy * attention_minute
         \<and> r \<in> set (rp_rows response) \<and> ar_asset_id r = sl_asset_id s \<and> row_eligible response policy r
         \<longrightarrow> (\<exists>s'\<in>set (sa_slots alloc). sl_asset_id s' = sl_asset_id s \<and> sl_entered_at s' = sl_entered_at s))"
proof -
  define i where "i = input_of response policy previous"
  have ok: "input_ok i" unfolding i_def by (rule input_of_ok[OF assms(1,2)])
  obtain ordered chosen where h: "ordered_assets i = Inr ordered"
    "choose_assets i (comparable_allocation response policy previous) ordered = Inr chosen"
    "map_ok (make_slot i) (sort_key (best_first i) chosen) = Inr (sa_slots alloc)"
    "report_allocation response policy previous manual (sa_slots alloc) = Inr alloc"
    using allocateE[OF assms(3)] unfolding i_def by metis
  note keep = choose_assets_keep[OF ok h(1,2)]
  note slots = slots_of_chosen[OF h(3)]
  have pol: "sa_policy alloc = policy" "ai_policy i = policy" "ai_decision_at i = rp_decision_at response"
    using report_fields(2)[OF h(4)] by (simp_all add: i_def input_of_def)
  have "0 < ap_k policy" using assms(1) by (auto simp: check_policy_def field_error_def split: if_splits)
  then have fit: "fits alloc"
    using keep(1) slots(1) arg_cong[OF slots(1), of length, unfolded length_map length_sort]
    by (simp add: fits_def pol slots_ok_def k_of_def le_nat_iff)
  have rows: "\<exists>r\<in>set (rp_rows response). ar_asset_id r = sl_asset_id s \<and> row_eligible response policy r
         \<and> ac_score (ar_components r (ap_component policy)) = Some (sl_score s)
         \<and> ac_rank (ar_components r (ap_component policy)) = Some (sl_rank s)" if s: "s \<in> set (sa_slots alloc)" for s
  proof -
    note made = make_slot_Inr[OF bspec[OF slots(2) s]]
    have "sl_asset_id s \<in> set chosen" using s arg_cong[OF slots(1), of set] by auto
    then have "is_eligible i (sl_asset_id s)" using keep(1) by (simp add: slots_ok_def)
    then obtain r where r: "map_of (ai_eligible i) (sl_asset_id s) = Some r"
      unfolding is_eligible_def by (metis map_of_eq_None_iff not_None_eq)
    then have "map_of (eligible_assets response policy) (sl_asset_id s) = Some r" by (simp add: i_def input_of_def)
    from eligible_row[OF this] show ?thesis
      using ordered_scores[OF h(1) r] asset_rank_Inr[OF made(4) r] made(3) by (auto simp: pol)
  qed
  have kept: "\<exists>s'\<in>set (sa_slots alloc). sl_asset_id s' = sl_asset_id s \<and> sl_entered_at s' = sl_entered_at s"
    if c: "previous = Some p" "comparable_allocation response policy previous" "ap_kind policy \<noteq> TopK" "s \<in> set (sa_slots p)"
      "rp_decision_at response - sl_entered_at s < ap_minimum_hold_minutes policy * attention_minute"
      "r \<in> set (rp_rows response)" "ar_asset_id r = sl_asset_id s" "row_eligible response policy r" for p s r
  proof -
    have "fits p" using assms(2) c(1) by blast
    note old = old_entered[OF c(2,1) this c(4), folded i_def]
    have "held i (sl_asset_id s)" using old c(5) by (simp add: held_def pol)
    moreover have "is_eligible i (sl_asset_id s)" unfolding i_def is_eligible_iff using c(6-8) by blast
    ultimately have "sl_asset_id s \<in> set chosen" using keep(2) c(2,3) by (simp add: pol keeps_held_def)
    then have "sl_asset_id s \<in> sl_asset_id ` set (sa_slots alloc)" using arg_cong[OF slots(1), of set] by auto
    then obtain s' where s': "s' \<in> set (sa_slots alloc)" "sl_asset_id s' = sl_asset_id s" by force
    then show ?thesis using make_slot_Inr(2)[OF bspec[OF slots(2) s'(1)]] old(1) by auto
  qed
  show ?thesis using fit rows kept by blast
qed

definition old_assets :: "attention_response \<Rightarrow> allocation_policy \<Rightarrow> shadow_allocation option \<Rightarrow> string set" where
  "old_assets response policy previous =
     (case previous of
        Some p \<Rightarrow> if comparable_allocation response policy previous then sl_asset_id ` set (sa_slots p) else {}
      | None \<Rightarrow> {})"

lemma old_assets_keys: "fst ` set (old_slots response policy previous) = old_assets response policy previous"
  by (simp add: old_slots_def old_assets_def keys_py_dict image_image split: option.splits)

text \<open>The order of two scored assets: falling score, ties by asset id.\<close>

definition better :: "pyfloat \<Rightarrow> string \<Rightarrow> pyfloat \<Rightarrow> string \<Rightarrow> bool" where
  "better v a w b \<longleftrightarrow> fval w < fval v \<or> fval w = fval v \<and> a < b"

lemma best_first_less: "best_first i a < best_first i b \<longleftrightarrow> better (asset_score i a) a (asset_score i b) b"
  by (auto simp: best_first_def better_def less_prod_def)

lemma top_k_best:
  assumes "ordered_assets i = Inr ordered" "distinct (map fst (ai_eligible i))"
    "a \<in> set (take k ordered)" "is_eligible i b" "b \<notin> set (take k ordered)"
  shows "better (asset_score i a) a (asset_score i b) b"
proof -
  note o = ordered_assets_Inr[OF assms(1,2)]
  have "b \<in> set (drop k ordered)"
    using o(2) assms(4,5) by (metis Un_iff append_take_drop_id mem_Collect_eq set_append)
  moreover have "sorted_wrt (\<lambda>a b. best_first i a < best_first i b) (take k ordered @ drop k ordered)" using o(3) by simp
  ultimately show ?thesis using assms(3) unfolding sorted_wrt_append best_first_less by blast
qed

lemma churn_float:
  assumes "churn_of policy True added removed = Inr c" "0 < ap_k policy"
  shows "c = f_round (of_nat (card (added \<union> removed)) / of_int (2 * ap_k policy))"
  using assms by (auto simp: churn_of_def)

text \<open>
  The report of an allocation is exact.  \<open>added\<close>, \<open>removed\<close> and \<open>retained\<close> are the
  sorted differences and the intersection of the new assets with those of a comparable previous allocation; a
  retained slot keeps its entry time and an added one enters now; the slots are listed best first; the churn of a
  comparable allocation is the number of changed assets over \<open>2 k\<close>, rounded, and at most 1; the
  manual selection is passed through.  Under the top-k policy, or without a comparable allocation, the slots are
  the \<open>k\<close> best eligible rows: as many as there are up to \<open>k\<close>, each better than every
  eligible row left out.
\<close>

theorem allocation_reports_changes:
  assumes "check_policy policy = Inr ()" and "\<forall>p. previous = Some p \<longrightarrow> fits p"
    and "allocate_shadow_hotset response policy previous manual = Inr alloc"
  defines "now \<equiv> sl_asset_id ` set (sa_slots alloc)" and "old \<equiv> old_assets response policy previous"
  shows "sa_added alloc = sorted_list_of_set (now - old) \<and> sa_removed alloc = sorted_list_of_set (old - now)
    \<and> sa_retained alloc = sorted_list_of_set (old \<inter> now)
    \<and> (\<forall>s\<in>set (sa_slots alloc). (sl_asset_id s \<notin> old \<longrightarrow> sl_entered_at s = rp_decision_at response)
         \<and> (\<forall>p. previous = Some p \<and> sa_comparable alloc \<longrightarrow>
              (\<forall>s'\<in>set (sa_slots p). sl_asset_id s' = sl_asset_id s \<longrightarrow> sl_entered_at s = sl_entered_at s')))
    \<and> sorted_wrt (\<lambda>s t. better (sl_score s) (sl_asset_id s) (sl_score t) (sl_asset_id t)) (sa_slots alloc)
    \<and> between 0 1 (sa_churn alloc)
    \<and> (sa_comparable alloc \<longrightarrow> sa_churn alloc
         = f_round (of_nat (length (sa_added alloc) + length (sa_removed alloc)) / of_int (2 * ap_k policy)))
    \<and> sa_manual_selection_id alloc = manual
    \<and> (ap_kind policy = TopK \<or> \<not> sa_comparable alloc \<longrightarrow>
         length (sa_slots alloc)
           = min (nat (ap_k policy)) (card {ar_asset_id r |r. r \<in> set (rp_rows response) \<and> row_eligible response policy r})
         \<and> (\<forall>s\<in>set (sa_slots alloc). \<forall>r\<in>set (rp_rows response).
              row_eligible response policy r \<and> ar_asset_id r \<notin> now
              \<longrightarrow> better (sl_score s) (sl_asset_id s)
                    (asset_score (input_of response policy previous) (ar_asset_id r)) (ar_asset_id r)))"
proof -
  define i where "i = input_of response policy previous"
  have ok: "input_ok i" unfolding i_def by (rule input_of_ok[OF assms(1,2)])
  then have dist: "distinct (map fst (ai_eligible i))" by (simp add: input_ok_def)
  obtain ordered chosen where h: "ordered_assets i = Inr ordered"
    "choose_assets i (comparable_allocation response policy previous) ordered = Inr chosen"
    "map_ok (make_slot i) (sort_key (best_first i) chosen) = Inr (sa_slots alloc)"
    "report_allocation response policy previous manual (sa_slots alloc) = Inr alloc"
    using allocateE[OF assms(3)] unfolding i_def by metis
  note slots = slots_of_chosen[OF h(3)]
  note fields = report_fields[OF h(4), unfolded set_map old_assets_keys, folded now_def old_def]
  have k: "0 < ap_k policy" using assms(1) by (auto simp: check_policy_def field_error_def split: if_splits)
  have now: "now = set chosen" unfolding now_def using arg_cong[OF slots(1), of set] by simp
  have keep: "distinct chosen" using choose_assets_keep(1)[OF ok h(1,2)] by (simp add: slots_ok_def)
  have fin: "finite old" by (simp add: old_def old_assets_keys[symmetric])
  have entered: "sl_entered_at s = entered_at i (sl_asset_id s)" "sl_score s = asset_score i (sl_asset_id s)"
    if "s \<in> set (sa_slots alloc)" for s
    using make_slot_Inr(2,3)[OF bspec[OF slots(2) that]] by simp_all
  have new: "entered_at i a = rp_decision_at response" if "a \<notin> old" for a
  proof -
    have "map_of (ai_old i) a = None"
      using that by (simp only: map_of_eq_None_iff) (simp add: i_def input_of_def old_def old_assets_keys)
    then show ?thesis by (simp add: entered_at_def i_def input_of_def)
  qed
  have retained: "entered_at i (sl_asset_id s') = sl_entered_at s'"
    if "previous = Some p" "sa_comparable alloc" "s' \<in> set (sa_slots p)" for p s'
    using old_entered(1)[OF _ that(1) _ that(3)] assms(2) that fields(7) by (simp add: i_def)
  have "sorted_wrt (<) (map (best_first i) (sort_key (best_first i) chosen))"
    by (rule sorted_key_strict) (use keep in \<open>simp add: distinct_map inj_on_def best_first_def\<close>)
  then have "sorted_wrt (\<lambda>s t. best_first i (sl_asset_id s) < best_first i (sl_asset_id t)) (sa_slots alloc)"
    unfolding slots(1)[symmetric] by (simp add: sorted_wrt_map)
  then have sorted: "sorted_wrt (\<lambda>s t. better (sl_score s) (sl_asset_id s) (sl_score t) (sl_asset_id t)) (sa_slots alloc)"
    by (rule sorted_wrt_mono_rel[rotated]) (simp add: best_first_less entered(2))
  have churn: "sa_churn alloc = f_round (of_nat (length (sa_added alloc) + length (sa_removed alloc)) / of_int (2 * ap_k policy))"
    if "sa_comparable alloc"
  proof -
    have "card ((now - old) \<union> (old - now)) = length (sa_added alloc) + length (sa_removed alloc)"
      using fin now by (subst card_Un_disjoint) (auto simp: fields(4,5))
    then show ?thesis using churn_float[of policy "now - old" "old - now" "sa_churn alloc"] k fields(11) that by simp
  qed
  have best: "length (sa_slots alloc)
           = min (nat (ap_k policy)) (card {ar_asset_id r |r. r \<in> set (rp_rows response) \<and> row_eligible response policy r})
         \<and> (\<forall>s\<in>set (sa_slots alloc). \<forall>r\<in>set (rp_rows response).
              row_eligible response policy r \<and> ar_asset_id r \<notin> now
              \<longrightarrow> better (sl_score s) (sl_asset_id s) (asset_score i (ar_asset_id r)) (ar_asset_id r))"
    if "ap_kind policy = TopK \<or> \<not> sa_comparable alloc"
  proof -
    have c: "chosen = take (k_of i) ordered"
      using h(2) that fields(7) by (auto simp: choose_assets_def i_def input_of_def)
    have o: "distinct ordered" "set ordered = {ar_asset_id r |r. r \<in> set (rp_rows response) \<and> row_eligible response policy r}"
      using ordered_assets_Inr(1,2)[OF h(1) dist] by (auto simp: i_def is_eligible_iff)
    have "length (sa_slots alloc) = length chosen" using arg_cong[OF slots(1), of length] by simp
    also have "\<dots> = min (nat (ap_k policy)) (length ordered)" by (simp add: c k_of_def i_def input_of_def min.commute)
    also have "length ordered = card {ar_asset_id r |r. r \<in> set (rp_rows response) \<and> row_eligible response policy r}"
      using distinct_card[OF o(1)] o(2) by simp
    finally have len: "length (sa_slots alloc)
        = min (nat (ap_k policy)) (card {ar_asset_id r |r. r \<in> set (rp_rows response) \<and> row_eligible response policy r})" .
    have "better (asset_score i a) a (asset_score i (ar_asset_id r)) (ar_asset_id r)"
      if "a \<in> now" "r \<in> set (rp_rows response)" "row_eligible response policy r" "ar_asset_id r \<notin> now" for a r
      by (rule top_k_best[OF h(1) dist, where k = "k_of i"])
        (use that now c in \<open>auto simp: i_def is_eligible_iff\<close>)
    then show ?thesis using len entered(2) by (auto simp: now_def)
  qed
  have times: "(sl_asset_id s \<notin> old \<longrightarrow> sl_entered_at s = rp_decision_at response)
         \<and> (\<forall>p. previous = Some p \<and> sa_comparable alloc \<longrightarrow>
              (\<forall>s'\<in>set (sa_slots p). sl_asset_id s' = sl_asset_id s \<longrightarrow> sl_entered_at s = sl_entered_at s'))"
    if "s \<in> set (sa_slots alloc)" for s
    using entered(1)[OF that] new retained by metis
  have "between 0 1 (sa_churn alloc)"
    using fields(10) by (auto simp: check_allocation_def field_error_def split: if_splits)
  then show ?thesis
    using fields(4-6,9) times sorted churn best unfolding i_def by (intro conjI) blast+
qed

section \<open>A held slot in a concrete allocation\<close>

definition sample_component :: "rat \<Rightarrow> int \<Rightarrow> attention_component" where
  "sample_component v k =
     \<lparr>ac_policy_version = ''p'', ac_status = CompReady, ac_score = Some (FFin v), ac_raw_value = Some (FFin v),
      ac_rank = Some k, ac_rank_change = None, ac_direction = DirUnknown, ac_reason = None, ac_inputs = [],
      ac_peer_count = 2\<rparr>"

definition sample_attention_row :: "string \<Rightarrow> rat \<Rightarrow> int \<Rightarrow> attention_row" where
  "sample_attention_row a v k =
     \<lparr>ar_asset_id = a, ar_asset = a, ar_reference_key = None, ar_originals = [],
      ar_components = (\<lambda>_. sample_component v k), ar_ready_count = 4, ar_coverage_ratio = FFin 1,
      ar_quality_reasons = [], ar_data_as_of = 60000, ar_identity_status = IdReady\<rparr>"

definition sample_response :: attention_response where
  "sample_response =
     \<lparr>rp_generation_id = ''g'', rp_decision_at = 120000, rp_status = AtReady, rp_reason = None,
      rp_policy_version = ''p'', rp_inputs = sample_generation_ref,
      rp_coverage = \<lparr>cv_rows = 2, cv_eligible = 2, cv_confluence_ready = 2, cv_component_ready = (\<lambda>_. 2)\<rparr>,
      rp_rows = [sample_attention_row ''a'' 90 1, sample_attention_row ''b'' 80 2], rp_allocations = []\<rparr>"

definition sample_policy :: allocation_policy where
  "sample_policy =
     \<lparr>ap_id = ''hold'', ap_kind = Hysteresis, ap_component = Confluence, ap_k = 1, ap_buffer = 0,
      ap_minimum_hold_minutes = 5, ap_switch_penalty = FFin 0, ap_warm_up_cost = FFin 0\<rparr>"

definition sample_previous :: shadow_allocation where
  "sample_previous =
     \<lparr>sa_generation_id = ''f'', sa_decision_at = 60000, sa_map_version = ''m'', sa_policy = sample_policy,
      sa_score_policy_version = ''p'', sa_manual_selection_id = None, sa_comparable = False, sa_reason = None,
      sa_slots = [\<lparr>sl_asset_id = ''b'', sl_group_ids = [], sl_entered_at = 60000, sl_score = FFin 85, sl_rank = 1\<rparr>],
      sa_added = [''b''], sa_removed = [], sa_retained = [], sa_added_groups = [], sa_removed_groups = [],
      sa_churn = FFin 0, sa_switch_cost = FFin 0\<rparr>"

lemma sample_fits: "check_policy sample_policy = Inr ()" "\<forall>p. Some sample_previous = Some p \<longrightarrow> fits p"
  by (simp_all add: check_policy_def sample_policy_def at_least_def fits_def sample_previous_def)

definition sample_slot :: shadow_slot where
  "sample_slot = \<lparr>sl_asset_id = ''b'', sl_group_ids = [], sl_entered_at = 60000, sl_score = FFin 80, sl_rank = 2\<rparr>"

lemma sample_choice:
  "comparable_allocation sample_response sample_policy (Some sample_previous)"
  "map_ok (make_slot (input_of sample_response sample_policy (Some sample_previous))) [''b''] = Inr [sample_slot]"
  "choose_assets (input_of sample_response sample_policy (Some sample_previous)) True [''a'', ''b''] = Inr [''b'']"
  "ordered_assets (input_of sample_response sample_policy (Some sample_previous)) = Inr [''a'', ''b'']"
  "old_groups (old_slots sample_response sample_policy (Some sample_previous)) = [(''b'', {})]"
  "slot_groups [sample_slot] = [(''b'', {})]"
  by code_simp+

lemma sample_zero [simp]: "f_round 0 = FFin 0"
  by (simp add: f_round_def f_exact_def f_limit_def)

lemma sample_report: "\<exists>alloc. report_allocation sample_response sample_policy (Some sample_previous) None [sample_slot] = Inr alloc"
proof -
  have k: "ap_k sample_policy = 1" "ap_switch_penalty sample_policy = FFin 0" "ap_warm_up_cost sample_policy = FFin 0"
    by (simp_all add: sample_policy_def)
  have old: "fst ` set (old_slots sample_response sample_policy (Some sample_previous)) = {''b''}"
    unfolding old_assets_keys using sample_choice(1) by (simp add: old_assets_def) (simp add: sample_previous_def)
  have now: "sl_asset_id sample_slot = ''b''" by (simp add: sample_slot_def)
  show ?thesis
    by (simp add: report_allocation_def Let_def sample_choice(1,5,6) old now churn_of_def k transition_cost_def build_def
        check_allocation_def between_def at_least_def)
qed

lemma sample_allocated:
  obtains alloc where "allocate_shadow_hotset sample_response sample_policy (Some sample_previous) None = Inr alloc"
    "map sl_asset_id (sa_slots alloc) = [''b'']"
proof -
  obtain alloc where r: "report_allocation sample_response sample_policy (Some sample_previous) None [sample_slot] = Inr alloc"
    using sample_report by blast
  have one: "sort_key g [''b''] = [''b'']" for g :: "string \<Rightarrow> rat \<times> string" by simp
  have "allocate_shadow_hotset sample_response sample_policy (Some sample_previous) None = Inr alloc"
    by (simp only: allocate_shadow_hotset_def Let_def sample_choice and_then_simps one r)
  moreover have "map sl_asset_id (sa_slots alloc) = [''b'']"
    unfolding report_fields(1)[OF r] by (simp add: sample_slot_def)
  ultimately show ?thesis by (rule that)
qed

theorem allocation_keeps_held_slots_witness:
  "\<exists>alloc. allocate_shadow_hotset sample_response sample_policy (Some sample_previous) None = Inr alloc
    \<and> fits alloc \<and> (\<exists>s\<in>set (sa_slots alloc). sl_asset_id s = ''b'' \<and> sl_entered_at s = 60000)"
proof -
  obtain alloc where a: "allocate_shadow_hotset sample_response sample_policy (Some sample_previous) None = Inr alloc"
    by (rule sample_allocated)
  let ?r = "sample_attention_row ''b'' 80 2" and ?s = "hd (sa_slots sample_previous)"
  have c: "comparable_allocation sample_response sample_policy (Some sample_previous)"
    by (simp add: comparable_allocation_def sample_previous_def sample_response_def sample_generation_ref_def)
  have r: "?r \<in> set (rp_rows sample_response)" "row_eligible sample_response sample_policy ?r"
    by (simp_all add: sample_response_def row_eligible_def component_ready_def sample_attention_row_def sample_component_def)
  have s: "?s \<in> set (sa_slots sample_previous)" "ap_kind sample_policy \<noteq> TopK" "ar_asset_id ?r = sl_asset_id ?s"
    "rp_decision_at sample_response - sl_entered_at ?s < ap_minimum_hold_minutes sample_policy * attention_minute"
    "sl_asset_id ?s = ''b''" "sl_entered_at ?s = 60000"
    by (simp_all add: sample_previous_def sample_policy_def sample_attention_row_def sample_response_def attention_minute_def)
  show ?thesis
    using allocation_keeps_held_slots[OF sample_fits a] a c r s(1-4) unfolding s(5,6)[symmetric] by blast
qed

theorem allocation_reports_changes_witness:
  "\<exists>alloc. allocate_shadow_hotset sample_response sample_policy (Some sample_previous) None = Inr alloc
    \<and> sa_retained alloc = [''b''] \<and> sa_manual_selection_id alloc = None"
proof -
  obtain alloc where a: "allocate_shadow_hotset sample_response sample_policy (Some sample_previous) None = Inr alloc"
    "map sl_asset_id (sa_slots alloc) = [''b'']"
    by (rule sample_allocated)
  have c: "comparable_allocation sample_response sample_policy (Some sample_previous)"
    by (simp add: comparable_allocation_def sample_previous_def sample_response_def sample_generation_ref_def)
  have old: "old_assets sample_response sample_policy (Some sample_previous) = {''b''}"
    using c by (simp add: old_assets_def) (simp add: sample_previous_def)
  have now: "sl_asset_id ` set (sa_slots alloc) = {''b''}" using arg_cong[OF a(2), of set] by simp
  show ?thesis
    using allocation_reports_changes[OF sample_fits a(1)] a(1) unfolding old now by auto
qed

end
