(* ===== verification/Cycle_Scheduler.thy ===== *)
theory Cycle_Scheduler
  imports Market_Models
begin

text \<open>
  The fixed-grid cycle scheduler of the market collector (\<open>scheduler.py\<close>) and the error codes of its
  sources (\<open>sources/common.py\<close>).  What the event loop decides is an argument: how each fetch task ends
  under its timeout, the readings of the two clocks, when the stop event is set, and how persistence ends.  The
  runs line of a cycle is not modelled.  The catch-up loop is a \<open>partial_function\<close>: that it ends is a theorem.
\<close>

section \<open>Grid instants\<close>

definition require_aware :: "pydt \<Rightarrow> string \<Rightarrow> unit result" where
  "require_aware t field =
     (if is_aware t then Inr () else raise_exn ValueError (field @ '' must be timezone-aware''))"

text \<open>\<open>int(value.timestamp())\<close>: the seconds as a float, truncated towards zero.\<close>

definition epoch_seconds :: "int \<Rightarrow> int" where
  "epoch_seconds t =
     (let x = fval (f_round (of_int t / 1000000)) in if 0 \<le> x then \<lfloor>x\<rfloor> else \<lceil>x\<rceil>)"

definition microsecond :: "pydt \<Rightarrow> int" where
  "microsecond t = (case t of Naive n \<Rightarrow> n mod second_us | Aware n off \<Rightarrow> (n + off) mod second_us)"

definition next_grid_at :: "pydt \<Rightarrow> int \<Rightarrow> pydt result" where
  "next_grid_at t interval =
     and_then (require_aware t ''value'') (\<lambda>_.
       if interval \<le> 0 then raise_exn ValueError ''interval_seconds must be positive''
       else let remainder = epoch_seconds (instant t) mod interval
            in if remainder = 0 \<and> microsecond t = 0 then Inr t
               else Inr (Aware (instant t - microsecond t + (interval - remainder) * second_us) (utc_offset t)))"

section \<open>Source errors\<close>

text \<open>What \<open>safe_source_error_code\<close> asks of an exception.\<close>

record source_error =
  se_catalog_code :: "string option"
  se_timeout :: bool
  se_status :: "int option"
  se_value_error :: bool

definition safe_codes :: "string list" where
  "safe_codes =
     [''bitget_business_429'', ''bitget_business_error'', ''fetch_timeout'', ''http_429'',
      ''invalid_source_payload'', ''source_unavailable'']"

definition catalog_source_error :: "string \<Rightarrow> source_error" where
  "catalog_source_error code =
     \<lparr>se_catalog_code = Some (if code \<in> set safe_codes then code else ''source_unavailable''),
      se_timeout = False, se_status = None, se_value_error = False\<rparr>"

definition safe_source_error_code :: "source_error \<Rightarrow> string" where
  "safe_source_error_code e =
     (case se_catalog_code e of
        Some code \<Rightarrow> code
      | None \<Rightarrow> if se_timeout e then ''fetch_timeout''
                else if se_status e = Some 429 then ''http_429''
                else if se_value_error e then ''invalid_source_payload''
                else ''source_unavailable'')"

section \<open>Batches and ISO timestamps\<close>

record 'o market_batch =
  mb_venue :: venue
  mb_cycle_at :: pydt
  mb_observed_at :: pydt
  mb_endpoint :: string
  mb_payload_hash :: string
  mb_observations :: "'o list"
  mb_raw_payload :: json

definition pad :: "nat \<Rightarrow> int \<Rightarrow> string" where
  "pad n k = (let s = int_text k in replicate (n - length s) CHR ''0'' @ s)"

definition civil_of_days :: "int \<Rightarrow> int \<times> int \<times> int" where
  "civil_of_days days =
     (let z = days + 719468; era = z div 146097; doe = z - era * 146097;
          yoe = (doe - doe div 1460 + doe div 36524 - doe div 146096) div 365;
          doy = doe - (365 * yoe + yoe div 4 - yoe div 100);
          mp = (5 * doy + 2) div 153;
          m = (if mp < 10 then mp + 3 else mp - 9)
      in (yoe + era * 400 + (if m \<le> 2 then 1 else 0), m, doy - (153 * mp + 2) div 5 + 1))"

definition clock_text :: "int \<Rightarrow> string" where
  "clock_text us =
     (let s = us div second_us
      in pad 2 (s div 3600) @ '':'' @ pad 2 (s div 60 mod 60) @ '':'' @ pad 2 (s mod 60)
         @ (if us mod second_us = 0 then [] else ''.'' @ pad 6 (us mod second_us)))"

definition offset_text :: "int \<Rightarrow> string" where
  "offset_text off =
     (let a = \<bar>off\<bar>
      in (if off < 0 then ''-'' else ''+'') @
         (if a mod minute_us = 0 then take 5 (clock_text a) else clock_text a))"

definition isoformat :: "pydt \<Rightarrow> string" where
  "isoformat t =
     (let local = (case t of Naive n \<Rightarrow> n | Aware n off \<Rightarrow> n + off); (y, m, d) = civil_of_days (local div day_us)
      in pad 4 y @ ''-'' @ pad 2 m @ ''-'' @ pad 2 d @ ''T'' @ clock_text (local mod day_us)
         @ (case t of Naive _ \<Rightarrow> [] | Aware _ off \<Rightarrow> offset_text off))"

definition unavailable_batch ::
    "(json \<Rightarrow> string) \<Rightarrow> venue \<Rightarrow> string \<Rightarrow> pydt \<Rightarrow> pydt \<Rightarrow> string \<Rightarrow> 'o market_batch result" where
  "unavailable_batch sha v endpoint cycle_at observed_at error_code =
     (let payload = JObj [(''cycleAt'', JStr (isoformat cycle_at)), (''errorCode'', JStr error_code), (''venue'', JStr (venue_text v))]
      in and_then (canonical_json_sha256 sha payload) (\<lambda>h.
           Inr \<lparr>mb_venue = v, mb_cycle_at = cycle_at, mb_observed_at = observed_at, mb_endpoint = endpoint,
                mb_payload_hash = h, mb_observations = [], mb_raw_payload = payload\<rparr>))"

section \<open>One cycle\<close>

datatype cycle_status = Succeeded | CyclePartial | CycleFailed | Skipped

record market_store_result =
  ms_run_id :: string
  ms_status :: cycle_status
  ms_received :: int
  ms_written :: int
  ms_raw_payloads :: int
  ms_unknown_rows :: int
  ms_commit_seconds :: pyfloat

record cycle_run =
  cr_cycle_at :: pydt
  cr_status :: cycle_status
  cr_store_result :: "market_store_result option"
  cr_error_codes :: "string list"

record scheduler =
  sc_fetchers :: "(venue \<times> string) list"
  sc_interval :: int
  sc_deadline :: pyfloat

definition fetch_deadline :: pyfloat where "fetch_deadline = FFin 20"

definition make_scheduler :: "(venue \<times> string) list \<Rightarrow> int \<Rightarrow> pyfloat \<Rightarrow> scheduler result" where
  "make_scheduler fetchers interval deadline =
     (if fetchers = [] \<or> length (remdups (map fst fetchers)) \<noteq> length fetchers
         \<or> \<not> set (map fst fetchers) \<subseteq> {Bitget, Hyperliquid, Aster, Mexc}
      then raise_exn ValueError ''L1 scheduler requires exactly one fetcher for each supported Venue''
      else if interval \<le> 0 then raise_exn ValueError ''interval_seconds must be positive''
      else if \<not> (f_less (FFin 0) deadline \<and> f_less deadline (FFin (of_int interval)))
      then raise_exn ValueError ''deadline_seconds must be positive and below the interval''
      else Inr \<lparr>sc_fetchers = fetchers, sc_interval = interval, sc_deadline = deadline\<rparr>)"

text \<open>How a fetch task ends: cancelled at its timeout, with a batch, or with an exception.\<close>

datatype 'o task_outcome = TaskCancelled | TaskBatch "'o market_batch" | TaskRaised source_error

datatype persist_outcome = Persisted market_store_result | PersistTimeout | PersistRaised exn

record 'o cycle_env =
  ce_locked :: bool
  ce_locked_at :: pyfloat
  ce_waiting_at :: pyfloat
  ce_fetched_at :: pyfloat
  ce_started_at :: pydt
  ce_observed_at :: "venue \<Rightarrow> pydt"
  ce_fetch :: "pyfloat \<Rightarrow> venue \<Rightarrow> 'o task_outcome"
  ce_persist :: "pyfloat \<Rightarrow> pydt \<Rightarrow> pydt \<Rightarrow> 'o market_batch list \<Rightarrow> persist_outcome"

definition f_max :: "pyfloat \<Rightarrow> pyfloat \<Rightarrow> pyfloat" where
  "f_max a b = (if f_less a b then b else a)"

definition f_min :: "pyfloat \<Rightarrow> pyfloat \<Rightarrow> pyfloat" where
  "f_min a b = (if f_less b a then b else a)"

definition deadline_at :: "scheduler \<Rightarrow> 'o cycle_env \<Rightarrow> pyfloat" where
  "deadline_at s e = f_add (ce_locked_at e) (sc_deadline s)"

definition fetch_timeout :: "scheduler \<Rightarrow> 'o cycle_env \<Rightarrow> pyfloat" where
  "fetch_timeout s e = f_min fetch_deadline (f_max (FFin 0) (f_sub (deadline_at s e) (ce_waiting_at e)))"

text \<open>Equality of datetimes: aware ones by instant, an aware and a naive one are never equal.\<close>

fun same_time :: "pydt \<Rightarrow> pydt \<Rightarrow> bool" where
  "same_time (Aware a _) (Aware b _) = (a = b)"
| "same_time (Naive a) (Naive b) = (a = b)"
| "same_time _ _ = False"

definition batch_or_error :: "venue \<Rightarrow> pydt \<Rightarrow> 'o task_outcome \<Rightarrow> string + 'o market_batch" where
  "batch_or_error v cycle_at outcome =
     (case outcome of
        TaskCancelled \<Rightarrow> Inl ''fetch_timeout''
      | TaskBatch b \<Rightarrow>
          if mb_venue b \<noteq> v \<or> \<not> same_time (mb_cycle_at b) cycle_at then Inl ''source_contract_mismatch'' else Inr b
      | TaskRaised err \<Rightarrow> Inl (safe_source_error_code err))"

fun collect_batches ::
    "(json \<Rightarrow> string) \<Rightarrow> 'o cycle_env \<Rightarrow> pydt \<Rightarrow> pyfloat \<Rightarrow> (venue \<times> string) list
      \<Rightarrow> ('o market_batch list \<times> string list) result" where
  "collect_batches sha e cycle_at timeout [] = Inr ([], [])"
| "collect_batches sha e cycle_at timeout ((v, endpoint) # fs) =
     (case batch_or_error v cycle_at (ce_fetch e timeout v) of
        Inr b \<Rightarrow> and_then (collect_batches sha e cycle_at timeout fs) (\<lambda>(bs, codes). Inr (b # bs, codes))
      | Inl code \<Rightarrow>
          and_then (unavailable_batch sha v endpoint cycle_at (ce_observed_at e v) code) (\<lambda>b.
          and_then (collect_batches sha e cycle_at timeout fs) (\<lambda>(bs, codes).
            Inr (b # bs, (venue_text v @ '':'' @ code) # codes))))"

definition failed_cycle :: "pydt \<Rightarrow> string list \<Rightarrow> cycle_run" where
  "failed_cycle cycle_at codes =
     \<lparr>cr_cycle_at = cycle_at, cr_status = CycleFailed, cr_store_result = None,
      cr_error_codes = codes @ [''persistence:cycle_deadline_exceeded'']\<rparr>"

definition run_cycle :: "(json \<Rightarrow> string) \<Rightarrow> scheduler \<Rightarrow> 'o cycle_env \<Rightarrow> pydt \<Rightarrow> cycle_run result" where
  "run_cycle sha s e cycle_at =
     and_then (require_aware cycle_at ''cycle_at'') (\<lambda>_.
       if ce_locked e
       then Inr \<lparr>cr_cycle_at = cycle_at, cr_status = Skipped, cr_store_result = None, cr_error_codes = []\<rparr>
       else and_then (collect_batches sha e cycle_at (fetch_timeout s e) (sc_fetchers s)) (\<lambda>(batches, codes).
         let remaining = f_sub (deadline_at s e) (ce_fetched_at e)
         in if f_le remaining (FFin 0) then Inr (failed_cycle cycle_at codes)
            else case ce_persist e remaining cycle_at (ce_started_at e) batches of
                   PersistTimeout \<Rightarrow> Inr (failed_cycle cycle_at codes)
                 | PersistRaised err \<Rightarrow> Inl err
                 | Persisted r \<Rightarrow> Inr \<lparr>cr_cycle_at = cycle_at, cr_status = ms_status r, cr_store_result = Some r,
                                      cr_error_codes = codes\<rparr>))"

section \<open>The loop\<close>

partial_function (option) catch_up :: "int \<Rightarrow> int \<Rightarrow> int \<Rightarrow> nat \<Rightarrow> (int \<times> nat) option" where
  "catch_up step now nxt skips =
     (if nxt \<le> now then catch_up step now (nxt + step) (skips + 1) else Some (nxt, skips))"

text \<open>
  One turn of \<open>run_forever\<close>: whether the stop event was set before and after the wait, the cycle, and the
  clock after it.  The loop returns its cycles, the next grid instant and the number of skipped ones; with no more
  turns to run it is where it stands.
\<close>

record 'o turn =
  tn_stopped :: bool
  tn_stopped_waiting :: bool
  tn_env :: "'o cycle_env"
  tn_now :: int

fun run_forever ::
    "(json \<Rightarrow> string) \<Rightarrow> scheduler \<Rightarrow> 'o turn list \<Rightarrow> int \<Rightarrow> nat \<Rightarrow> (cycle_run list \<times> int \<times> nat) result option" where
  "run_forever sha s [] nxt skips = Some (Inr ([], nxt, skips))"
| "run_forever sha s (t # ts) nxt skips =
     (if tn_stopped t \<or> tn_stopped_waiting t then Some (Inr ([], nxt, skips))
      else case run_cycle sha s (tn_env t) (utc nxt) of
             Inl err \<Rightarrow> Some (Inl err)
           | Inr r \<Rightarrow>
               (case catch_up (sc_interval s * second_us) (tn_now t) (nxt + sc_interval s * second_us) skips of
                  None \<Rightarrow> None
                | Some (nxt', skips') \<Rightarrow>
                    map_option (\<lambda>rest. and_then rest (\<lambda>(rs, n, k). Inr (r # rs, n, k)))
                      (run_forever sha s ts nxt' skips')))"

section \<open>The next grid instant\<close>

lemma epoch_seconds_floor:
  assumes "0 \<le> t" "t < 2 ^ 33 * 1000000"
  shows "epoch_seconds t = t div 1000000"
proof -
  define n where "n = t div 1000000"
  have t: "1000000 * n \<le> t" "t + 1 \<le> 1000000 * (n + 1)" "0 \<le> n" "n + 1 \<le> 2 ^ 33"
    using assms by (auto simp: n_def)
  let ?x = "of_int t / 1000000 :: rat" and ?b = "of_int ((n + 1) * 2 ^ 20 - 1) * power_int 2 (- 20) :: rat"
  have p: "power_int 2 (- 20) = (1 / 1048576 :: rat)" by (simp add: power_int_minus)
  have lo: "of_int n \<le> ?x" using t(1) by (simp add: pos_le_divide_eq flip: of_int_mult)
  have "of_int (t + 1) \<le> (of_int (1000000 * (n + 1)) :: rat)" using t(2) by (simp only: of_int_le_iff)
  then have hi: "?x \<le> ?b" unfolding p by (simp add: field_simps)
  have rb: "representable ?b"
  proof (rule representable_grid[OF refl])
    show "\<bar>(n + 1) * 2 ^ 20 - 1\<bar> \<le> 2 ^ 53" using t(3,4) by simp
  qed simp
  have rn: "representable (of_int n)" using t(3,4) by (intro representable_int) simp
  have b1: "?b < of_int (n + 1)" unfolding p by simp
  have lim: "of_int (n + 1) \<le> (2 ^ 33 :: rat)" using t(4) by (metis of_int_le_iff of_int_numeral of_int_power)
  have b0: "of_int n \<le> ?b" using lo hi by linarith
  have small: "(2 ^ 33 :: rat) < f_limit" by (simp add: f_limit_def)
  have "(0::rat) \<le> of_int n" using t(3) by simp
  then have "\<bar>of_int n :: rat\<bar> < f_limit" "\<bar>?b\<bar> < f_limit" using b0 b1 lim small by linarith+
  then obtain y where y: "f_round ?x = FFin y" "of_int n \<le> y" "y \<le> ?b"
    using f_round_finite_bounds[OF rn rb lo hi] by blast
  have "\<lfloor>y\<rfloor> = n" using y(2,3) b1 by (intro floor_unique) simp_all
  moreover have "0 \<le> y" using y(2) \<open>0 \<le> of_int n\<close> by linarith
  ultimately show ?thesis using y(1) by (simp add: epoch_seconds_def n_def)
qed

lemma next_grid_utc:
  assumes "0 \<le> t" "t < 2 ^ 33 * 1000000" "0 < interval"
  shows "\<exists>g. next_grid_at (utc t) interval = Inr (utc g)
    \<and> g mod (interval * second_us) = 0 \<and> t \<le> g \<and> g < t + interval * second_us"
proof -
  define q r where "q = t div 1000000" and "r = t mod 1000000"
  define a b where "a = q div interval" and "b = q mod interval"
  have t: "t = q * 1000000 + r" "0 \<le> r" "r < 1000000" by (simp_all add: q_def r_def)
  have q: "q = a * interval + b" "0 \<le> b" "b < interval" using assms(3) by (simp_all add: a_def b_def)
  have e: "epoch_seconds t = q" using epoch_seconds_floor[OF assms(1,2)] by (simp add: q_def)
  have m: "microsecond (utc t) = r" by (simp add: microsecond_def r_def second_us_def)
  show ?thesis
  proof (cases "b = 0 \<and> r = 0")
    case True
    then have "t = a * (interval * second_us)" using t q by (simp add: second_us_def)
    moreover have "next_grid_at (utc t) interval = Inr (utc t)"
      using True assms(3) by (simp add: next_grid_at_def require_aware_def e m b_def[symmetric])
    ultimately show ?thesis using assms(3) by (intro exI[of _ t]) (simp add: second_us_def)
  next
    case False
    let ?g = "(a + 1) * (interval * second_us)"
    have "t - r + (interval - b) * second_us = ?g" using t q by (simp add: second_us_def algebra_simps)
    then have g: "next_grid_at (utc t) interval = Inr (utc ?g)"
      using False assms(3) by (auto simp: next_grid_at_def require_aware_def e m Let_def b_def[symmetric])
    have "?g - t = (interval - b) * 1000000 - r" using t q by (simp add: second_us_def algebra_simps)
    moreover have "1000000 \<le> (interval - b) * 1000000" using q(3) by simp
    moreover have "b \<noteq> 0 \<or> 0 < r" using False t(2) by linarith
    ultimately have "t \<le> ?g" "?g < t + interval * second_us"
      using t(2,3) q(2) by (auto simp: second_us_def algebra_simps)
    then show ?thesis using g by (intro exI[of _ ?g]) simp
  qed
qed

section \<open>The loop ends and covers the grid\<close>

lemma catch_up_ends:
  assumes "0 < step"
  shows "\<exists>n. catch_up step now nxt skips = Some (nxt + int n * step, skips + n)
    \<and> now < nxt + int n * step \<and> (n = 0 \<or> nxt + int (n - 1) * step \<le> now)"
proof (induction "nat (now + 1 - nxt)" arbitrary: nxt skips rule: less_induct)
  case less
  show ?case
  proof (cases "nxt \<le> now")
    case True
    then have "nat (now + 1 - (nxt + step)) < nat (now + 1 - nxt)" using assms by simp
    from less.hyps[OF this, of "skips + 1"] obtain n where
      n: "catch_up step now (nxt + step) (skips + 1) = Some (nxt + step + int n * step, skips + 1 + n)"
      "now < nxt + step + int n * step" "n = 0 \<or> nxt + step + int (n - 1) * step \<le> now" by blast
    have "catch_up step now nxt skips = Some (nxt + int (n + 1) * step, skips + (n + 1))"
      by (subst catch_up.simps) (use True n(1) in \<open>simp add: algebra_simps\<close>)
    moreover have "now < nxt + int (n + 1) * step" using n(2) by (simp add: algebra_simps)
    moreover have "nxt + int (n + 1 - 1) * step \<le> now"
      using n(3) True by (cases n) (auto simp: algebra_simps)
    ultimately show ?thesis by blast
  next
    case False
    then have "catch_up step now nxt skips = Some (nxt, skips)" by (subst catch_up.simps) simp
    then show ?thesis using False by (intro exI[of _ 0]) simp
  qed
qed

lemma collect_batches_total:
  "\<exists>r. collect_batches sha e cycle_at timeout fs = Inr r"
proof (induction fs)
  case (Cons f fs)
  then obtain bs codes where "collect_batches sha e cycle_at timeout fs = Inr (bs, codes)" by auto
  then show ?case
    by (cases f) (auto simp: unavailable_batch_def canonical_json_sha256_def Let_def split: sum.splits)
qed simp

lemma run_cycle_cases:
  "run_cycle sha s e (utc g) = Inr r \<Longrightarrow> cr_cycle_at r = utc g"
  "run_cycle sha s e (utc g) = Inl err \<Longrightarrow> \<exists>a b c d. ce_persist e a b c d = PersistRaised err"
proof -
  obtain bs codes where c: "collect_batches sha e (utc g) (fetch_timeout s e) (sc_fetchers s) = Inr (bs, codes)"
    using collect_batches_total by (metis surj_pair)
  show "run_cycle sha s e (utc g) = Inr r \<Longrightarrow> cr_cycle_at r = utc g"
    by (auto simp: run_cycle_def require_aware_def c Let_def failed_cycle_def split: if_splits persist_outcome.splits)
  show "run_cycle sha s e (utc g) = Inl err \<Longrightarrow> \<exists>a b c d. ce_persist e a b c d = PersistRaised err"
    by (auto simp: run_cycle_def require_aware_def c Let_def failed_cycle_def split: if_splits persist_outcome.splits)
qed

text \<open>
  The cycles of a run from grid instant \<open>g\<close> with \<open>k\<close> skips: strictly increasing grid instants before the
  next one, and as many grid instants passed as cycles run and newly skipped.
\<close>

definition grid_log :: "int \<Rightarrow> int \<Rightarrow> nat \<Rightarrow> cycle_run list \<Rightarrow> int \<Rightarrow> nat \<Rightarrow> bool" where
  "grid_log step g k runs nxt skips \<longleftrightarrow>
     sorted_wrt (<) (map (\<lambda>r. instant (cr_cycle_at r)) runs)
     \<and> (\<forall>r\<in>set runs. \<exists>j. cr_cycle_at r = utc (g + int j * step) \<and> g + int j * step < nxt)
     \<and> k \<le> skips \<and> nxt = g + int (length runs + (skips - k)) * step"

lemma grid_log_Cons:
  assumes "0 < step" "cr_cycle_at r = utc g" "grid_log step (g + int (n + 1) * step) (k + n) runs nxt skips"
  shows "grid_log step g k (r # runs) nxt skips"
proof -
  have step: "g < g + int (n + 1) * step" using assms(1) by simp
  have nxt: "nxt = g + int (n + 1) * step + int (length runs + (skips - (k + n))) * step" "k + n \<le> skips"
    using assms(3) by (auto simp: grid_log_def)
  have ge: "g + int (n + 1) * step \<le> nxt" unfolding nxt using assms(1) by simp
  have tail: "\<exists>j. cr_cycle_at q = utc (g + int j * step) \<and> g + int j * step < nxt \<and> g < g + int j * step"
    if q: "q \<in> set runs" for q
  proof -
    have "\<forall>r\<in>set runs. \<exists>j. cr_cycle_at r = utc (g + int (n + 1) * step + int j * step)
        \<and> g + int (n + 1) * step + int j * step < nxt"
      using assms(3) unfolding grid_log_def by blast
    then obtain j where j: "cr_cycle_at q = utc (g + int (n + 1) * step + int j * step)"
      "g + int (n + 1) * step + int j * step < nxt" using q by blast
    have "g + int (n + 1) * step + int j * step = g + int (n + 1 + j) * step" by (simp add: algebra_simps)
    moreover have "0 < int (n + 1 + j) * step" using assms(1) by simp
    ultimately show ?thesis using j by (intro exI[of _ "n + 1 + j"]) simp
  qed
  have count: "nxt = g + int (length (r # runs) + (skips - k)) * step"
  proof -
    have "length (r # runs) + (skips - k) = n + 1 + (length runs + (skips - (k + n)))" using nxt(2) by simp
    then show ?thesis unfolding nxt(1) by (simp add: algebra_simps)
  qed
  have head: "\<exists>j. cr_cycle_at r = utc (g + int j * step) \<and> g + int j * step < nxt"
    using assms(2) step ge by (intro exI[of _ 0]) simp
  have "\<forall>q\<in>set runs. g < instant (cr_cycle_at q)" using tail by fastforce
  moreover have "sorted_wrt (<) (map (\<lambda>r. instant (cr_cycle_at r)) runs)" using assms(3) by (simp add: grid_log_def)
  ultimately have "sorted_wrt (<) (map (\<lambda>r. instant (cr_cycle_at r)) (r # runs))" using assms(2) by simp
  moreover have "\<forall>q\<in>set (r # runs). \<exists>j. cr_cycle_at q = utc (g + int j * step) \<and> g + int j * step < nxt"
    using head tail by (metis set_ConsD)
  moreover have "k \<le> skips" using nxt(2) by simp
  ultimately show ?thesis using count unfolding grid_log_def by blast
qed

lemma run_forever_covers:
  assumes "0 < sc_interval s"
  shows "\<exists>out. run_forever sha s turns g k = Some out
    \<and> (\<forall>runs nxt skips. out = Inr (runs, nxt, skips) \<longrightarrow> grid_log (sc_interval s * second_us) g k runs nxt skips)
    \<and> (\<forall>err. out = Inl err \<longrightarrow> (\<exists>t\<in>set turns. \<exists>a b c d. ce_persist (tn_env t) a b c d = PersistRaised err))"
proof (induction turns arbitrary: g k)
  case Nil
  show ?case by (simp add: grid_log_def)
next
  case (Cons t ts)
  let ?step = "sc_interval s * second_us"
  have step: "0 < ?step" using assms by simp
  show ?case
  proof (cases "tn_stopped t \<or> tn_stopped_waiting t")
    case True
    then show ?thesis by (simp add: grid_log_def)
  next
    case go: False
    show ?thesis
    proof (cases "run_cycle sha s (tn_env t) (utc g)")
      case (Inl err)
      then show ?thesis using go run_cycle_cases(2)[OF Inl] by auto
    next
      case (Inr r)
      obtain n where n: "catch_up ?step (tn_now t) (g + ?step) k = Some (g + ?step + int n * ?step, k + n)"
        using catch_up_ends[OF step] by blast
      have eq: "g + ?step + int n * ?step = g + int (n + 1) * ?step" by (simp add: algebra_simps)
      obtain out where out: "run_forever sha s ts (g + int (n + 1) * ?step) (k + n) = Some out"
        "\<forall>runs nxt skips. out = Inr (runs, nxt, skips) \<longrightarrow> grid_log ?step (g + int (n + 1) * ?step) (k + n) runs nxt skips"
        "\<forall>err. out = Inl err \<longrightarrow> (\<exists>t\<in>set ts. \<exists>a b c d. ce_persist (tn_env t) a b c d = PersistRaised err)"
        using Cons.IH by blast
      have run: "run_forever sha s (t # ts) g k
          = Some (and_then out (\<lambda>(rs, m, j). Inr (r # rs, m, j)))"
        using go Inr n out(1) unfolding eq by simp
      show ?thesis
      proof (cases out)
        case (Inl e)
        then show ?thesis using run out(3) by auto
      next
        case (Inr x)
        obtain runs m j where x: "x = (runs, m, j)" by (cases x)
        have "grid_log ?step g k (r # runs) m j"
          by (rule grid_log_Cons[OF step run_cycle_cases(1)]) (use \<open>run_cycle sha s (tn_env t) (utc g) = Inr r\<close> out(2) Inr x in auto)
        then show ?thesis using run Inr x by simp
      qed
    qed
  qed
qed

text \<open>
  C12. The scheduler always returns and loses no grid instant silently.  From any clock reading up to the year 2242 a
  constructed scheduler starts at the first multiple of its interval that is not past; whatever the fetches,
  clocks and stop event do in the turns that follow, its catch-up loops end, and it raises only what persistence
  raised.  The cycles it ran are at strictly increasing grid instants, and the grid instants it passed are exactly
  those it ran a cycle for and those it counted as skipped.
\<close>

theorem scheduler_covers_the_grid:
  assumes "make_scheduler fetchers interval deadline = Inr s" and "0 \<le> t0" "t0 < 2 ^ 33 * 1000000"
  shows "\<exists>g out. next_grid_at (utc t0) interval = Inr (utc g)
    \<and> g mod (interval * second_us) = 0 \<and> t0 \<le> g \<and> g < t0 + interval * second_us
    \<and> run_forever sha s turns g 0 = Some out
    \<and> (\<forall>runs nxt skips. out = Inr (runs, nxt, skips) \<longrightarrow> grid_log (interval * second_us) g 0 runs nxt skips)
    \<and> (\<forall>err. out = Inl err \<longrightarrow> (\<exists>t\<in>set turns. \<exists>a b c d. ce_persist (tn_env t) a b c d = PersistRaised err))"
proof -
  have s: "0 < interval" "sc_interval s = interval"
    using assms(1) by (auto simp: make_scheduler_def split: if_splits)
  show ?thesis
    using next_grid_utc[OF assms(2,3) s(1)] run_forever_covers[of s sha turns] s by metis
qed

definition sample_scheduler :: scheduler where
  "sample_scheduler = \<lparr>sc_fetchers = [(Bitget, ''https'')], sc_interval = 60, sc_deadline = FFin 50\<rparr>"

definition idle_env :: "unit cycle_env" where
  "idle_env =
     \<lparr>ce_locked = True, ce_locked_at = FFin 0, ce_waiting_at = FFin 0, ce_fetched_at = FFin 0, ce_started_at = utc 0,
      ce_observed_at = (\<lambda>_. utc 0), ce_fetch = (\<lambda>_ _. TaskCancelled), ce_persist = (\<lambda>_ _ _ _. PersistTimeout)\<rparr>"

definition late_turn :: "unit turn" where
  "late_turn = \<lparr>tn_stopped = False, tn_stopped_waiting = False, tn_env = idle_env, tn_now = 210000000\<rparr>"

theorem scheduler_covers_the_grid_witness:
  "\<exists>g out. next_grid_at (utc 60000000) 60 = Inr (utc g) \<and> g mod (60 * second_us) = 0
    \<and> run_forever (\<lambda>_. []) sample_scheduler [late_turn, late_turn] g 0 = Some out
    \<and> (\<forall>runs nxt skips. out = Inr (runs, nxt, skips) \<longrightarrow> grid_log (60 * second_us) g 0 runs nxt skips)"
proof -
  have m: "make_scheduler [(Bitget, ''https'')] 60 (FFin 50) = Inr sample_scheduler"
    by (simp add: make_scheduler_def sample_scheduler_def)
  have "0 \<le> (60000000 :: int)" "(60000000 :: int) < 2 ^ 33 * 1000000" by simp_all
  from scheduler_covers_the_grid[OF m this, where sha = "\<lambda>_. []" and turns = "[late_turn, late_turn]"]
  show ?thesis by (elim exE conjE) (intro exI conjI; assumption)
qed

end
