(* ===== verification/Attention_Store.thy ===== *)
theory Attention_Store
  imports Attention_Models "HOL-Library.Product_Lexorder" "HOL-Library.List_Lexorder" "HOL-Library.Char_ord"
    "HOL-Library.AList"
begin

text \<open>
  The evidence database of the attention service (\<open>attention-core/storage.py\<close>) and the contracts that
  only it keeps (\<open>models.py\<close>): outcomes, candidate policies, evaluation reports.  A table is the list of its
  rows in the order of insertion.  A JSON column holds the value whose text it is: writing a validated value and reading
  it back gives that value.  \<open>content_digest\<close>, SHA-256 of a canonical text, is an argument, and so is
  the file name that an id hashes to.  A statement that breaks a key or a foreign key raises and its
  transaction is rolled back.  Opening the database, its lock and its files' modes are not modelled.
\<close>

section \<open>Outcomes\<close>

datatype horizon = H15 | H60

fun horizon_minutes :: "horizon \<Rightarrow> int" where
  "horizon_minutes H15 = 15"
| "horizon_minutes H60 = 60"

datatype outcome_family = OfReference | OfNative

datatype outcome_status = OutReady | OutPending | OutUnscorable

record outcome_row =
  oc_generation_id :: string
  oc_asset_id :: string
  oc_reference_key :: "string option"
  oc_horizon :: horizon
  oc_family :: outcome_family
  oc_edition :: int
  oc_status :: outcome_status
  oc_reason :: "string option"
  oc_cutoff :: int
  oc_through :: int
  oc_settled_at :: int
  oc_max_abs_return :: "pyfloat option"
  oc_close_return :: "pyfloat option"
  oc_time_to_move :: "pyfloat option"
  oc_dispersion_max :: "pyfloat option"
  oc_oi_change_max :: "pyfloat option"
  oc_fingerprint :: string

definition outcome_values :: "outcome_row \<Rightarrow> pyfloat option list" where
  "outcome_values r =
     [oc_max_abs_return r, oc_close_return r, oc_time_to_move r, oc_dispersion_max r, oc_oi_change_max r]"

definition check_outcome_row :: "outcome_row \<Rightarrow> unit result" where
  "check_outcome_row r =
     (if oc_edition r < 1 \<or> \<not> all_of (at_least 0) (oc_max_abs_return r)
         \<or> \<not> all_of float_finite (oc_close_return r) \<or> \<not> all_of (at_least 0) (oc_time_to_move r)
         \<or> \<not> all_of (at_least 0) (oc_dispersion_max r) \<or> \<not> all_of (at_least 0) (oc_oi_change_max r)
      then field_error
      else if oc_through r \<noteq> oc_cutoff r + horizon_minutes (oc_horizon r) * attention_minute
      then raise_exn ValueError ''outcome horizon mismatch''
      else if oc_status r = OutReady
      then (if oc_reason r \<noteq> None \<or> oc_settled_at r < oc_through r
            then raise_exn ValueError ''ready outcome must be complete''
            else if oc_family r = OfReference \<and> (oc_max_abs_return r = None \<or> oc_close_return r = None)
            then raise_exn ValueError ''ready reference outcome requires returns''
            else Inr ())
      else if \<not> has_text (oc_reason r) \<or> list_ex (\<lambda>v. v \<noteq> None) (outcome_values r)
      then raise_exn ValueError ''unsettled outcome must not impute values''
      else Inr ())"

section \<open>Candidate policies and evaluation reports\<close>

datatype candidate_signal =
    SigReturn15m | SigReturn1h | SigTurnoverRatio | SigMovement | SigActivity | SigPositioning
  | SigDislocation | SigConfluence

record candidate_policy =
  cp_id :: string
  cp_family_id :: string
  cp_signal :: candidate_signal
  cp_version :: string
  cp_frozen_at :: int
  cp_k_values :: "int list"
  cp_horizon :: horizon
  cp_minimum_day_blocks :: int
  cp_minimum_coverage :: pyfloat
  cp_maximum_coverage_regression :: pyfloat
  cp_minimum_practical_delta :: pyfloat

definition check_candidate_policy :: "candidate_policy \<Rightarrow> unit result" where
  "check_candidate_policy p =
     (if cp_minimum_day_blocks p < 2 \<or> \<not> between 0 1 (cp_minimum_coverage p)
         \<or> \<not> between 0 1 (cp_maximum_coverage_regression p) \<or> \<not> at_least 0 (cp_minimum_practical_delta p)
      then field_error
      else if cp_k_values p = [] \<or> \<not> distinct (cp_k_values p) \<or> list_ex (\<lambda>k. k < 1) (cp_k_values p)
      then raise_exn ValueError ''invalid candidate K values''
      else Inr ())"

record evaluation_metrics =
  em_recall :: "pyfloat option"
  em_precision :: "pyfloat option"
  em_ndcg :: "pyfloat option"
  em_mean_return :: "pyfloat option"
  em_median_lead_time :: "pyfloat option"
  em_coverage :: pyfloat
  em_unscorable_rate :: pyfloat
  em_set_churn :: "pyfloat option"
  em_rank_churn :: "pyfloat option"
  em_generation_count :: int

definition check_metrics :: "evaluation_metrics \<Rightarrow> unit result" where
  "check_metrics m =
     (if \<not> list_all (all_of float_finite)
             [em_recall m, em_precision m, em_ndcg m, em_mean_return m, em_median_lead_time m,
              em_set_churn m, em_rank_churn m]
         \<or> \<not> between 0 1 (em_coverage m) \<or> \<not> between 0 1 (em_unscorable_rate m)
         \<or> em_generation_count m < 0
      then field_error else Inr ())"

datatype evaluation_decision = Supported | NotSupported | NotEstimable | Inconclusive | RejectedCoverage

record candidate_evaluation =
  ce_policy_id :: string
  ce_baseline_policy_id :: string
  ce_k :: int
  ce_horizon_minutes :: int
  ce_metrics :: evaluation_metrics
  ce_baseline_metrics :: evaluation_metrics
  ce_mean_delta :: "pyfloat option"
  ce_adjusted_p_value :: "pyfloat option"
  ce_sensitivity_p_value :: "pyfloat option"
  ce_block_count :: int
  ce_effective_days :: int
  ce_minimum_practical_delta :: pyfloat
  ce_estimated_power :: "pyfloat option"
  ce_mde80 :: "pyfloat option"
  ce_decision :: evaluation_decision
  ce_reasons :: "string list"

definition check_evaluation :: "candidate_evaluation \<Rightarrow> unit result" where
  "check_evaluation e =
     and_then (first_error [check_metrics (ce_metrics e), check_metrics (ce_baseline_metrics e)]) (\<lambda>_.
       if \<not> all_of float_finite (ce_mean_delta e) \<or> \<not> all_of (between 0 1) (ce_adjusted_p_value e)
          \<or> \<not> all_of (between 0 1) (ce_sensitivity_p_value e) \<or> \<not> float_finite (ce_minimum_practical_delta e)
          \<or> \<not> all_of (between 0 1) (ce_estimated_power e) \<or> \<not> all_of (at_least 0) (ce_mde80 e)
       then field_error else Inr ())"

record evaluation_report =
  ev_run_id :: string
  ev_family_id :: string
  ev_policy_hashes :: "(string \<times> string) list"
  ev_outcome_fingerprint :: string
  ev_created_at :: int
  ev_bootstrap_samples :: int
  ev_seed :: int
  ev_stale :: bool
  ev_evaluations :: "candidate_evaluation list"
  ev_reasons :: "string list"


section \<open>The tables\<close>

record generation_entry =
  ge_id :: string
  ge_decision_at :: int
  ge_cutoff :: int
  ge_evidence :: bool
  ge_inputs :: input_reference
  ge_response :: attention_response
  ge_fingerprint :: string

record run_entry =
  re_id :: string
  re_family_id :: string
  re_payload :: evaluation_report
  re_fingerprint :: string
  re_stale :: bool

record policy_entry =
  pe_id :: string
  pe_family_id :: string
  pe_hash :: string
  pe_payload :: candidate_policy

text \<open>
  The key columns of an outcome are fields of its payload, and so is the asset of a feature or component row;
  the generation of these is a column of its own.  The files are the immutable artifacts by name, \<open>current.json\<close>
  and \<open>evaluation.json\<close>.
\<close>

record attention_db =
  db_metadata :: "(string \<times> string) list"
  db_generations :: "generation_entry list"
  db_features :: "(string \<times> feature_row) list"
  db_components :: "(string \<times> attention_row) list"
  db_allocations :: "(string \<times> shadow_allocation) list"
  db_outcomes :: "outcome_row list"
  db_policies :: "policy_entry list"
  db_runs :: "run_entry list"
  db_artifacts :: "(string \<times> attention_response) list"
  db_current :: "attention_response option"
  db_report :: "evaluation_report option"

definition empty_db :: attention_db where
  "empty_db = \<lparr>db_metadata = [(''schema'', ''1'')], db_generations = [], db_features = [], db_components = [],
     db_allocations = [], db_outcomes = [], db_policies = [], db_runs = [], db_artifacts = [],
     db_current = None, db_report = None\<rparr>"

text \<open>What the store takes the digest of.\<close>

datatype stored_content =
    GenerationContent input_reference "feature_row list" attention_response bool
  | ResponseContent attention_response
  | PolicyContent candidate_policy
  | FamilyContent "(string \<times> string) list"
  | ReportContent evaluation_report

section \<open>Saving a generation\<close>

definition check_full_row :: "attention_row \<Rightarrow> unit result" where
  "check_full_row r =
     first_error (map check_original_reference (ar_originals r)
       @ map (\<lambda>n. check_component (ar_components r n)) (components_list @ [Confluence])
       @ [check_attention_row r])"

definition check_full_allocation :: "shadow_allocation \<Rightarrow> unit result" where
  "check_full_allocation a =
     first_error (check_policy (sa_policy a) # map check_slot (sa_slots a) @ [check_allocation a])"

definition check_full_response :: "attention_response \<Rightarrow> unit result" where
  "check_full_response r =
     first_error ([check_input_reference (rp_inputs r), check_attention_coverage (rp_coverage r)]
       @ map check_full_row (rp_rows r) @ map check_full_allocation (rp_allocations r) @ [check_response r])"

definition generation_guard ::
    "input_reference \<Rightarrow> feature_row list \<Rightarrow> attention_response \<Rightarrow> bool \<Rightarrow> unit result" where
  "generation_guard inputs features response evidence =
     and_then (check_input_reference inputs) (\<lambda>_.
     and_then (check_full_response response) (\<lambda>_.
     and_then (first_error (map check_feature_row features)) (\<lambda>_.
       if rp_inputs response \<noteq> inputs
          \<or> set (map fr_asset_id features) \<noteq> set (map ar_asset_id (rp_rows response))
       then raise_exn ValueError ''generation feature/response identity mismatch''
       else if length features \<noteq> length (rp_rows response)
               \<or> list_ex (\<lambda>f. fr_decision_at f \<noteq> ir_decision_at inputs) features
       then raise_exn ValueError ''generation feature time/identity mismatch''
       else if evidence \<and> ir_ranking_cutoff inputs mod (5 * attention_minute) \<noteq> 0
       then raise_exn ValueError ''evidence requires an exact five-minute input boundary''
       else Inr ())))"

definition by_asset :: "feature_row list \<Rightarrow> feature_row list" where
  "by_asset = sort_key fr_asset_id"

definition generation_digest ::
    "(stored_content \<Rightarrow> string) \<Rightarrow> input_reference \<Rightarrow> feature_row list \<Rightarrow> attention_response \<Rightarrow> bool \<Rightarrow> string" where
  "generation_digest dg inputs features response evidence =
     dg (GenerationContent inputs (by_asset features) response evidence)"

definition find_generation :: "attention_db \<Rightarrow> string \<Rightarrow> generation_entry option" where
  "find_generation db i = find (\<lambda>g. ge_id g = i) (db_generations db)"

text \<open>The insertions of the transaction, in their order; the unique index holds one evidence row per cutoff.\<close>

definition insert_generation :: "generation_entry \<Rightarrow> attention_db \<Rightarrow> attention_db result" where
  "insert_generation g db =
     (if find_generation db (ge_id g) \<noteq> None
         \<or> ge_evidence g \<and> list_ex (\<lambda>h. ge_evidence h \<and> ge_cutoff h = ge_cutoff g) (db_generations db)
      then raise_exn IntegrityError ''UNIQUE constraint failed: input_generations''
      else Inr (db\<lparr>db_generations := db_generations db @ [g]\<rparr>))"

definition insert_feature :: "string \<Rightarrow> feature_row \<Rightarrow> attention_db \<Rightarrow> attention_db result" where
  "insert_feature i f db =
     (if list_ex (\<lambda>(j, h). j = i \<and> fr_asset_id h = fr_asset_id f) (db_features db)
      then raise_exn IntegrityError ''UNIQUE constraint failed: feature_rows''
      else Inr (db\<lparr>db_features := db_features db @ [(i, f)]\<rparr>))"

definition insert_component :: "string \<Rightarrow> attention_row \<Rightarrow> attention_db \<Rightarrow> attention_db result" where
  "insert_component i r db =
     (if list_ex (\<lambda>(j, h). j = i \<and> ar_asset_id h = ar_asset_id r) (db_components db)
      then raise_exn IntegrityError ''UNIQUE constraint failed: component_rows''
      else Inr (db\<lparr>db_components := db_components db @ [(i, r)]\<rparr>))"

definition insert_allocation :: "string \<Rightarrow> shadow_allocation \<Rightarrow> attention_db \<Rightarrow> attention_db result" where
  "insert_allocation i a db =
     (if sa_generation_id a \<noteq> i then raise_exn ValueError ''allocation generation mismatch''
      else if list_ex (\<lambda>(j, h). j = i \<and> ap_id (sa_policy h) = ap_id (sa_policy a)) (db_allocations db)
      then raise_exn IntegrityError ''UNIQUE constraint failed: shadow_allocations''
      else Inr (db\<lparr>db_allocations := db_allocations db @ [(i, a)]\<rparr>))"

definition insert_all ::
    "generation_entry \<Rightarrow> feature_row list \<Rightarrow> attention_db \<Rightarrow> attention_db result" where
  "insert_all g features db =
     and_then (insert_generation g db) (\<lambda>db1.
     and_then (if ge_evidence g then try_fold (insert_feature (ge_id g)) features db1 else Inr db1) (\<lambda>db2.
     and_then (if ge_evidence g then try_fold (insert_component (ge_id g)) (rp_rows (ge_response g)) db2
               else Inr db2) (\<lambda>db3.
       try_fold (insert_allocation (ge_id g)) (rp_allocations (ge_response g)) db3)))"

definition features_of :: "attention_db \<Rightarrow> string \<Rightarrow> feature_row list" where
  "features_of db i = sort_key fr_asset_id (map snd (filter (\<lambda>(j, _). j = i) (db_features db)))"

definition components_of :: "attention_db \<Rightarrow> string \<Rightarrow> attention_row list" where
  "components_of db i = sort_key ar_asset_id (map snd (filter (\<lambda>(j, _). j = i) (db_components db)))"

definition allocations_of :: "attention_db \<Rightarrow> string \<Rightarrow> shadow_allocation list" where
  "allocations_of db i =
     sort_key (\<lambda>a. ap_id (sa_policy a)) (map snd (filter (\<lambda>(j, _). j = i) (db_allocations db)))"

definition readback ::
    "(stored_content \<Rightarrow> string) \<Rightarrow> generation_entry \<Rightarrow> feature_row list \<Rightarrow> attention_db \<Rightarrow> unit result" where
  "readback dg g features db =
     (case find_generation db (ge_id g) of
        None \<Rightarrow> raise_exn RuntimeError ''attention database readback mismatch''
      | Some h \<Rightarrow>
          if ge_fingerprint h \<noteq> ge_fingerprint g
             \<or> dg (ResponseContent (ge_response h)) \<noteq> dg (ResponseContent (ge_response g))
          then raise_exn RuntimeError ''attention database readback mismatch''
          else if ge_inputs h \<noteq> ge_inputs g then raise_exn RuntimeError ''attention input readback mismatch''
          else if ge_evidence g \<and> (features_of db (ge_id g) \<noteq> by_asset features
                  \<or> components_of db (ge_id g) \<noteq> sort_key ar_asset_id (rp_rows (ge_response g)))
          then raise_exn RuntimeError ''attention evidence readback mismatch''
          else if allocations_of db (ge_id g)
                  \<noteq> sort_key (\<lambda>a. ap_id (sa_policy a)) (rp_allocations (ge_response g))
          then raise_exn RuntimeError ''attention allocation readback mismatch''
          else Inr ())"

definition publish :: "string \<Rightarrow> attention_response \<Rightarrow> attention_db \<Rightarrow> unit result \<times> attention_db" where
  "publish name response db =
     (case map_of (db_artifacts db) name of
        Some old \<Rightarrow>
          if old \<noteq> response then (raise_exn ValueError ''immutable artifact conflict'', db)
          else (Inr (), db\<lparr>db_current := Some response\<rparr>)
      | None \<Rightarrow> (Inr (), db\<lparr>db_artifacts := db_artifacts db @ [(name, response)], db_current := Some response\<rparr>))"

definition save_generation ::
    "(stored_content \<Rightarrow> string) \<Rightarrow> (string \<Rightarrow> string) \<Rightarrow> input_reference \<Rightarrow> feature_row list \<Rightarrow> attention_response
       \<Rightarrow> bool \<Rightarrow> attention_db \<Rightarrow> bool result \<times> attention_db" where
  "save_generation dg file_of inputs features response evidence db =
     (let fingerprint = generation_digest dg inputs features response evidence;
          saved = find_generation db (ir_generation_id inputs);
          g = \<lparr>ge_id = ir_generation_id inputs, ge_decision_at = ir_decision_at inputs,
               ge_cutoff = ir_ranking_cutoff inputs, ge_evidence = evidence, ge_inputs = inputs,
               ge_response = response, ge_fingerprint = fingerprint\<rparr>
      in case generation_guard inputs features response evidence of
           Inl e \<Rightarrow> (Inl e, db)
         | Inr _ \<Rightarrow>
             if saved \<noteq> None \<and> ge_fingerprint (the saved) \<noteq> fingerprint
             then (raise_exn ValueError ''immutable generation conflict'', db)
             else case (if saved = None then insert_all g features db else Inr db) of
                    Inl e \<Rightarrow> (Inl e, db)
                  | Inr db' \<Rightarrow>
                      (case readback dg g features db' of
                         Inl e \<Rightarrow> (Inl e, db')
                       | Inr _ \<Rightarrow>
                           (case publish (file_of (ir_generation_id inputs)) response db' of
                              (Inl e, db'') \<Rightarrow> (Inl e, db'')
                            | (Inr _, db'') \<Rightarrow> (Inr (saved = None), db''))))"

section \<open>Reading generations\<close>

type_synonym evidence = "input_reference \<times> feature_row list \<times> attention_response"

definition has_evidence_cutoff :: "attention_db \<Rightarrow> int \<Rightarrow> bool" where
  "has_evidence_cutoff db cutoff \<longleftrightarrow> list_ex (\<lambda>g. ge_cutoff g = cutoff \<and> ge_evidence g) (db_generations db)"

definition in_order :: "generation_entry list \<Rightarrow> generation_entry list" where
  "in_order = sort_key (\<lambda>g. (ge_decision_at g, ge_id g))"

definition latest_response :: "attention_db \<Rightarrow> attention_response option" where
  "latest_response db =
     (case rev (in_order (db_generations db)) of [] \<Rightarrow> None | g # _ \<Rightarrow> Some (ge_response g))"

definition decode_evidence_generation :: "attention_db \<Rightarrow> generation_entry \<Rightarrow> evidence" where
  "decode_evidence_generation db g = (ge_inputs g, features_of db (ge_id g), ge_response g)"

definition iter_evidence_generations :: "int option \<Rightarrow> int option \<Rightarrow> attention_db \<Rightarrow> evidence list" where
  "iter_evidence_generations start_ms end_ms db =
     map (decode_evidence_generation db)
       (in_order (filter (\<lambda>g. ge_evidence g \<and> all_of (\<lambda>t. t \<le> ge_decision_at g) start_ms
                              \<and> all_of (\<lambda>t. ge_decision_at g < t) end_ms) (db_generations db)))"

definition evidence_generation :: "string \<Rightarrow> attention_db \<Rightarrow> evidence result" where
  "evidence_generation i db =
     (case find (\<lambda>g. ge_evidence g \<and> ge_id g = i) (db_generations db) of
        None \<Rightarrow> raise_exn ValueError ''outcomes require one saved evidence generation''
      | Some g \<Rightarrow> Inr (decode_evidence_generation db g))"

definition latest_allocation :: "string \<Rightarrow> attention_db \<Rightarrow> shadow_allocation option" where
  "latest_allocation policy_id db =
     (case rev (in_order (filter (\<lambda>g. list_ex (\<lambda>(i, a). i = ge_id g \<and> ap_id (sa_policy a) = policy_id)
                                       (db_allocations db)) (db_generations db))) of
        [] \<Rightarrow> None
      | g # _ \<Rightarrow> map_option snd (find (\<lambda>(i, a). i = ge_id g \<and> ap_id (sa_policy a) = policy_id) (db_allocations db)))"

section \<open>Outcomes\<close>

fun family_text :: "outcome_family \<Rightarrow> string" where
  "family_text OfReference = ''reference''"
| "family_text OfNative = ''native''"

type_synonym outcome_key = "string \<times> string \<times> int \<times> string"

definition outcome_key :: "outcome_row \<Rightarrow> outcome_key" where
  "outcome_key r =
     (oc_generation_id r, oc_asset_id r, horizon_minutes (oc_horizon r), family_text (oc_family r))"

definition editions_of :: "outcome_key \<Rightarrow> attention_db \<Rightarrow> outcome_row list" where
  "editions_of k db = filter (\<lambda>r. outcome_key r = k) (db_outcomes db)"

definition latest_edition :: "outcome_key \<Rightarrow> attention_db \<Rightarrow> outcome_row option" where
  "latest_edition k db =
     (case rev (sort_key oc_edition (editions_of k db)) of [] \<Rightarrow> None | r # _ \<Rightarrow> Some r)"

definition same_observation :: "outcome_row \<Rightarrow> outcome_row \<Rightarrow> bool" where
  "same_observation a b \<longleftrightarrow>
     a\<lparr>oc_edition := 1, oc_settled_at := 0\<rparr> = b\<lparr>oc_edition := 1, oc_settled_at := 0\<rparr>"

definition mark_report_stale :: "attention_db \<Rightarrow> attention_db" where
  "mark_report_stale db =
     (if db_runs db = [] then db
      else db\<lparr>db_report := Some ((re_payload (last (db_runs db)))\<lparr>ev_stale := True\<rparr>)\<rparr>)"

definition insert_outcome :: "bool \<Rightarrow> outcome_row \<Rightarrow> attention_db \<Rightarrow> attention_db result" where
  "insert_outcome correction r db =
     (if \<not> list_ex (\<lambda>(i, f). i = oc_generation_id r \<and> fr_asset_id f = oc_asset_id r) (db_features db)
      then raise_exn IntegrityError ''FOREIGN KEY constraint failed''
      else if list_ex (\<lambda>o'. oc_edition o' = oc_edition r) (editions_of (outcome_key r) db)
      then raise_exn IntegrityError ''UNIQUE constraint failed: outcome_rows''
      else Inr (db\<lparr>db_outcomes := db_outcomes db @ [r],
                 db_runs := if correction then map (\<lambda>x. x\<lparr>re_stale := True\<rparr>) (db_runs db) else db_runs db\<rparr>))"

definition put_outcome :: "outcome_row \<Rightarrow> attention_db \<Rightarrow> outcome_row result \<times> attention_db" where
  "put_outcome r db =
     (case check_outcome_row r of
        Inl e \<Rightarrow> (Inl e, db)
      | Inr _ \<Rightarrow>
          let previous = latest_edition (outcome_key r) db
          in if previous \<noteq> None \<and> same_observation (the previous) r then (Inr (the previous), db)
             else let r' = r\<lparr>oc_edition := (case previous of None \<Rightarrow> 1 | Some p \<Rightarrow> oc_edition p + 1)\<rparr>;
                      db' = if previous = None then db else mark_report_stale db
                  in case insert_outcome (previous \<noteq> None) r' db' of
                       Inl e \<Rightarrow> (Inl e, db')
                     | Inr db'' \<Rightarrow> (Inr r', db''))"

definition is_latest :: "attention_db \<Rightarrow> outcome_row \<Rightarrow> bool" where
  "is_latest db r \<longleftrightarrow> list_all (\<lambda>o'. oc_edition o' \<le> oc_edition r) (editions_of (outcome_key r) db)"

definition outcomes_for_generation :: "string \<Rightarrow> attention_db \<Rightarrow> outcome_row list" where
  "outcomes_for_generation i db =
     sort_key outcome_key (filter (\<lambda>r. oc_generation_id r = i \<and> is_latest db r) (db_outcomes db))"

definition latest_outcomes :: "attention_db \<Rightarrow> outcome_row list" where
  "latest_outcomes db = sort_key outcome_key (filter (is_latest db) (db_outcomes db))"

section \<open>Candidate families and evaluations\<close>

definition family_marker :: "string \<Rightarrow> string" where
  "family_marker family = ''family:'' @ family"

definition freeze_policy ::
    "(stored_content \<Rightarrow> string) \<Rightarrow> string \<Rightarrow> candidate_policy \<Rightarrow> attention_db \<Rightarrow> attention_db result" where
  "freeze_policy dg family p db =
     (case find (\<lambda>x. pe_id x = cp_id p) (db_policies db) of
        Some x \<Rightarrow> if pe_hash x \<noteq> dg (PolicyContent p) then raise_exn ValueError ''frozen policy conflict'' else Inr db
      | None \<Rightarrow> Inr (db\<lparr>db_policies := db_policies db @
                 [\<lparr>pe_id = cp_id p, pe_family_id = family, pe_hash = dg (PolicyContent p), pe_payload = p\<rparr>]\<rparr>))"

definition freeze_family ::
    "(stored_content \<Rightarrow> string) \<Rightarrow> candidate_policy list \<Rightarrow> attention_db \<Rightarrow> unit result \<times> attention_db" where
  "freeze_family dg ps db =
     (if ps = [] \<or> \<not> list_all (\<lambda>p. cp_family_id p = cp_family_id (hd ps)) ps \<or> \<not> distinct (map cp_id ps)
      then (raise_exn ValueError ''one complete candidate family is required'', db)
      else let family = cp_family_id (hd ps);
               records = sort_key fst (map (\<lambda>p. (cp_id p, dg (PolicyContent p))) ps);
               fingerprint = dg (FamilyContent records);
               old = map_of (db_metadata db) (family_marker family)
           in if old \<noteq> None \<and> old \<noteq> Some fingerprint
              then (raise_exn ValueError ''frozen candidate family conflict; create a new family/version'', db)
              else case try_fold (freeze_policy dg family) ps db of
                     Inl e \<Rightarrow> (Inl e, db)
                   | Inr db' \<Rightarrow>
                       (Inr (), if old = None
                                then db'\<lparr>db_metadata := db_metadata db' @ [(family_marker family, fingerprint)]\<rparr>
                                else db'))"

definition frozen_policies :: "string option \<Rightarrow> attention_db \<Rightarrow> candidate_policy list" where
  "frozen_policies family db =
     map pe_payload (sort_key pe_id (filter (\<lambda>x. all_of (\<lambda>f. pe_family_id x = f) family) (db_policies db)))"

definition save_evaluation ::
    "(stored_content \<Rightarrow> string) \<Rightarrow> evaluation_report \<Rightarrow> attention_db \<Rightarrow> unit result \<times> attention_db" where
  "save_evaluation dg report db =
     (let fingerprint = dg (ReportContent report);
          old = find (\<lambda>x. re_id x = ev_run_id report) (db_runs db)
      in if old \<noteq> None \<and> re_fingerprint (the old) \<noteq> fingerprint
         then (raise_exn ValueError ''immutable evaluation conflict'', db)
         else if old \<noteq> None \<and> re_stale (the old)
         then (raise_exn ValueError ''stale evaluation must be recomputed with current outcomes'', db)
         else (Inr (), db\<lparr>db_runs := if old = None
                 then db_runs db @ [\<lparr>re_id = ev_run_id report, re_family_id = ev_family_id report,
                        re_payload = report, re_fingerprint = fingerprint, re_stale = False\<rparr>]
                 else db_runs db,
                 db_report := Some report\<rparr>))"

definition evaluations :: "attention_db \<Rightarrow> evaluation_report list" where
  "evaluations db = map (\<lambda>x. (re_payload x)\<lparr>ev_stale := re_stale x\<rparr>) (sort_key re_id (db_runs db))"

section \<open>Keyed tables\<close>

text \<open>
  What a table with a primary key promises its client: a row whose key is new is appended, any other insertion
  raises.  \<open>fits\<close> is the guard in front of the insertion.
\<close>

locale keyed_table =
  fixes rows :: "'s \<Rightarrow> 'r list" and with_rows :: "'r list \<Rightarrow> 's \<Rightarrow> 's"
    and row_key :: "'r \<Rightarrow> 'k" and fits :: "'r \<Rightarrow> bool" and ins :: "'r \<Rightarrow> 's \<Rightarrow> 's result"
  assumes rows_with [simp]: "rows (with_rows xs s) = xs"
    and with_with [simp]: "with_rows xs (with_rows ys s) = with_rows xs s"
    and with_own [simp]: "with_rows (rows s) s = s"
    and ins_new: "fits r \<Longrightarrow> row_key r \<notin> row_key ` set (rows s) \<Longrightarrow> ins r s = Inr (with_rows (rows s @ [r]) s)"
    and ins_ok: "ins r s = Inr s' \<Longrightarrow> fits r \<and> row_key r \<notin> row_key ` set (rows s)"
begin

lemma insert_rows:
  assumes "list_all fits rs" and "distinct (map row_key rs)"
    and "row_key ` set rs \<inter> row_key ` set (rows s) = {}"
  shows "try_fold ins rs s = Inr (with_rows (rows s @ rs) s)"
  using assms
proof (induction rs arbitrary: s)
  case (Cons r rs)
  have "ins r s = Inr (with_rows (rows s @ [r]) s)" using Cons.prems by (intro ins_new) auto
  moreover have "try_fold ins rs (with_rows (rows s @ [r]) s)
      = Inr (with_rows ((rows s @ [r]) @ rs) (with_rows (rows s @ [r]) s))"
    using Cons.prems by (subst Cons.IH) auto
  ultimately show ?case by simp
qed simp

lemma inserted_rows:
  "try_fold ins rs s = Inr s' \<Longrightarrow> s' = with_rows (rows s @ rs) s \<and> list_all fits rs
     \<and> distinct (map row_key rs) \<and> row_key ` set rs \<inter> row_key ` set (rows s) = {}"
proof (induction rs arbitrary: s)
  case (Cons r rs)
  obtain t where t: "ins r s = Inr t" "try_fold ins rs t = Inr s'"
    using Cons.prems by (auto split: sum.splits)
  have r: "fits r" "row_key r \<notin> row_key ` set (rows s)" using ins_ok[OF t(1)] by auto
  then have "t = with_rows (rows s @ [r]) s" using ins_new t(1) by simp
  with Cons.IH[OF t(2)] r show ?case by auto
qed simp

end

definition feature_key :: "string \<times> feature_row \<Rightarrow> string \<times> string" where
  "feature_key r = (fst r, fr_asset_id (snd r))"

definition component_key :: "string \<times> attention_row \<Rightarrow> string \<times> string" where
  "component_key r = (fst r, ar_asset_id (snd r))"

definition allocation_key :: "string \<times> shadow_allocation \<Rightarrow> string \<times> string" where
  "allocation_key r = (fst r, ap_id (sa_policy (snd r)))"

lemmas row_keys = feature_key_def component_key_def allocation_key_def

lemma key_present: "list_ex (\<lambda>r. fst r = i \<and> k (snd r) = v) xs \<longleftrightarrow> (i, v) \<in> (\<lambda>r. (fst r, k (snd r))) ` set xs"
  by (force simp: list_ex_iff image_iff)

interpretation features: keyed_table db_features "\<lambda>xs db. db\<lparr>db_features := xs\<rparr>" feature_key "\<lambda>_. True"
    "\<lambda>(i, f). insert_feature i f"
  by unfold_locales (simp_all add: insert_feature_def feature_key_def key_present case_prod_unfold split: if_splits)

interpretation components: keyed_table db_components "\<lambda>xs db. db\<lparr>db_components := xs\<rparr>" component_key "\<lambda>_. True"
    "\<lambda>(i, r). insert_component i r"
  by unfold_locales (simp_all add: insert_component_def component_key_def key_present case_prod_unfold split: if_splits)

interpretation allocations: keyed_table db_allocations "\<lambda>xs db. db\<lparr>db_allocations := xs\<rparr>" allocation_key
    "\<lambda>(i, a). sa_generation_id a = i" "\<lambda>(i, a). insert_allocation i a"
  by unfold_locales (simp_all add: insert_allocation_def allocation_key_def case_prod_unfold
      key_present[where k = "\<lambda>a. ap_id (sa_policy a)"] split: if_splits)

lemma try_fold_pairs: "try_fold (\<lambda>(i, x). f i x) (map (Pair i) xs) s = try_fold (f i) xs s"
  by (induction xs arbitrary: s) (auto split: sum.splits)

lemma map_key_pairs [simp]:
  "map feature_key (map (Pair i) fs) = map (\<lambda>f. (i, fr_asset_id f)) fs"
  "map component_key (map (Pair i) rs) = map (\<lambda>r. (i, ar_asset_id r)) rs"
  "map allocation_key (map (Pair i) as) = map (\<lambda>a. (i, ap_id (sa_policy a))) as"
  by (simp_all add: row_keys)

lemma distinct_tagged: "distinct (map (\<lambda>x. (i, f x)) xs) \<longleftrightarrow> distinct (map f xs)"
  by (induction xs) auto

section \<open>The invariant of the generation tables\<close>

definition evidence_cutoffs :: "generation_entry list \<Rightarrow> int list" where
  "evidence_cutoffs gs = map ge_cutoff (filter ge_evidence gs)"

definition tables_ok :: "generation_entry list \<Rightarrow> (string \<times> feature_row) list \<Rightarrow> (string \<times> attention_row) list
    \<Rightarrow> (string \<times> shadow_allocation) list \<Rightarrow> bool" where
  "tables_ok gs fs cs as \<longleftrightarrow>
     distinct (map ge_id gs) \<and> distinct (evidence_cutoffs gs)
     \<and> distinct (map feature_key fs) \<and> distinct (map component_key cs) \<and> distinct (map allocation_key as)
     \<and> fst ` (set fs) \<union> fst ` (set cs) \<union> fst ` (set as) \<subseteq> ge_id ` set gs"

definition db_ok :: "attention_db \<Rightarrow> bool" where
  "db_ok db \<longleftrightarrow>
     tables_ok (db_generations db) (db_features db) (db_components db) (db_allocations db)"

lemmas tables_simps = db_ok_def tables_ok_def evidence_cutoffs_def

lemma find_none_iff: "find P xs = None \<longleftrightarrow> (\<forall>x\<in>set xs. \<not> P x)"
  by (auto simp: find_None_iff)

lemma insert_all_fresh:
  assumes "insert_all g fs db = Inr db'" and "ge_evidence g"
  shows "db' = db\<lparr>db_generations := db_generations db @ [g],
           db_features := db_features db @ map (Pair (ge_id g)) fs,
           db_components := db_components db @ map (Pair (ge_id g)) (rp_rows (ge_response g)),
           db_allocations := db_allocations db @ map (Pair (ge_id g)) (rp_allocations (ge_response g))\<rparr>"
proof -
  define db1 where "db1 = db\<lparr>db_generations := db_generations db @ [g]\<rparr>"
  obtain db2 db3 where s: "try_fold (insert_feature (ge_id g)) fs db1 = Inr db2"
      "try_fold (insert_component (ge_id g)) (rp_rows (ge_response g)) db2 = Inr db3"
      "try_fold (insert_allocation (ge_id g)) (rp_allocations (ge_response g)) db3 = Inr db'"
    using assms by (auto simp: insert_all_def insert_generation_def and_then_Inr db1_def split: if_splits)
  note s' = s(1)[unfolded try_fold_pairs[symmetric, of insert_feature]]
    s(2)[unfolded try_fold_pairs[symmetric, of insert_component]]
    s(3)[unfolded try_fold_pairs[symmetric, of insert_allocation]]
  show ?thesis
    using features.inserted_rows[OF s'(1)] components.inserted_rows[OF s'(2)] allocations.inserted_rows[OF s'(3)]
    by (simp add: db1_def)
qed

lemma four_tables:
  "db' = db\<lparr>db_generations := gs, db_features := fs, db_components := cs, db_allocations := as\<rparr> \<Longrightarrow>
   db_generations db' = gs \<and> db_features db' = fs \<and> db_components db' = cs \<and> db_allocations db' = as
   \<and> db_metadata db' = db_metadata db \<and> db_outcomes db' = db_outcomes db \<and> db_policies db' = db_policies db
   \<and> db_runs db' = db_runs db \<and> db_artifacts db' = db_artifacts db \<and> db_current db' = db_current db
   \<and> db_report db' = db_report db"
  by simp

lemma inserted_fields:
  assumes "insert_all g fs db = Inr db'" and "ge_evidence g"
  shows "db_generations db' = db_generations db @ [g]"
    and "db_features db' = db_features db @ map (Pair (ge_id g)) fs"
    and "db_components db' = db_components db @ map (Pair (ge_id g)) (rp_rows (ge_response g))"
    and "db_allocations db' = db_allocations db @ map (Pair (ge_id g)) (rp_allocations (ge_response g))"
    and "db_artifacts db' = db_artifacts db" and "db_outcomes db' = db_outcomes db"
  using four_tables[OF insert_all_fresh[OF assms]] by blast+

lemma filter_tagged:
  "filter (\<lambda>(j, _). j = i) (map (Pair i) xs) = map (Pair i) xs"
  "j \<noteq> i \<Longrightarrow> filter (\<lambda>(k, _). k = j) (map (Pair i) xs) = []"
  by (induction xs) auto

lemma filter_untagged: "i \<notin> fst ` set xs \<Longrightarrow> filter (\<lambda>(j, _). j = i) xs = []"
  by (force simp: filter_empty_conv)

lemma tagged_append:
  "i \<notin> fst ` set xs \<Longrightarrow> map snd (filter (\<lambda>(j, _). j = i) (xs @ map (Pair i) ys)) = ys"
  "j \<noteq> i \<Longrightarrow> filter (\<lambda>(k, _). k = j) (xs @ map (Pair i) ys) = filter (\<lambda>(k, _). k = j) xs"
  by (simp_all add: filter_tagged filter_untagged comp_def)

lemma find_append_last: "(\<forall>x\<in>set xs. \<not> P x) \<Longrightarrow> find P (xs @ [y]) = (if P y then Some y else None)"
  by (induction xs) auto

lemma find_append_other: "\<not> P y \<Longrightarrow> find P (xs @ [y]) = find P xs"
  by (induction xs) auto

lemma inserted_ok:
  assumes "db_ok db" and "insert_all g fs db = Inr db'"
  shows "db_ok db'"
proof -
  define db1 where "db1 = db\<lparr>db_generations := db_generations db @ [g]\<rparr>"
  define fs' rs' where "fs' = (if ge_evidence g then fs else [])"
    and "rs' = (if ge_evidence g then rp_rows (ge_response g) else [])"
  obtain db2 db3 where s: "try_fold (insert_feature (ge_id g)) fs' db1 = Inr db2"
      "try_fold (insert_component (ge_id g)) rs' db2 = Inr db3"
      "try_fold (insert_allocation (ge_id g)) (rp_allocations (ge_response g)) db3 = Inr db'"
    and g: "find_generation db (ge_id g) = None"
      "\<not> (ge_evidence g \<and> list_ex (\<lambda>h. ge_evidence h \<and> ge_cutoff h = ge_cutoff g) (db_generations db))"
    using assms(2) by (auto simp: insert_all_def insert_generation_def and_then_Inr db1_def fs'_def rs'_def split: if_splits)
  note s' = s(1)[unfolded try_fold_pairs[symmetric, of insert_feature]]
    s(2)[unfolded try_fold_pairs[symmetric, of insert_component]]
    s(3)[unfolded try_fold_pairs[symmetric, of insert_allocation]]
  have f: "db2 = db1\<lparr>db_features := db_features db @ map (Pair (ge_id g)) fs'\<rparr>
      \<and> distinct (map feature_key (db_features db @ map (Pair (ge_id g)) fs'))"
    using features.inserted_rows[OF s'(1)] assms(1) by (auto simp: db1_def tables_simps)
  have c: "db3 = db2\<lparr>db_components := db_components db @ map (Pair (ge_id g)) rs'\<rparr>
      \<and> distinct (map component_key (db_components db @ map (Pair (ge_id g)) rs'))"
    using components.inserted_rows[OF s'(2)] f assms(1) by (auto simp: db1_def tables_simps)
  have a: "db' = db3\<lparr>db_allocations := db_allocations db @ map (Pair (ge_id g)) (rp_allocations (ge_response g))\<rparr>
      \<and> distinct (map allocation_key (db_allocations db @ map (Pair (ge_id g)) (rp_allocations (ge_response g))))"
    using allocations.inserted_rows[OF s'(3)] f c assms(1) by (auto simp: db1_def tables_simps)
  have "db' = db\<lparr>db_generations := db_generations db @ [g],
      db_features := db_features db @ map (Pair (ge_id g)) fs', db_components := db_components db @ map (Pair (ge_id g)) rs',
      db_allocations := db_allocations db @ map (Pair (ge_id g)) (rp_allocations (ge_response g))\<rparr>"
    using f c a by (simp add: db1_def)
  note fields = four_tables[OF this]
  have gs: "distinct (map ge_id (db_generations db @ [g]))" "distinct (evidence_cutoffs (db_generations db @ [g]))"
    using g assms(1) by (auto simp: tables_simps find_generation_def find_none_iff list_ex_iff)
  have "tables_ok (db_generations db @ [g]) (db_features db @ map (Pair (ge_id g)) fs')
      (db_components db @ map (Pair (ge_id g)) rs')
      (db_allocations db @ map (Pair (ge_id g)) (rp_allocations (ge_response g)))"
    using gs assms(1) conjunct2[OF f] conjunct2[OF c] conjunct2[OF a]
    unfolding db_ok_def tables_ok_def by (simp only: simp_thms) auto
  then show ?thesis unfolding db_ok_def using fields by metis
qed

lemma inserted_outcomes:
  assumes "insert_all g fs db = Inr db'"
  shows "db_outcomes db' = db_outcomes db"
proof -
  have a: "db_outcomes t = db_outcomes s" if "try_fold (insert_feature i) xs s = Inr t" for i xs s t
    using that by (induction xs arbitrary: s) (auto simp: insert_feature_def split: sum.splits if_splits)
  have b: "db_outcomes t = db_outcomes s" if "try_fold (insert_component i) xs s = Inr t" for i xs s t
    using that by (induction xs arbitrary: s) (auto simp: insert_component_def split: sum.splits if_splits)
  have c: "db_outcomes t = db_outcomes s" if "try_fold (insert_allocation i) xs s = Inr t" for i xs s t
    using that by (induction xs arbitrary: s) (auto simp: insert_allocation_def split: sum.splits if_splits)
  show ?thesis using assms a b c
    by (fastforce simp: insert_all_def insert_generation_def and_then_Inr split: if_splits)
qed

lemma readback_after_insert:
  assumes ok: "db_ok db" and ins: "insert_all g fs db = Inr db'" and e: "ge_evidence g"
  shows "readback dg g fs db' = Inr ()" and "find_generation db' (ge_id g) = Some g"
    and "features_of db' (ge_id g) = by_asset fs"
proof -
  have fresh: "\<forall>h\<in>set (db_generations db). ge_id h \<noteq> ge_id g"
    using ins by (auto simp: insert_all_def insert_generation_def and_then_Inr find_generation_def find_none_iff
        split: if_splits)
  note db' = inserted_fields[OF ins e]
  have "ge_id g \<notin> ge_id ` set (db_generations db)" using fresh by force
  then have none: "ge_id g \<notin> fst ` set (db_features db)" "ge_id g \<notin> fst ` set (db_components db)"
      "ge_id g \<notin> fst ` set (db_allocations db)"
    using ok unfolding tables_simps by blast+
  show f: "find_generation db' (ge_id g) = Some g"
    using fresh by (simp add: db' find_generation_def find_append_last)
  show fs: "features_of db' (ge_id g) = by_asset fs"
    using none by (simp add: db' features_of_def by_asset_def tagged_append del: filter_append)
  have cs: "components_of db' (ge_id g) = sort_key ar_asset_id (rp_rows (ge_response g))"
    using none by (simp add: db' components_of_def tagged_append del: filter_append)
  have "allocations_of db' (ge_id g) = sort_key (\<lambda>a. ap_id (sa_policy a)) (rp_allocations (ge_response g))"
    using none by (simp add: db' allocations_of_def tagged_append del: filter_append)
  with f fs cs show "readback dg g fs db' = Inr ()" by (simp add: readback_def)
qed

lemma insert_all_ok:
  assumes ok: "db_ok db" and new: "find_generation db (ge_id g) = None" and e: "ge_evidence g"
    and cutoff: "\<not> has_evidence_cutoff db (ge_cutoff g)"
    and fs: "distinct (map fr_asset_id fs)" and rows: "distinct (map ar_asset_id (rp_rows (ge_response g)))"
    and allocs: "\<forall>a\<in>set (rp_allocations (ge_response g)). sa_generation_id a = ge_id g"
      "distinct (map (\<lambda>a. ap_id (sa_policy a)) (rp_allocations (ge_response g)))"
  shows "\<exists>db'. insert_all g fs db = Inr db'"
proof -
  define db1 where "db1 = db\<lparr>db_generations := db_generations db @ [g]\<rparr>"
  have g: "insert_generation g db = Inr db1"
    using new cutoff by (auto simp: insert_generation_def db1_def has_evidence_cutoff_def list_ex_iff)
  have "ge_id g \<notin> ge_id ` set (db_generations db)"
    using new by (auto simp: find_generation_def find_none_iff)
  then have none: "ge_id g \<notin> fst ` set (db_features db)" "ge_id g \<notin> fst ` set (db_components db)"
      "ge_id g \<notin> fst ` set (db_allocations db)"
    using ok unfolding tables_simps by blast+
  have d: "feature_key ` set (map (Pair (ge_id g)) xs) \<inter> feature_key ` set (db_features db) = {}"
      "component_key ` set (map (Pair (ge_id g)) ys) \<inter> component_key ` set (db_components db) = {}"
      "allocation_key ` set (map (Pair (ge_id g)) zs) \<inter> allocation_key ` set (db_allocations db) = {}"
    for xs ys zs using none by (force simp: row_keys)+
  have f: "try_fold (insert_feature (ge_id g)) fs db1
      = Inr (db1\<lparr>db_features := db_features db1 @ map (Pair (ge_id g)) fs\<rparr>)" (is "_ = Inr ?db2")
    using features.insert_rows[of "map (Pair (ge_id g)) fs" db1] fs d
    by (simp add: try_fold_pairs db1_def distinct_tagged row_keys comp_def list_all_iff)
  have c: "try_fold (insert_component (ge_id g)) (rp_rows (ge_response g)) ?db2
      = Inr (?db2\<lparr>db_components := db_components ?db2 @ map (Pair (ge_id g)) (rp_rows (ge_response g))\<rparr>)"
      (is "_ = Inr ?db3")
    using components.insert_rows[of "map (Pair (ge_id g)) (rp_rows (ge_response g))" ?db2] rows d
    by (simp add: try_fold_pairs db1_def distinct_tagged row_keys comp_def list_all_iff)
  have "try_fold (insert_allocation (ge_id g)) (rp_allocations (ge_response g)) ?db3
      = Inr (?db3\<lparr>db_allocations := db_allocations ?db3 @ map (Pair (ge_id g)) (rp_allocations (ge_response g))\<rparr>)"
    using allocations.insert_rows[of "map (Pair (ge_id g)) (rp_allocations (ge_response g))" ?db3] allocs d
    by (simp add: try_fold_pairs db1_def distinct_tagged row_keys comp_def list_all_iff)
  with g f c e show ?thesis by (simp add: insert_all_def)
qed

lemma guard_distinct:
  assumes "generation_guard inputs fs response evidence = Inr ()"
  shows "distinct (map fr_asset_id fs)" and "distinct (map ar_asset_id (rp_rows response))"
    and "rp_inputs response = inputs"
proof -
  have r: "check_full_response response = Inr ()" and eq: "rp_inputs response = inputs"
      "set (map fr_asset_id fs) = set (map ar_asset_id (rp_rows response))" "length fs = length (rp_rows response)"
    using assms by (auto simp: generation_guard_def and_then_Inr split: if_splits)
  have "check_response response = Inr ()"
    using r by (simp add: check_full_response_def first_error_Inr_all)
  then have "length (remdups (map ar_asset_id (rp_rows response))) = length (rp_rows response)"
    by (auto simp: check_response_def split: if_splits)
  then show rows: "distinct (map ar_asset_id (rp_rows response))"
    by (metis length_map length_remdups_eq remdups_id_iff_distinct)
  show "distinct (map fr_asset_id fs)"
    using rows eq(2,3) by (metis card_distinct distinct_card length_map)
  show "rp_inputs response = inputs" by (rule eq(1))
qed

lemma generation_saved:
  assumes "db_ok db" and "generation_guard inputs fs response True = Inr ()"
    and "find_generation db (ir_generation_id inputs) = None"
    and "\<not> has_evidence_cutoff db (ir_ranking_cutoff inputs)"
    and "\<forall>a\<in>set (rp_allocations response). sa_generation_id a = ir_generation_id inputs"
    and "distinct (map (\<lambda>a. ap_id (sa_policy a)) (rp_allocations response))"
    and "map_of (db_artifacts db) (file_of (ir_generation_id inputs)) = None"
  shows "\<exists>db'. save_generation dg file_of inputs fs response True db = (Inr True, db')
    \<and> db_ok db' \<and> db_current db' = Some response
    \<and> evidence_generation (ir_generation_id inputs) db' = Inr (inputs, by_asset fs, response)
    \<and> (\<forall>i. i \<noteq> ir_generation_id inputs \<longrightarrow> evidence_generation i db' = evidence_generation i db)
    \<and> save_generation dg file_of inputs fs response True db' = (Inr False, db')
    \<and> (\<forall>fs2 response2 evidence2.
          generation_guard inputs fs2 response2 evidence2 = Inr ()
          \<and> generation_digest dg inputs fs2 response2 evidence2 \<noteq> generation_digest dg inputs fs response True
          \<longrightarrow> save_generation dg file_of inputs fs2 response2 evidence2 db'
             = (raise_exn ValueError ''immutable generation conflict'', db'))"
proof -
  let ?i = "ir_generation_id inputs"
  define g where "g = \<lparr>ge_id = ?i, ge_decision_at = ir_decision_at inputs,
    ge_cutoff = ir_ranking_cutoff inputs, ge_evidence = True, ge_inputs = inputs, ge_response = response,
    ge_fingerprint = generation_digest dg inputs fs response True\<rparr>"
  have g [simp]: "ge_id g = ?i" "ge_cutoff g = ir_ranking_cutoff inputs" "ge_evidence g" "ge_inputs g = inputs"
      "ge_response g = response" "ge_fingerprint g = generation_digest dg inputs fs response True"
    by (simp_all add: g_def)
  obtain db1 where ins: "insert_all g fs db = Inr db1"
    using insert_all_ok[of db g fs] assms guard_distinct[OF assms(2)] by auto
  note db1 = inserted_fields[OF ins g(3)] and rb = readback_after_insert[OF assms(1) ins g(3)]
  define db' where "db' = db1\<lparr>db_artifacts := db_artifacts db1 @ [(file_of ?i, response)], db_current := Some response\<rparr>"
  have same: "db_generations db' = db_generations db1" "db_features db' = db_features db1"
      "db_components db' = db_components db1" "db_allocations db' = db_allocations db1"
      "map_of (db_artifacts db') (file_of ?i) = Some response" "db_current db' = Some response"
    using assms(7) by (simp_all add: db'_def db1(5) map_add_def)
  have save: "save_generation dg file_of inputs fs response True db = (Inr True, db')"
    using assms(2,3,7) ins rb(1) by (simp add: save_generation_def g_def[symmetric] publish_def db'_def db1(5))
  have rb': "readback dg g fs db' = Inr ()" "find_generation db' ?i = Some g"
  proof -
    have "find_generation db' = find_generation db1" "features_of db' = features_of db1"
        "components_of db' = components_of db1" "allocations_of db' = allocations_of db1"
      by (simp_all add: fun_eq_iff find_generation_def features_of_def components_of_def allocations_of_def same)
    then show "readback dg g fs db' = Inr ()" "find_generation db' ?i = Some g"
      using rb(1,2) by (simp_all only: readback_def g(1))
  qed
  have again: "save_generation dg file_of inputs fs response True db' = (Inr False, db')"
    using assms(2) rb' same by (simp add: save_generation_def g_def[symmetric] publish_def db'_def)
  have refused: "save_generation dg file_of inputs fs2 response2 e2 db'
      = (raise_exn ValueError ''immutable generation conflict'', db')"
    if "generation_guard inputs fs2 response2 e2 = Inr ()"
      "generation_digest dg inputs fs2 response2 e2 \<noteq> generation_digest dg inputs fs response True"
    for fs2 response2 e2
    using that rb'(2) by (auto simp: save_generation_def)
  have "db_ok db'" using inserted_ok[OF assms(1) ins] by (simp add: db_ok_def same)
  moreover have "evidence_generation ?i db' = Inr (inputs, by_asset fs, response)"
  proof -
    have "find (\<lambda>h. ge_evidence h \<and> ge_id h = ?i) (db_generations db1) = Some g"
      using assms(3) by (simp add: db1(1) find_append_last find_generation_def find_none_iff)
    then show ?thesis using rb(3)
      by (simp add: evidence_generation_def same decode_evidence_generation_def features_of_def)
  qed
  moreover have "evidence_generation i db' = evidence_generation i db" if "i \<noteq> ?i" for i
  proof (cases "find (\<lambda>h. ge_evidence h \<and> ge_id h = i) (db_generations db)")
    case (Some h)
    then have "ge_id h = i" by (auto dest: find_SomeD)
    with Some that show ?thesis
      by (simp add: evidence_generation_def same db1(1,2) find_append_other decode_evidence_generation_def
          features_of_def tagged_append del: filter_append)
  qed (use that in \<open>simp add: evidence_generation_def same db1(1) find_append_other\<close>)
  ultimately show ?thesis using save again refused same(6) by blast
qed

definition no_feature :: raw_feature where
  "no_feature = \<lparr>fv_value = None, fv_status = FsMissing, fv_reason = Some ''source_missing'', fv_unit = None,
     fv_source = ''ranking'', fv_start_at = None, fv_end_at = None, fv_observed_at = None, fv_observations = []\<rparr>"

definition plain_feature_row :: "string \<Rightarrow> string option \<Rightarrow> int \<Rightarrow> feature_row" where
  "plain_feature_row asset key decision_at = \<lparr>fr_asset_id = asset, fr_asset = asset, fr_reference_key = key,
     fr_originals = [], fr_decision_at = decision_at, fr_identity_status = IdPartial, fr_quality_reasons = [],
     fr_feature = (\<lambda>_. no_feature), fr_fresh_venues = 0, fr_ready_venues = 0\<rparr>"

definition no_component :: attention_component where
  "no_component = \<lparr>ac_policy_version = ''v1'', ac_status = CompUnavailable, ac_score = None, ac_raw_value = None,
     ac_rank = None, ac_rank_change = None, ac_direction = DirUnknown, ac_reason = Some ''missing_input'',
     ac_inputs = [], ac_peer_count = 0\<rparr>"

definition plain_attention_row :: "string \<Rightarrow> string option \<Rightarrow> int \<Rightarrow> attention_row" where
  "plain_attention_row asset key decision_at = \<lparr>ar_asset_id = asset, ar_asset = asset, ar_reference_key = key,
     ar_originals = [], ar_components = (\<lambda>_. no_component), ar_ready_count = 0, ar_coverage_ratio = FFin 0,
     ar_quality_reasons = [], ar_data_as_of = decision_at, ar_identity_status = IdPartial\<rparr>"

definition plain_inputs :: "string \<Rightarrow> int \<Rightarrow> input_reference" where
  "plain_inputs i decision_at = \<lparr>ir_generation_id = i, ir_feature_version = feature_version,
     ir_decision_at = decision_at, ir_ranking_cutoff = 300000, ir_ranking_generated_at = 300000,
     ir_ranking_generation_id = ''r'', ir_map_version = ''m'', ir_metric_version = ''v'',
     ir_universe_generated_at = 300000, ir_service_generated_at = 300000, ir_metrics_generation_id = None,
     ir_metrics_generated_at = None, ir_metrics_candle_cutoff = None, ir_input_skew_seconds = FFin 0,
     ir_quality_reasons = []\<rparr>"

definition plain_response :: "input_reference \<Rightarrow> attention_row list \<Rightarrow> attention_response" where
  "plain_response inputs rows = \<lparr>rp_generation_id = ir_generation_id inputs, rp_decision_at = ir_decision_at inputs,
     rp_status = AtPartial, rp_reason = None, rp_policy_version = ''v1'', rp_inputs = inputs,
     rp_coverage = \<lparr>cv_rows = int (length rows), cv_eligible = 0, cv_confluence_ready = 0, cv_component_ready = (\<lambda>_. 0)\<rparr>,
     rp_rows = rows, rp_allocations = []\<rparr>"

lemmas plain_defs = no_feature_def plain_feature_row_def no_component_def plain_attention_row_def plain_inputs_def
  plain_response_def
lemmas generation_checks = generation_guard_def check_full_response_def check_full_row_def check_input_reference_def
  check_attention_coverage_def check_response_def check_component_def check_attention_row_def check_feature_row_def
  check_raw_feature_def check_row_feature_def

lemma plain_guard:
  "generation_guard (plain_inputs ''g'' 330000) [plain_feature_row ''BTC'' None 330000]
     (plain_response (plain_inputs ''g'' 330000) [plain_attention_row ''BTC'' None 330000]) True = Inr ()"
  by (simp add: generation_checks plain_defs first_error_Inr_all all_of_def between_def at_least_def after_time_def
      feature_version_def attention_minute_def component_ready_def components_list_def feature_names_def
      feature_times_def field_error_def strip_def py_space_def f_eq_def f_round_def f_exact_def f_limit_def first_error.simps)

section \<open>Corrections of outcomes\<close>

definition editions_ok :: "attention_db \<Rightarrow> bool" where
  "editions_ok db \<longleftrightarrow>
     (\<forall>k. map oc_edition (editions_of k db) = [1..int (length (editions_of k db))])
     \<and> list_all (\<lambda>r. check_outcome_row r = Inr ()) (db_outcomes db)"

lemma last_edition:
  assumes "editions_ok db"
  shows "latest_edition k db = (if editions_of k db = [] then None else Some (last (editions_of k db)))"
proof -
  have "sorted (map oc_edition (editions_of k db))"
    using assms by (metis editions_ok_def sorted_upto)
  then have "sort_key oc_edition (editions_of k db) = editions_of k db" by (rule sort_key_sorted)
  then show ?thesis
    by (cases "editions_of k db" rule: rev_cases) (simp_all add: latest_edition_def)
qed

lemma edition_of_last:
  assumes "editions_ok db" and "editions_of k db \<noteq> []"
  shows "oc_edition (last (editions_of k db)) = int (length (editions_of k db))"
proof -
  have "map oc_edition (editions_of k db) = [1..int (length (editions_of k db))]"
    using assms(1) unfolding editions_ok_def by blast
  then have "last (map oc_edition (editions_of k db)) = last [1..int (length (editions_of k db))]" by simp
  then show ?thesis using assms(2) by (simp add: last_map upto_rec2 Suc_le_eq)
qed

lemma outcome_key_edition [simp]: "outcome_key (r\<lparr>oc_edition := e\<rparr>) = outcome_key r"
  by (simp add: outcome_key_def)

lemma outcome_values_edition [simp]: "outcome_values (r\<lparr>oc_edition := e\<rparr>) = outcome_values r"
  by (simp add: outcome_values_def)

lemma check_edition:
  "check_outcome_row r = Inr () \<Longrightarrow> 1 \<le> e \<Longrightarrow> check_outcome_row (r\<lparr>oc_edition := e\<rparr>) = Inr ()"
  by (cases "oc_edition r < 1") (simp_all add: check_outcome_row_def field_error_def split del: if_split cong: if_cong)

lemma editions_report [simp]: "editions_of k (db\<lparr>db_report := x\<rparr>) = editions_of k db"
  by (simp add: editions_of_def)

lemma put_outcome_cases:
  assumes "editions_ok db" and "put_outcome r db = (Inr r', db')"
  shows "editions_ok db' \<and> put_outcome r' db' = (Inr r', db') \<and> latest_edition (outcome_key r) db' = Some r'
    \<and> (db' = db \<and> same_observation r' r
       \<or> db_outcomes db' = db_outcomes db @ [r']
         \<and> r' = r\<lparr>oc_edition := int (length (editions_of (outcome_key r) db)) + 1\<rparr>
         \<and> (editions_of (outcome_key r) db \<noteq> [] \<longrightarrow>
              list_all re_stale (db_runs db')
              \<and> (db_runs db \<noteq> [] \<longrightarrow> (\<exists>rep. db_report db' = Some rep \<and> ev_stale rep)))
         \<and> (editions_of (outcome_key r) db = [] \<longrightarrow> db_runs db' = db_runs db \<and> db_report db' = db_report db))"
proof -
  let ?k = "outcome_key r" and ?p = "latest_edition (outcome_key r) db"
  have valid: "check_outcome_row r = Inr ()" using assms(2) by (auto simp: put_outcome_def split: sum.splits)
  show ?thesis
  proof (cases "?p \<noteq> None \<and> same_observation (the ?p) r")
    case True
    then have eq: "r' = the ?p" "db' = db" using assms(2) valid by (auto simp: put_outcome_def)
    from True have p: "editions_of ?k db \<noteq> []" "?p = Some (last (editions_of ?k db))"
      using last_edition[OF assms(1), of ?k] by (auto split: if_splits)
    then have r': "r' = last (editions_of ?k db)" using eq by simp
    then have "r' \<in> set (editions_of ?k db)" using p by simp
    then have k: "outcome_key r' = ?k" "check_outcome_row r' = Inr ()"
      using assms(1) by (auto simp: editions_of_def editions_ok_def list_all_iff)
    have "put_outcome r' db = (Inr r', db)"
      using k p r' by (simp add: put_outcome_def same_observation_def)
    then show ?thesis using assms(1) True eq p r' by simp
  next
    case False
    let ?n = "int (length (editions_of ?k db))"
    have e: "(case ?p of None \<Rightarrow> 1 | Some p \<Rightarrow> oc_edition p + 1) = ?n + 1"
      using last_edition[OF assms(1), of ?k] edition_of_last[OF assms(1), of ?k] by simp
    define db0 where "db0 = (if ?p = None then db else mark_report_stale db)"
    have "put_outcome r db = (case insert_outcome (?p \<noteq> None) (r\<lparr>oc_edition := ?n + 1\<rparr>) db0 of
        Inl x \<Rightarrow> (Inl x, db0) | Inr s \<Rightarrow> (Inr (r\<lparr>oc_edition := ?n + 1\<rparr>), s))"
      unfolding put_outcome_def Let_def valid e db0_def[symmetric] using False by (auto simp only: if_False sum.case)
    then have r': "r' = r\<lparr>oc_edition := ?n + 1\<rparr>" and ins: "insert_outcome (?p \<noteq> None) r' db0 = Inr db'"
      using assms(2) by (auto split: sum.splits)
    define rs where "rs = (if ?p \<noteq> None then map (\<lambda>x. x\<lparr>re_stale := True\<rparr>) (db_runs db0) else db_runs db0)"
    have db': "db' = db0\<lparr>db_outcomes := db_outcomes db0 @ [r'], db_runs := rs\<rparr>"
      using ins by (auto simp: insert_outcome_def rs_def split: if_splits)
    have db0: "db_outcomes db0 = db_outcomes db" "editions_of k db0 = editions_of k db" "db_runs db0 = db_runs db" for k
      by (simp_all add: db0_def mark_report_stale_def)
    have ks: "outcome_key r' = ?k" by (simp add: r')
    have eds: "editions_of k db' = editions_of k db @ (if ?k = k then [r'] else [])" for k
      by (simp add: db' editions_of_def db0(1) ks)
    have r'ok: "check_outcome_row r' = Inr ()" unfolding r' by (rule check_edition[OF valid]) simp
    have nums: "map oc_edition (editions_of k db') = [1..int (length (editions_of k db'))]" for k
    proof -
      have "map oc_edition (editions_of k db) = [1..int (length (editions_of k db))]"
        using assms(1) unfolding editions_ok_def by blast
      then show ?thesis by (simp add: eds r' upto_rec2)
    qed
    have ok: "editions_ok db'"
      unfolding editions_ok_def using nums r'ok assms(1) by (simp add: db' db0 editions_ok_def)
    have latest: "latest_edition ?k db' = Some r'"
      using last_edition[OF ok, of ?k] by (simp add: eds)
    then have again: "put_outcome r' db' = (Inr r', db')"
      using r'ok ks by (simp add: put_outcome_def same_observation_def)
    have runs: "db_runs db' = rs" "db_report db' = db_report db0" "db_outcomes db' = db_outcomes db @ [r']"
      by (simp_all add: db' db0)
    have none: "?p = None \<longleftrightarrow> editions_of ?k db = []" using last_edition[OF assms(1), of ?k] by simp
    have "list_all re_stale rs" if "?p \<noteq> None" using that by (auto simp: rs_def list_all_iff)
    moreover have "\<exists>rep. db_report db0 = Some rep \<and> ev_stale rep" if "?p \<noteq> None" "db_runs db \<noteq> []"
      using that by (auto simp: db0_def mark_report_stale_def)
    moreover have "rs = db_runs db \<and> db_report db0 = db_report db" if "?p = None"
      using that by (simp add: rs_def db0_def)
    ultimately show ?thesis using ok again latest r' none runs by (auto simp only: simp_thms)
  qed
qed

definition sample_outcome :: "outcome_status \<Rightarrow> string option \<Rightarrow> int \<Rightarrow> outcome_row" where
  "sample_outcome st reason settled = \<lparr>oc_generation_id = ''g'', oc_asset_id = ''BTC'', oc_reference_key = None,
     oc_horizon = H15, oc_family = OfReference, oc_edition = 1, oc_status = st, oc_reason = reason,
     oc_cutoff = 360000, oc_through = 1260000, oc_settled_at = settled, oc_max_abs_return = None,
     oc_close_return = None, oc_time_to_move = None, oc_dispersion_max = None, oc_oi_change_max = None,
     oc_fingerprint = ''f''\<rparr>"

section \<open>Reachable databases\<close>

text \<open>Every database that the operations of the store can produce from the empty one.\<close>

inductive stored :: "(stored_content \<Rightarrow> string) \<Rightarrow> (string \<Rightarrow> string) \<Rightarrow> attention_db \<Rightarrow> bool"
  for dg :: "stored_content \<Rightarrow> string" and file_of :: "string \<Rightarrow> string" where
  stored_empty: "stored dg file_of empty_db"
| stored_generation: "stored dg file_of db \<Longrightarrow> stored dg file_of (snd (save_generation dg file_of i fs r e db))"
| stored_outcome: "stored dg file_of db \<Longrightarrow> stored dg file_of (snd (put_outcome o' db))"
| stored_family: "stored dg file_of db \<Longrightarrow> stored dg file_of (snd (freeze_family dg ps db))"
| stored_evaluation: "stored dg file_of db \<Longrightarrow> stored dg file_of (snd (save_evaluation dg report db))"

lemma put_outcome_tables:
  "db_generations (snd (put_outcome r db)) = db_generations db" "db_features (snd (put_outcome r db)) = db_features db"
  "db_components (snd (put_outcome r db)) = db_components db" "db_allocations (snd (put_outcome r db)) = db_allocations db"
  by (auto simp: put_outcome_def Let_def insert_outcome_def mark_report_stale_def split: sum.splits)

lemma freeze_policy_tables:
  "try_fold (freeze_policy dg family) ps db = Inr db' \<Longrightarrow>
     db_generations db' = db_generations db \<and> db_features db' = db_features db \<and> db_components db' = db_components db
     \<and> db_allocations db' = db_allocations db \<and> db_outcomes db' = db_outcomes db"
  by (induction ps arbitrary: db) (auto simp: freeze_policy_def split: sum.splits option.splits if_splits)

lemma freeze_family_tables:
  "db_ok (snd (freeze_family dg ps db)) = db_ok db" "db_outcomes (snd (freeze_family dg ps db)) = db_outcomes db"
  using freeze_policy_tables[of dg "cp_family_id (hd ps)" ps db]
  by (auto simp: freeze_family_def Let_def db_ok_def split: sum.splits)

lemma save_evaluation_tables:
  "db_ok (snd (save_evaluation dg report db)) = db_ok db" "db_outcomes (snd (save_evaluation dg report db)) = db_outcomes db"
  by (auto simp: save_evaluation_def Let_def db_ok_def)

lemma publish_tables:
  "db_ok (snd (publish name r db)) = db_ok db" "db_outcomes (snd (publish name r db)) = db_outcomes db"
  by (auto simp: publish_def db_ok_def split: option.splits)

lemma save_generation_tables:
  assumes "db_ok db"
  shows "db_ok (snd (save_generation dg file_of i fs r e db))"
    and "db_outcomes (snd (save_generation dg file_of i fs r e db)) = db_outcomes db"
proof -
  have p: "db_ok db'' = db_ok db'" "db_outcomes db'' = db_outcomes db'" if "publish n r db' = (x, db'')" for n x db' db''
    using publish_tables[of n r db'] that by simp_all
  show "db_ok (snd (save_generation dg file_of i fs r e db))"
    using assms inserted_ok[OF assms] p(1)
    by (auto simp: save_generation_def Let_def split: sum.splits prod.splits if_splits)
  show "db_outcomes (snd (save_generation dg file_of i fs r e db)) = db_outcomes db"
    using inserted_outcomes p(2)
    by (auto simp: save_generation_def Let_def split: sum.splits prod.splits if_splits)
qed

lemma editions_ok_outcomes: "db_outcomes db' = db_outcomes db \<Longrightarrow> editions_ok db' = editions_ok db"
  by (simp add: editions_ok_def editions_of_def)

lemma put_outcome_keeps:
  assumes "editions_ok db"
  shows "editions_ok (snd (put_outcome r db))"
proof (cases "fst (put_outcome r db)")
  case (Inr r')
  then show ?thesis using put_outcome_cases[OF assms, of r r' "snd (put_outcome r db)"] by (metis prod.collapse)
next
  case (Inl e)
  have "db_outcomes (snd (put_outcome r db)) = db_outcomes db"
    using Inl by (auto simp: put_outcome_def Let_def mark_report_stale_def split: sum.splits if_splits)
  then show ?thesis using assms editions_ok_outcomes by blast
qed

lemma stored_ok: "stored dg file_of db \<Longrightarrow> db_ok db \<and> editions_ok db"
proof (induction rule: stored.induct)
  case stored_empty
  show ?case by (simp add: tables_simps editions_ok_def editions_of_def empty_db_def)
next
  case (stored_generation db i fs r e)
  then show ?case using save_generation_tables editions_ok_outcomes by metis
next
  case (stored_outcome db o')
  then show ?case using put_outcome_keeps put_outcome_tables by (simp add: db_ok_def)
next
  case (stored_family db ps)
  then show ?case using freeze_family_tables editions_ok_outcomes by metis
next
  case (stored_evaluation db report)
  then show ?case using save_evaluation_tables editions_ok_outcomes by metis
qed



text \<open>
  C18. Outcomes are corrected by appending.  Putting a valid outcome either re-observes the latest edition of
  its key, which is then returned with its original edition and settlement time and nothing changes; or it appends the
  outcome as the next edition, older editions staying as they are, and when it corrects an earlier edition every
  evaluation run is marked stale and a published report is replaced by a stale one.  The editions of every key
  remain numbered from one without gaps, and putting the returned row again changes nothing.
\<close>

theorem corrections_append_editions:
  assumes "stored dg file_of db" and "put_outcome r db = (Inr r', db')"
  shows "stored dg file_of db'
    \<and> map oc_edition (editions_of k db') = [1..int (length (editions_of k db'))] \<and> put_outcome r' db' = (Inr r', db') \<and> latest_edition (outcome_key r) db' = Some r'
    \<and> (db' = db \<and> same_observation r' r
       \<or> db_outcomes db' = db_outcomes db @ [r']
         \<and> r' = r\<lparr>oc_edition := int (length (editions_of (outcome_key r) db)) + 1\<rparr>
         \<and> (editions_of (outcome_key r) db \<noteq> [] \<longrightarrow>
              list_all re_stale (db_runs db')
              \<and> (db_runs db \<noteq> [] \<longrightarrow> (\<exists>rep. db_report db' = Some rep \<and> ev_stale rep)))
         \<and> (editions_of (outcome_key r) db = [] \<longrightarrow> db_runs db' = db_runs db \<and> db_report db' = db_report db))"
proof -
  have ok: "editions_ok db" using stored_ok assms(1) by blast
  have "stored dg file_of db'" using stored_outcome[OF assms(1), of r] assms(2) by simp
  moreover have "map oc_edition (editions_of k db') = [1..int (length (editions_of k db'))]"
    using stored_ok[OF calculation] unfolding editions_ok_def by blast
  ultimately show ?thesis using put_outcome_cases[OF ok assms(2)] by blast
qed

definition corrected_db :: attention_db where
  "corrected_db = snd (put_outcome (sample_outcome OutPending (Some ''horizon_pending'') 400000)
     (snd (save_generation (\<lambda>_. ''h'') (\<lambda>i. i) (plain_inputs ''g'' 330000) [plain_feature_row ''BTC'' None 330000]
       (plain_response (plain_inputs ''g'' 330000) [plain_attention_row ''BTC'' None 330000]) True empty_db)))"

lemma corrections_append_editions_witness:
  "\<exists>r' db'. put_outcome (sample_outcome OutUnscorable (Some ''future_bar_gap'') 2000000) corrected_db = (Inr r', db')
     \<and> put_outcome r' db' = (Inr r', db')"
proof -
  let ?r = "sample_outcome OutUnscorable (Some ''future_bar_gap'') 2000000"
  have s: "stored (\<lambda>_. ''h'') (\<lambda>i. i) corrected_db"
    unfolding corrected_db_def by (intro stored.intros)
  have "is_ok (fst (put_outcome ?r corrected_db))" by code_simp
  then obtain r' db' where "put_outcome ?r corrected_db = (Inr r', db')"
    by (metis is_ok_iff prod.collapse)
  with corrections_append_editions[OF s this] show ?thesis by blast
qed

end
