(* ===== verification/Outcome_Inputs.thy ===== *)
theory Outcome_Inputs
  imports Attention_Models Ranking_Store "HOL-Library.AList"
begin

text \<open>
  The offline evidence from which attention outcomes are settled (first part of \<open>attention-core/outcomes.py\<close>):
  a validated input of closed bars and native points, a bundle of such inputs in fragment files read through a cache of
  two readers, and several bundles joined.  A disk gives the bytes of a file of a directory, or what reading it raises; the
  SHA-256 of bytes and the parsing of a JSON text are arguments.  The cache is the state that the calls pass on, the
  reader used last at its end; the readers of a joined input share one.  Finding the files of an archive is not modelled.
\<close>

section \<open>The validated input\<close>

datatype point_status = PointReady | PointUnavailable

record native_point =
  np_asset_id :: string
  np_at :: int
  np_originals :: "original_reference list"
  np_dispersion :: "pyfloat option"
  np_oi_change :: "pyfloat option"
  np_status :: point_status

definition check_native_point :: "native_point \<Rightarrow> unit result" where
  "check_native_point p =
     and_then (first_error (map check_original_reference (np_originals p))) (\<lambda>_.
       if \<not> all_of (at_least 0) (np_dispersion p) \<or> \<not> all_of (at_least 0) (np_oi_change p)
       then field_error else Inr ())"

record outcome_input =
  oi_map_version :: string
  oi_bars :: "minute_bar list"
  oi_native :: "native_point list"

definition check_outcome_input :: "outcome_input \<Rightarrow> unit result" where
  "check_outcome_input d =
     and_then (first_error (map valid_bar (oi_bars d))) (\<lambda>_.
     and_then (first_error (map check_native_point (oi_native d))) (\<lambda>_.
       if \<not> distinct (map (\<lambda>b. (mb_key b, mb_end b)) (oi_bars d))
       then raise_exn ValueError ''duplicate offline reference bar''
       else if \<not> distinct (map (\<lambda>p. (np_asset_id p, np_at p)) (oi_native d))
               \<or> list_ex (\<lambda>p. np_at p mod attention_minute \<noteq> 0) (oi_native d)
       then raise_exn ValueError ''invalid offline native minute observations''
       else Inr ()))"

section \<open>One input\<close>

text \<open>\<open>grouped[key].append(x)\<close> for every element: a dictionary of lists in the order of first use.\<close>

definition grouped_by :: "('a \<Rightarrow> 'k) \<Rightarrow> 'a list \<Rightarrow> ('k \<times> 'a list) list" where
  "grouped_by key xs =
     fold (\<lambda>x g. AList.update (key x) (case map_of g (key x) of None \<Rightarrow> [x] | Some ys \<Rightarrow> ys @ [x]) g) xs []"

definition get_list :: "('k \<times> 'a list) list \<Rightarrow> 'k \<Rightarrow> 'a list" where
  "get_list g k = (case map_of g k of None \<Rightarrow> [] | Some ys \<Rightarrow> ys)"

record fixture =
  fx_map_version :: string
  fx_scope :: "(int \<times> int) option"
  fx_data :: outcome_input
  fx_bars :: "(string \<times> minute_bar list) list"
  fx_native :: "(string \<times> native_point list) list"

definition scope_of :: "int list \<Rightarrow> (int \<times> int) option" where
  "scope_of ts = (case ts of [] \<Rightarrow> None | t # rest \<Rightarrow> Some (fold min rest t, fold max rest t))"

definition fixture_reader :: "outcome_input \<Rightarrow> fixture" where
  "fixture_reader d =
     \<lparr>fx_map_version = oi_map_version d,
      fx_scope = scope_of (map mb_end (oi_bars d) @ map np_at (oi_native d)),
      fx_data = d,
      fx_bars = map (\<lambda>(k, bs). (k, sort_key mb_end bs)) (grouped_by mb_key (oi_bars d)),
      fx_native = map (\<lambda>(k, ps). (k, sort_key np_at ps)) (grouped_by np_asset_id (oi_native d))\<rparr>"

definition fixture_keys :: "fixture \<Rightarrow> string set" where
  "fixture_keys r = mb_key ` set (oi_bars (fx_data r))"

definition fixture_for_generation :: "input_reference \<Rightarrow> fixture \<Rightarrow> bool" where
  "fixture_for_generation inputs r \<longleftrightarrow>
     (let cutoff = outcome_cutoff (ir_decision_at inputs)
      in ir_map_version inputs = fx_map_version r
         \<and> (case fx_scope r of None \<Rightarrow> False | Some (lo, hi) \<Rightarrow> lo \<le> cutoff \<and> cutoff \<le> hi))"

definition fixture_bars :: "fixture \<Rightarrow> string \<Rightarrow> int \<Rightarrow> int \<Rightarrow> minute_bar list" where
  "fixture_bars r key after through =
     filter (\<lambda>b. after < mb_end b \<and> mb_end b \<le> through) (get_list (fx_bars r) key)"

definition fixture_points :: "fixture \<Rightarrow> string \<Rightarrow> int \<Rightarrow> int \<Rightarrow> native_point list" where
  "fixture_points r asset after through =
     filter (\<lambda>p. after < np_at p \<and> np_at p \<le> through) (get_list (fx_native r) asset)"

section \<open>Bundles of fragments\<close>

record bundle_file =
  bf_name :: string
  bf_sha256 :: string
  bf_reference_keys :: "string list"
  bf_asset_ids :: "string list"
  bf_after :: int
  bf_through :: int

record outcome_bundle =
  bn_map_version :: string
  bn_after :: int
  bn_through :: int
  bn_copy_sha256 :: string
  bn_files :: "bundle_file list"

definition name_char :: "char \<Rightarrow> bool" where
  "name_char c \<longleftrightarrow> (CHR ''A'' \<le> c \<and> c \<le> CHR ''Z'') \<or> (CHR ''a'' \<le> c \<and> c \<le> CHR ''z'')
     \<or> (CHR ''0'' \<le> c \<and> c \<le> CHR ''9'') \<or> c \<in> {CHR ''.'', CHR ''_'', CHR ''-''}"

definition hex_digest :: "string \<Rightarrow> bool" where
  "hex_digest s \<longleftrightarrow> length s = 64
     \<and> list_all (\<lambda>c. (CHR ''0'' \<le> c \<and> c \<le> CHR ''9'') \<or> (CHR ''a'' \<le> c \<and> c \<le> CHR ''f'')) s"

definition check_bundle_file :: "bundle_file \<Rightarrow> unit result" where
  "check_bundle_file f =
     (let n = length (bf_name f) - 5
      in if n = 0 \<or> \<not> list_all name_char (take n (bf_name f)) \<or> drop n (bf_name f) \<noteq> ''.json''
            \<or> \<not> hex_digest (bf_sha256 f)
         then field_error else Inr ())"

definition check_bundle :: "outcome_bundle \<Rightarrow> unit result" where
  "check_bundle b =
     and_then (first_error (map check_bundle_file (bn_files b))) (\<lambda>_.
       if \<not> hex_digest (bn_copy_sha256 b) \<or> bn_files b = [] \<or> 2048 < length (bn_files b)
       then field_error else Inr ())"

text \<open>What is outside: the files, SHA-256, and the parsing of the two kinds of JSON text.\<close>

record 'raw disk =
  dk_read :: "string \<Rightarrow> string \<Rightarrow> 'raw result"
  dk_sha256 :: "'raw \<Rightarrow> string"
  dk_input :: "'raw \<Rightarrow> outcome_input result"
  dk_complete :: "'raw \<Rightarrow> bool"

definition parse_input :: "'raw disk \<Rightarrow> 'raw \<Rightarrow> outcome_input result" where
  "parse_input d raw = and_then (dk_input d raw) (build check_outcome_input)"

type_synonym cache = "((string \<times> string) \<times> fixture) list"

record partitioned =
  pt_directory :: string
  pt_manifest :: outcome_bundle
  pt_references :: "(string \<times> bundle_file) list"
  pt_natives :: "(string \<times> bundle_file) list"

text \<open>\<open>index[key]\<close> of the code: the fragments filed under a key, in the order of the manifest.\<close>

definition filed :: "(string \<times> bundle_file) list \<Rightarrow> string \<Rightarrow> bundle_file list" where
  "filed idx key = map snd (filter (\<lambda>(k, _). k = key) idx)"

definition load_fragment :: "'raw disk \<Rightarrow> string \<Rightarrow> bundle_file \<Rightarrow> cache \<Rightarrow> fixture result \<times> cache" where
  "load_fragment d dir f c =
     (let key = (dir, bf_name f)
      in case map_of c key of
           Some r \<Rightarrow> (Inr r, filter (\<lambda>(k, _). k \<noteq> key) c @ [(key, r)])
         | None \<Rightarrow>
             (case dk_read d dir (bf_name f) of
                Inl e \<Rightarrow> (Inl e, c)
              | Inr raw \<Rightarrow>
                  if dk_sha256 d raw \<noteq> bf_sha256 f
                  then (raise_exn ValueError ''outcome fragment hash differs'', c)
                  else (case parse_input d raw of
                          Inl e \<Rightarrow> (Inl e, c)
                        | Inr data \<Rightarrow>
                            let c' = c @ [(key, fixture_reader data)]
                            in (Inr (fixture_reader data), if 2 < length c' then tl c' else c'))))"

definition file_key :: "bundle_file \<Rightarrow> string \<Rightarrow> (string \<times> bundle_file) list \<Rightarrow> (string \<times> bundle_file) list result" where
  "file_key f key idx =
     (if list_ex (\<lambda>old. bf_after old < bf_through f \<and> bf_after f < bf_through old) (filed idx key)
      then raise_exn ValueError ''overlapping identity across outcome fragments''
      else Inr (idx @ [(key, f)]))"

record indexing =
  ix_names :: "string list"
  ix_references :: "(string \<times> bundle_file) list"
  ix_natives :: "(string \<times> bundle_file) list"

definition fragment_guard :: "outcome_bundle \<Rightarrow> bundle_file \<Rightarrow> fixture \<Rightarrow> unit result" where
  "fragment_guard m f r =
     (if fx_map_version r \<noteq> bn_map_version m \<or> fixture_keys r \<noteq> set (bf_reference_keys f)
      then raise_exn ValueError ''outcome fragment reference binding differs''
      else if fst ` set (fx_native r) \<noteq> set (bf_asset_ids f)
      then raise_exn ValueError ''outcome fragment native binding differs''
      else if \<not> (bn_after m \<le> bf_after f \<and> bf_after f < bf_through f \<and> bf_through f \<le> bn_through m)
      then raise_exn ValueError ''outcome fragment window differs''
      else if list_ex (\<lambda>b. \<not> (bf_after f < mb_end b \<and> mb_end b \<le> bf_through f)) (oi_bars (fx_data r))
           \<or> list_ex (\<lambda>p. \<not> (bf_after f < np_at p \<and> np_at p \<le> bf_through f)) (oi_native (fx_data r))
      then raise_exn ValueError ''outcome fragment contains a point outside its window''
      else Inr ())"

definition add_fragment :: "'raw disk \<Rightarrow> string \<Rightarrow> outcome_bundle \<Rightarrow> bundle_file \<Rightarrow> indexing \<times> cache \<Rightarrow> (indexing \<times> cache) result" where
  "add_fragment d dir m f s =
     (if bf_name f \<in> set (ix_names (fst s)) then raise_exn ValueError ''duplicate outcome fragment''
      else case load_fragment d dir f (snd s) of
             (Inl e, _) \<Rightarrow> Inl e
           | (Inr r, c) \<Rightarrow>
               and_then (fragment_guard m f r) (\<lambda>_.
               and_then (try_fold (file_key f) (bf_reference_keys f) (ix_references (fst s))) (\<lambda>refs.
               and_then (try_fold (file_key f) (bf_asset_ids f) (ix_natives (fst s))) (\<lambda>nats.
                 Inr (\<lparr>ix_names = ix_names (fst s) @ [bf_name f], ix_references = refs, ix_natives = nats\<rparr>, c)))))"

definition partitioned_reader :: "'raw disk \<Rightarrow> string \<Rightarrow> 'raw result \<Rightarrow> outcome_bundle \<Rightarrow> (partitioned \<times> cache) result" where
  "partitioned_reader d dir proof_file m =
     and_then proof_file (\<lambda>raw.
       if dk_sha256 d raw \<noteq> bn_copy_sha256 m then raise_exn ValueError ''outcome copy manifest hash differs''
       else if \<not> dk_complete d raw then raise_exn ValueError ''outcome source copy is incomplete''
       else and_then (try_fold (add_fragment d dir m) (bn_files m)
              (\<lparr>ix_names = [], ix_references = [], ix_natives = []\<rparr>, [])) (\<lambda>(ix, c).
                Inr (\<lparr>pt_directory = dir, pt_manifest = m, pt_references = ix_references ix,
                      pt_natives = ix_natives ix\<rparr>, c)))"

text \<open>Load every given fragment in turn and collect what \<open>f\<close> takes from it.\<close>

fun collect_fragments ::
    "'raw disk \<Rightarrow> string \<Rightarrow> (fixture \<Rightarrow> 'a list) \<Rightarrow> bundle_file list \<Rightarrow> cache \<Rightarrow> 'a list result \<times> cache" where
  "collect_fragments d dir f [] c = (Inr [], c)"
| "collect_fragments d dir f (x # xs) c =
     (case load_fragment d dir x c of
        (Inl e, c1) \<Rightarrow> (Inl e, c1)
      | (Inr r, c1) \<Rightarrow>
          (case collect_fragments d dir f xs c1 of
             (Inl e, c2) \<Rightarrow> (Inl e, c2)
           | (Inr ys, c2) \<Rightarrow> (Inr (f r @ ys), c2)))"

definition overlapping :: "int \<Rightarrow> int \<Rightarrow> bundle_file list \<Rightarrow> bundle_file list" where
  "overlapping after through = filter (\<lambda>f. bf_after f < through \<and> after < bf_through f)"

definition partitioned_bars ::
    "'raw disk \<Rightarrow> partitioned \<Rightarrow> string \<Rightarrow> int \<Rightarrow> int \<Rightarrow> cache \<Rightarrow> minute_bar list result \<times> cache" where
  "partitioned_bars d p key after through c =
     apfst (map_sum id (sort_key mb_end))
       (collect_fragments d (pt_directory p) (\<lambda>r. fixture_bars r key after through)
          (overlapping after through (filed (pt_references p) key)) c)"

definition partitioned_points ::
    "'raw disk \<Rightarrow> partitioned \<Rightarrow> string \<Rightarrow> int \<Rightarrow> int \<Rightarrow> cache \<Rightarrow> native_point list result \<times> cache" where
  "partitioned_points d p asset after through c =
     apfst (map_sum id (sort_key np_at))
       (collect_fragments d (pt_directory p) (\<lambda>r. fixture_points r asset after through)
          (overlapping after through (filed (pt_natives p) asset)) c)"

definition partitioned_keys :: "partitioned \<Rightarrow> string set" where
  "partitioned_keys p = fst ` set (pt_references p)"

definition partitioned_for_generation :: "input_reference \<Rightarrow> partitioned \<Rightarrow> bool" where
  "partitioned_for_generation inputs p \<longleftrightarrow>
     ir_map_version inputs = bn_map_version (pt_manifest p)
     \<and> bn_after (pt_manifest p) < ir_decision_at inputs \<and> ir_decision_at inputs \<le> bn_through (pt_manifest p)"

section \<open>Joined bundles and readers\<close>

record joined =
  jn_readers :: "partitioned list"
  jn_map_version :: string

text \<open>
  The readers that settlement meets: the three kinds above and any other object with a \<open>bars\<close> method,
  which has neither a map version nor a set of keys.
\<close>

datatype reader =
    Fixture fixture
  | Partitioned partitioned
  | Joined joined
  | Live "string \<Rightarrow> int \<Rightarrow> int \<Rightarrow> minute_bar list result"

definition joined_reader :: "reader list \<Rightarrow> joined result" where
  "joined_reader rs =
     and_then (map_ok (\<lambda>r. case r of Partitioned p \<Rightarrow> Inr p
         | _ \<Rightarrow> raise_exn ValueError ''multiple inputs require window-bound outcome bundles'') rs) (\<lambda>ps.
       Inr \<lparr>jn_readers = ps, jn_map_version = []\<rparr>)"

definition from_readers :: "reader list \<Rightarrow> reader result" where
  "from_readers rs =
     (case rs of
        [] \<Rightarrow> raise_exn ValueError ''at least one offline outcome input is required''
      | [r] \<Rightarrow> Inr r
      | _ \<Rightarrow> and_then (joined_reader rs) (\<lambda>j. Inr (Joined j)))"

definition joined_for_generation :: "input_reference \<Rightarrow> joined \<Rightarrow> joined option" where
  "joined_for_generation inputs j =
     (if \<not> list_ex (partitioned_for_generation inputs) (jn_readers j) then None
      else Some \<lparr>jn_readers = filter (\<lambda>p. bn_map_version (pt_manifest p) = ir_map_version inputs) (jn_readers j),
                 jn_map_version = ir_map_version inputs\<rparr>)"

definition merge_point :: "('a \<Rightarrow> int) \<Rightarrow> string \<Rightarrow> 'a \<Rightarrow> (int \<times> 'a) list \<Rightarrow> (int \<times> 'a) list result" where
  "merge_point time what x pts =
     (if map_of pts (time x) \<noteq> None \<and> map_of pts (time x) \<noteq> Some x
      then raise_exn ValueError (''conflicting archived '' @ what @ '' evidence; select one edition'')
      else Inr (AList.update (time x) x pts))"

fun join_points ::
    "(partitioned \<Rightarrow> cache \<Rightarrow> 'a list result \<times> cache) \<Rightarrow> ('a \<Rightarrow> int) \<Rightarrow> string \<Rightarrow> partitioned list
       \<Rightarrow> (int \<times> 'a) list \<Rightarrow> cache \<Rightarrow> (int \<times> 'a) list result \<times> cache" where
  "join_points fetch time what [] pts c = (Inr pts, c)"
| "join_points fetch time what (p # ps) pts c =
     (case fetch p c of
        (Inl e, c1) \<Rightarrow> (Inl e, c1)
      | (Inr xs, c1) \<Rightarrow>
          (case try_fold (merge_point time what) xs pts of
             Inl e \<Rightarrow> (Inl e, c1)
           | Inr pts' \<Rightarrow> join_points fetch time what ps pts' c1))"

definition joined_bars ::
    "'raw disk \<Rightarrow> joined \<Rightarrow> string \<Rightarrow> int \<Rightarrow> int \<Rightarrow> cache \<Rightarrow> minute_bar list result \<times> cache" where
  "joined_bars d j key after through c =
     apfst (map_sum id (\<lambda>pts. map snd (sort_key fst pts)))
       (join_points (\<lambda>p. partitioned_bars d p key after through) mb_end ''reference'' (jn_readers j) [] c)"

definition joined_points ::
    "'raw disk \<Rightarrow> joined \<Rightarrow> string \<Rightarrow> int \<Rightarrow> int \<Rightarrow> cache \<Rightarrow> native_point list result \<times> cache" where
  "joined_points d j asset after through c =
     apfst (map_sum id (\<lambda>pts. map snd (sort_key fst pts)))
       (join_points (\<lambda>p. partitioned_points d p asset after through) np_at ''native'' (jn_readers j) [] c)"

definition reader_bars ::
    "'raw disk \<Rightarrow> reader \<Rightarrow> string \<Rightarrow> int \<Rightarrow> int \<Rightarrow> cache \<Rightarrow> minute_bar list result \<times> cache" where
  "reader_bars d r key after through c =
     (case r of Fixture f \<Rightarrow> (Inr (fixture_bars f key after through), c)
      | Partitioned p \<Rightarrow> partitioned_bars d p key after through c
      | Joined j \<Rightarrow> joined_bars d j key after through c
      | Live f \<Rightarrow> (f key after through, c))"

definition reader_map_version :: "reader \<Rightarrow> string option" where
  "reader_map_version r =
     (case r of Fixture f \<Rightarrow> Some (fx_map_version f) | Partitioned p \<Rightarrow> Some (bn_map_version (pt_manifest p))
      | Joined j \<Rightarrow> Some (jn_map_version j) | Live _ \<Rightarrow> None)"

definition reader_keys :: "reader \<Rightarrow> string set" where
  "reader_keys r =
     (case r of Fixture f \<Rightarrow> fixture_keys f | Partitioned p \<Rightarrow> partitioned_keys p
      | Joined j \<Rightarrow> \<Union> (set (map partitioned_keys (jn_readers j))) | Live _ \<Rightarrow> {})"

definition reader_for_generation :: "input_reference \<Rightarrow> reader \<Rightarrow> reader option" where
  "reader_for_generation inputs r =
     (case r of Fixture f \<Rightarrow> if fixture_for_generation inputs f then Some r else None
      | Partitioned p \<Rightarrow> if partitioned_for_generation inputs p then Some r else None
      | Joined j \<Rightarrow> map_option Joined (joined_for_generation inputs j)
      | Live _ \<Rightarrow> Some r)"

section \<open>What a reader promises\<close>

text \<open>
  The contract of a source of timed points: within a window it returns the points of one key that it holds, in
  the order of their times, and never two of the same time.
\<close>

definition inside :: "int \<Rightarrow> int \<Rightarrow> int \<Rightarrow> bool" where
  "inside after through t \<longleftrightarrow> after < t \<and> t \<le> through"

lemma window_unique:
  assumes "sorted (map f xs)" and "sorted (map f ys)" and "distinct (map f xs)" and "distinct (map f ys)"
    and "set xs = set ys"
  shows "xs = ys"
  by (rule map_sorted_distinct_set_unique[of f]) (use assms in \<open>auto simp: distinct_map\<close>)

locale window_source =
  fixes ok :: "'s \<Rightarrow> bool" and holds :: "'s \<Rightarrow> 'a list" and ident :: "'a \<Rightarrow> string" and time :: "'a \<Rightarrow> int"
    and fetch :: "'s \<Rightarrow> string \<Rightarrow> int \<Rightarrow> int \<Rightarrow> 'a list result"
  assumes fetched: "ok s \<Longrightarrow> \<exists>xs. fetch s k a t = Inr xs \<and> sorted (map time xs) \<and> distinct (map time xs)
      \<and> set xs = {x \<in> set (holds s). ident x = k \<and> inside a t (time x)}"
begin

lemma fetch_unique:
  assumes "ok s" and "sorted (map time xs)" and "distinct (map time xs)"
    and "set xs = {x \<in> set (holds s). ident x = k \<and> inside a t (time x)}"
  shows "fetch s k a t = Inr xs"
  using fetched[OF assms(1), of k a t] window_unique[of time] assms(2-4) by metis

lemma fetch_split:
  assumes "ok s" and "a \<le> m" and "m \<le> t" and "fetch s k a m = Inr xs" and "fetch s k m t = Inr ys"
  shows "fetch s k a t = Inr (xs @ ys)"
proof (rule fetch_unique[OF assms(1)])
  note xs = fetched[OF assms(1), of k a m] and ys = fetched[OF assms(1), of k m t]
  show "set (xs @ ys) = {x \<in> set (holds s). ident x = k \<and> inside a t (time x)}"
    using xs ys assms(2-5) by (auto simp: inside_def)
  have "time x \<le> m \<and> m < time y" if "x \<in> set xs" "y \<in> set ys" for x y
    using xs ys assms(4,5) that by (auto simp: inside_def)
  then show "sorted (map time (xs @ ys))" "distinct (map time (xs @ ys))"
    using xs ys assms(4,5) by (fastforce simp: sorted_append)+
qed

text \<open>Two sources that hold the same points answer alike.\<close>

lemma fetch_congruent:
  assumes "ok s" and "ok s'" and "set (holds s) = set (holds s')"
  shows "fetch s k a t = fetch s' k a t"
  using fetched[OF assms(1), of k a t] fetch_unique[OF assms(2)] assms(3) by auto

end

section \<open>One input keeps the contract\<close>

lemma get_list_grouped: "get_list (grouped_by key xs) k = filter (\<lambda>x. key x = k) xs"
proof -
  have "get_list (fold (\<lambda>x g. AList.update (key x) (case map_of g (key x) of None \<Rightarrow> [x] | Some ys \<Rightarrow> ys @ [x]) g) xs g) k
      = get_list g k @ filter (\<lambda>x. key x = k) xs" for g
    by (induction xs arbitrary: g) (auto simp: get_list_def update_conv' split: option.splits)
  from this[of "[]"] show ?thesis by (simp add: grouped_by_def get_list_def)
qed

lemma keys_grouped: "fst ` set (grouped_by key xs) = key ` set xs"
proof -
  have "fst ` set (fold (\<lambda>x g. AList.update (key x) (case map_of g (key x) of None \<Rightarrow> [x] | Some ys \<Rightarrow> ys @ [x]) g) xs g)
      = fst ` set g \<union> key ` set xs" for g
    by (induction xs arbitrary: g) (auto simp: dom_update)
  from this[of "[]"] show ?thesis by (simp add: grouped_by_def)
qed

lemma get_list_sorted: "get_list (map (\<lambda>(k, ys). (k, sort_key f ys)) g) k = sort_key f (get_list g k)"
  by (simp add: get_list_def map_of_map split: option.splits)

lemma fixture_bars_eq:
  "fixture_bars (fixture_reader d) k a t
     = filter (\<lambda>b. inside a t (mb_end b)) (sort_key mb_end (filter (\<lambda>b. mb_key b = k) (oi_bars d)))"
  by (simp add: fixture_bars_def fixture_reader_def get_list_sorted get_list_grouped inside_def)

lemma fixture_points_eq:
  "fixture_points (fixture_reader d) k a t
     = filter (\<lambda>p. inside a t (np_at p)) (sort_key np_at (filter (\<lambda>p. np_asset_id p = k) (oi_native d)))"
  by (simp add: fixture_points_def fixture_reader_def get_list_sorted get_list_grouped inside_def)

lemma fixture_key_sets [simp]:
  "fixture_keys (fixture_reader d) = mb_key ` set (oi_bars d)"
  "fst ` set (fx_native (fixture_reader d)) = np_asset_id ` set (oi_native d)"
  "fx_map_version (fixture_reader d) = oi_map_version d" "fx_data (fixture_reader d) = d"
  by (auto simp: fixture_keys_def fixture_reader_def image_image case_prod_unfold keys_grouped)

lemma distinct_times:
  assumes "distinct (map (\<lambda>x. (key x, time x)) xs)"
  shows "distinct (map time (filter (\<lambda>x. key x = k) xs))"
  using assms by (auto simp: distinct_map inj_on_def)

lemma sorted_window:
  assumes "distinct (map time xs)"
  shows "sorted (map time (filter P (sort_key time xs))) \<and> distinct (map time (filter P (sort_key time xs)))"
proof -
  have "distinct (map time (sort_key time xs))"
    using assms by (metis distinct_sort distinct_map set_sort)
  then show ?thesis by (simp add: sorted_map_filter distinct_map_filter)
qed

definition valid_input :: "outcome_input \<Rightarrow> bool" where
  "valid_input d \<longleftrightarrow> check_outcome_input d = Inr ()"

lemma valid_input_distinct:
  assumes "valid_input d"
  shows "distinct (map mb_end (filter (\<lambda>b. mb_key b = k) (oi_bars d)))"
    and "distinct (map np_at (filter (\<lambda>p. np_asset_id p = k) (oi_native d)))"
  using assms
  by (auto simp: valid_input_def check_outcome_input_def and_then_Inr intro!: distinct_times split: if_splits)

interpretation input_bars: window_source valid_input oi_bars mb_key mb_end
    "\<lambda>d k a t. Inr (fixture_bars (fixture_reader d) k a t)"
proof
  fix d k a t
  assume "valid_input d"
  then show "\<exists>xs. Inr (fixture_bars (fixture_reader d) k a t) = (Inr xs :: minute_bar list result) \<and> sorted (map mb_end xs)
      \<and> distinct (map mb_end xs) \<and> set xs = {x \<in> set (oi_bars d). mb_key x = k \<and> inside a t (mb_end x)}"
    using sorted_window[OF valid_input_distinct(1)] by (auto simp: fixture_bars_eq)
qed

interpretation input_points: window_source valid_input oi_native np_asset_id np_at
    "\<lambda>d k a t. Inr (fixture_points (fixture_reader d) k a t)"
proof
  fix d k a t
  assume "valid_input d"
  then show "\<exists>xs. Inr (fixture_points (fixture_reader d) k a t) = (Inr xs :: native_point list result) \<and> sorted (map np_at xs)
      \<and> distinct (map np_at xs) \<and> set xs = {x \<in> set (oi_native d). np_asset_id x = k \<and> inside a t (np_at x)}"
    using sorted_window[OF valid_input_distinct(2)] by (auto simp: fixture_points_eq)
qed

section \<open>The fragment cache is transparent\<close>

text \<open>What a fragment holds when it is read from the disk now, whatever the cache.\<close>

definition fragment_input :: "'raw disk \<Rightarrow> string \<Rightarrow> string \<Rightarrow> outcome_input result" where
  "fragment_input d dir name = and_then (dk_read d dir name) (parse_input d)"

definition cache_ok :: "'raw disk \<Rightarrow> cache \<Rightarrow> bool" where
  "cache_ok d c \<longleftrightarrow> length c \<le> 2
     \<and> list_all (\<lambda>((dir, name), r). \<exists>x. fragment_input d dir name = Inr x \<and> r = fixture_reader x) c"

definition fragment_ok :: "'raw disk \<Rightarrow> string \<Rightarrow> bundle_file \<Rightarrow> bool" where
  "fragment_ok d dir f \<longleftrightarrow> (\<exists>raw. dk_read d dir (bf_name f) = Inr raw \<and> dk_sha256 d raw = bf_sha256 f)
     \<and> (\<exists>x. fragment_input d dir (bf_name f) = Inr x)"

definition fragment_data :: "'raw disk \<Rightarrow> string \<Rightarrow> bundle_file \<Rightarrow> outcome_input" where
  "fragment_data d dir f =
     (case fragment_input d dir (bf_name f) of
        Inr x \<Rightarrow> x | Inl _ \<Rightarrow> \<lparr>oi_map_version = [], oi_bars = [], oi_native = []\<rparr>)"

lemma cache_ok_Nil [simp]: "cache_ok d []"
  by (simp add: cache_ok_def)

lemma cached_fragment:
  assumes "cache_ok d c" and "map_of c (dir, bf_name f) = Some r"
  shows "fragment_input d dir (bf_name f) = Inr (fragment_data d dir f)" and "r = fixture_reader (fragment_data d dir f)"
proof -
  obtain x where "fragment_input d dir (bf_name f) = Inr x" "r = fixture_reader x"
    using assms map_of_SomeD[OF assms(2)] by (auto simp: cache_ok_def list_all_iff)
  then show "fragment_input d dir (bf_name f) = Inr (fragment_data d dir f)" "r = fixture_reader (fragment_data d dir f)"
    by (simp_all add: fragment_data_def)
qed

lemma touched_cache_ok:
  assumes "cache_ok d c" and "map_of c k = Some r"
  shows "cache_ok d (filter (\<lambda>(k', _). k' \<noteq> k) c @ [(k, r)])"
proof -
  have m: "(k, r) \<in> set c" by (rule map_of_SomeD[OF assms(2)])
  then have "length (filter (\<lambda>(k', _). k' \<noteq> k) c) < length c" by (auto intro!: length_filter_less)
  with m assms(1) show ?thesis by (auto simp: cache_ok_def list_all_iff)
qed

lemma stored_cache_ok:
  assumes "cache_ok d c" and "fragment_input d dir n = Inr x"
  shows "cache_ok d (let c' = c @ [((dir, n), fixture_reader x)] in if 2 < length c' then tl c' else c')"
  using assms by (cases c) (auto simp: cache_ok_def Let_def list_all_iff)

text \<open>A load answers from the cache or from the disk, and keeps the cache sound.\<close>

lemma load_keeps_cache:
  assumes "cache_ok d c"
  shows "cache_ok d (snd (load_fragment d dir f c))"
proof (cases "map_of c (dir, bf_name f)")
  case None
  have "fragment_input d dir (bf_name f) = Inr x" if "dk_read d dir (bf_name f) = Inr raw" "parse_input d raw = Inr x"
    for raw x using that by (simp add: fragment_input_def)
  with None assms show ?thesis
    using stored_cache_ok[OF assms] by (auto simp: load_fragment_def Let_def split: sum.splits)
qed (use touched_cache_ok[OF assms] in \<open>simp add: load_fragment_def Let_def\<close>)

lemma load_ok:
  assumes "cache_ok d c" and "fragment_ok d dir f"
  shows "fst (load_fragment d dir f c) = Inr (fixture_reader (fragment_data d dir f))"
proof (cases "map_of c (dir, bf_name f)")
  case None
  with assms(2) show ?thesis
    by (auto simp: load_fragment_def fragment_ok_def fragment_input_def fragment_data_def Let_def split: sum.splits)
qed (use cached_fragment(2)[OF assms(1)] in \<open>auto simp add: load_fragment_def Let_def\<close>)

lemma load_uncached:
  assumes "map_of c (dir, bf_name f) = None" and "load_fragment d dir f c = (Inr r, c')"
  shows "fragment_ok d dir f" and "r = fixture_reader (fragment_data d dir f)"
    and "fst ` set c' \<subseteq> insert (dir, bf_name f) (fst ` set c)"
proof -
  obtain raw x where x: "dk_read d dir (bf_name f) = Inr raw" "dk_sha256 d raw = bf_sha256 f" "parse_input d raw = Inr x"
      "r = fixture_reader x"
      "c' = (let c1 = c @ [((dir, bf_name f), fixture_reader x)] in if 2 < length c1 then tl c1 else c1)"
    using assms by (auto simp: load_fragment_def Let_def split: sum.splits if_splits)
  then show "fragment_ok d dir f" "r = fixture_reader (fragment_data d dir f)"
    by (simp_all add: fragment_ok_def fragment_input_def fragment_data_def)
  show "fst ` set c' \<subseteq> insert (dir, bf_name f) (fst ` set c)"
    using x(5) by (cases c) (auto simp: Let_def)
qed

lemma collect_ok:
  assumes "cache_ok d c" and "list_all (fragment_ok d dir) fs"
  shows "fst (collect_fragments d dir g fs c) = Inr (concat (map (\<lambda>f. g (fixture_reader (fragment_data d dir f))) fs))"
  using assms
proof (induction fs arbitrary: c)
  case (Cons f fs)
  obtain c1 where c1: "load_fragment d dir f c = (Inr (fixture_reader (fragment_data d dir f)), c1)" "cache_ok d c1"
    using load_ok[OF Cons.prems(1), of dir f] load_keeps_cache[OF Cons.prems(1), of dir f] Cons.prems(2)
    by (cases "load_fragment d dir f c") auto
  obtain c2 where "collect_fragments d dir g fs c1
      = (Inr (concat (map (\<lambda>f. g (fixture_reader (fragment_data d dir f))) fs)), c2)"
    using Cons.IH[OF c1(2)] Cons.prems(2) by (cases "collect_fragments d dir g fs c1") auto
  with c1(1) show ?case by simp
qed simp

lemma collect_keeps_cache: "cache_ok d c \<Longrightarrow> cache_ok d (snd (collect_fragments d dir g fs c))"
proof (induction fs arbitrary: c)
  case (Cons f fs)
  have "cache_ok d (snd (load_fragment d dir f c))" using Cons.prems by (rule load_keeps_cache)
  with Cons.IH show ?case by (auto split: prod.splits sum.splits) (metis snd_conv)+
qed simp

section \<open>Fragments form one input\<close>

definition apart :: "bundle_file \<Rightarrow> bundle_file \<Rightarrow> bool" where
  "apart f g \<longleftrightarrow> \<not> (bf_after f < bf_through g \<and> bf_after g < bf_through f)"

text \<open>An index files every fragment under its own keys, in order, and no two of a key overlap.\<close>

definition index_ok :: "(bundle_file \<Rightarrow> string list) \<Rightarrow> bundle_file list \<Rightarrow> (string \<times> bundle_file) list \<Rightarrow> bool" where
  "index_ok keys fs idx \<longleftrightarrow>
     (\<forall>k. filed idx k = filter (\<lambda>f. k \<in> set (keys f)) fs \<and> sorted_wrt apart (filed idx k))"

lemma filed_append [simp]: "filed (idx @ idx') k = filed idx k @ filed idx' k"
  by (simp add: filed_def)

lemma file_keys:
  assumes "try_fold (file_key f) ks idx = Inr idx'" and "bf_after f < bf_through f"
  shows "filed idx' k = filed idx k @ (if k \<in> set ks then [f] else [])
    \<and> (k \<in> set ks \<longrightarrow> list_all (\<lambda>old. apart old f) (filed idx k))"
  using assms(1)
proof (induction ks arbitrary: idx)
  case (Cons x ks)
  obtain t where t: "file_key f x idx = Inr t" "try_fold (file_key f) ks t = Inr idx'"
    using Cons.prems by (auto split: sum.splits)
  then have first: "\<not> list_ex (\<lambda>old. bf_after old < bf_through f \<and> bf_after f < bf_through old) (filed idx x)"
    and rest: "try_fold (file_key f) ks (idx @ [(x, f)]) = Inr idx'"
    by (auto simp: file_key_def split: if_split_asm)
  have k: "filed (idx @ [(x, f)]) k = filed idx k @ (if x = k then [f] else [])" by (simp add: filed_def)
  have "x \<notin> set ks" if "x = k"
  proof
    assume "x \<in> set ks"
    with Cons.IH[OF rest] that k have "apart f f" by simp
    with assms(2) show False by (simp add: apart_def)
  qed
  then show ?case using Cons.IH[OF rest] first k
    by (auto simp: apart_def list_all_iff list_ex_iff)
qed simp

lemma index_ok_extend:
  assumes "index_ok keys fs idx" and "try_fold (file_key f) (keys f) idx = Inr idx'" and "bf_after f < bf_through f"
  shows "index_ok keys (fs @ [f]) idx'"
  unfolding index_ok_def
proof
  fix k
  have "filed idx k = filter (\<lambda>f. k \<in> set (keys f)) fs" "sorted_wrt apart (filed idx k)"
    using assms(1) unfolding index_ok_def by blast+
  then show "filed idx' k = filter (\<lambda>f. k \<in> set (keys f)) (fs @ [f]) \<and> sorted_wrt apart (filed idx' k)"
    using file_keys[OF assms(2,3), of k] by (simp add: sorted_wrt_append list_all_iff)
qed

definition reader_invariant ::
    "'raw disk \<Rightarrow> string \<Rightarrow> outcome_bundle \<Rightarrow> bundle_file list \<Rightarrow> indexing \<times> cache \<Rightarrow> bool" where
  "reader_invariant d dir m fs s \<longleftrightarrow>
     ix_names (fst s) = map bf_name fs \<and> distinct (map bf_name fs)
     \<and> list_all (\<lambda>f. fragment_ok d dir f \<and> fragment_guard m f (fixture_reader (fragment_data d dir f)) = Inr ()) fs
     \<and> index_ok bf_reference_keys fs (ix_references (fst s)) \<and> index_ok bf_asset_ids fs (ix_natives (fst s))
     \<and> cache_ok d (snd s) \<and> fst ` set (snd s) \<subseteq> Pair dir ` bf_name ` set fs"

lemma add_fragment_step:
  assumes "reader_invariant d dir m fs s" and "add_fragment d dir m f s = Inr s'"
  shows "reader_invariant d dir m (fs @ [f]) s'"
proof -
  obtain r c refs nats where new: "bf_name f \<notin> set (map bf_name fs)"
    and load: "load_fragment d dir f (snd s) = (Inr r, c)" and guard: "fragment_guard m f r = Inr ()"
    and refs: "try_fold (file_key f) (bf_reference_keys f) (ix_references (fst s)) = Inr refs"
    and nats: "try_fold (file_key f) (bf_asset_ids f) (ix_natives (fst s)) = Inr nats"
    and s': "s' = (\<lparr>ix_names = ix_names (fst s) @ [bf_name f], ix_references = refs, ix_natives = nats\<rparr>, c)"
    using assms by (auto simp: add_fragment_def reader_invariant_def and_then_Inr split: if_splits prod.splits sum.splits)
  have "(dir, bf_name f) \<notin> fst ` set (snd s)" using assms(1) new by (auto simp: reader_invariant_def)
  then have "map_of (snd s) (dir, bf_name f) = None" by (simp only: map_of_eq_None_iff not_False_eq_True)
  note loaded = load_uncached[OF this load]
  have "bf_after f < bf_through f" using guard by (auto simp: fragment_guard_def split: if_splits)
  then have "index_ok bf_reference_keys (fs @ [f]) refs" "index_ok bf_asset_ids (fs @ [f]) nats"
    using index_ok_extend refs nats assms(1) by (auto simp: reader_invariant_def)
  moreover have "cache_ok d c" using load_keeps_cache[of d "snd s" dir f] load assms(1) by (simp add: reader_invariant_def)
  moreover have "fst ` set c \<subseteq> Pair dir ` bf_name ` set (fs @ [f])"
  proof -
    have "fst ` set (snd s) \<subseteq> Pair dir ` bf_name ` set fs" using assms(1) by (simp add: reader_invariant_def)
    then have "insert (dir, bf_name f) (fst ` set (snd s)) \<subseteq> Pair dir ` bf_name ` set (fs @ [f])"
      by (simp add: insert_mono subset_insertI2)
    with loaded(3) show ?thesis by (rule subset_trans)
  qed
  moreover have "distinct (map bf_name (fs @ [f]))" "ix_names (fst s) = map bf_name fs"
      "list_all (\<lambda>f. fragment_ok d dir f \<and> fragment_guard m f (fixture_reader (fragment_data d dir f)) = Inr ()) (fs @ [f])"
    using assms(1) new guard loaded(1,2) by (auto simp: reader_invariant_def)
  ultimately show ?thesis by (simp only: reader_invariant_def s' fst_conv snd_conv indexing.simps map_append list.map simp_thms)
qed

lemma add_fragments:
  "try_fold (add_fragment d dir m) fs s = Inr s' \<Longrightarrow> reader_invariant d dir m done_fs s
     \<Longrightarrow> reader_invariant d dir m (done_fs @ fs) s'"
proof (induction fs arbitrary: s done_fs)
  case (Cons f fs)
  obtain t where t: "add_fragment d dir m f s = Inr t" "try_fold (add_fragment d dir m) fs t = Inr s'"
    using Cons.prems(1) by (auto split: sum.splits)
  from Cons.IH[OF t(2) add_fragment_step[OF Cons.prems(2) t(1)]] show ?case by simp
qed simp

text \<open>What construction establishes and every call keeps.\<close>

definition reader_ok :: "'raw disk \<Rightarrow> partitioned \<Rightarrow> bool" where
  "reader_ok d p \<longleftrightarrow>
     list_all (\<lambda>f. fragment_ok d (pt_directory p) f
        \<and> fragment_guard (pt_manifest p) f (fixture_reader (fragment_data d (pt_directory p) f)) = Inr ())
       (bn_files (pt_manifest p))
     \<and> index_ok bf_reference_keys (bn_files (pt_manifest p)) (pt_references p)
     \<and> index_ok bf_asset_ids (bn_files (pt_manifest p)) (pt_natives p)"

lemma partitioned_reader_ok:
  assumes "partitioned_reader d dir proof_file m = Inr (p, c)"
  shows "reader_ok d p" and "cache_ok d c" and "pt_manifest p = m" and "pt_directory p = dir"
proof -
  obtain ix where ix: "try_fold (add_fragment d dir m) (bn_files m)
        (\<lparr>ix_names = [], ix_references = [], ix_natives = []\<rparr>, []) = Inr (ix, c)"
      "p = \<lparr>pt_directory = dir, pt_manifest = m, pt_references = ix_references ix, pt_natives = ix_natives ix\<rparr>"
    using assms by (auto simp: partitioned_reader_def and_then_Inr split: if_splits)
  have "reader_invariant d dir m [] (\<lparr>ix_names = [], ix_references = [], ix_natives = []\<rparr>, [])"
    by (simp add: reader_invariant_def index_ok_def filed_def)
  from add_fragments[OF ix(1) this]
  show "reader_ok d p" "cache_ok d c" "pt_manifest p = m" "pt_directory p = dir"
    by (auto simp: reader_invariant_def reader_ok_def ix(2))
qed

definition merged_input :: "'raw disk \<Rightarrow> partitioned \<Rightarrow> outcome_input" where
  "merged_input d p =
     (let data = map (fragment_data d (pt_directory p)) (bn_files (pt_manifest p))
      in \<lparr>oi_map_version = bn_map_version (pt_manifest p),
          oi_bars = concat (map oi_bars data), oi_native = concat (map oi_native data)\<rparr>)"

lemma apart_distinct:
  assumes "sorted_wrt apart fs"
    and "\<And>f. f \<in> set fs \<Longrightarrow> distinct (map time (g f)) \<and> (\<forall>x\<in>set (g f). bf_after f < time x \<and> time x \<le> bf_through f)"
  shows "distinct (map time (concat (map g fs)))"
  using assms
proof (induction fs)
  case (Cons f fs)
  have "time x \<noteq> time y" if "x \<in> set (g f)" "h \<in> set fs" "y \<in> set (g h)" for x y h
  proof -
    have "bf_after f < time x" "time x \<le> bf_through f" "bf_after h < time y" "time y \<le> bf_through h" "apart f h"
      using that Cons.prems by auto
    then show ?thesis by (auto simp: apart_def)
  qed
  then have "time ` set (g f) \<inter> time ` set (concat (map g fs)) = {}" by auto
  with Cons show ?case by (simp add: image_Union image_image)
qed simp

lemma distinct_pairs:
  "(\<And>k. distinct (map time (filter (\<lambda>x. ident x = k) xs))) \<Longrightarrow> distinct (map (\<lambda>x. (ident x, time x)) xs)"
proof (induction xs)
  case (Cons x xs)
  have "distinct (map time (filter (\<lambda>y. ident y = k) xs))" for k
    using Cons.prems[of k] by (simp split: if_splits)
  with Cons.IH have "distinct (map (\<lambda>x. (ident x, time x)) xs)" by blast
  moreover have "(ident x, time x) \<notin> (\<lambda>x. (ident x, time x)) ` set xs"
    using Cons.prems[of "ident x"] by auto
  ultimately show ?case by simp
qed simp

text \<open>The points of indexed fragments: read window by window, or all together.\<close>

lemma indexed_points:
  fixes a t :: int
  assumes idx: "index_ok keys fs idx"
    and own: "\<And>f x. f \<in> set fs \<Longrightarrow> x \<in> set (items f) \<Longrightarrow>
        ident x \<in> set (keys f) \<and> bf_after f < time x \<and> time x \<le> bf_through f"
    and dist: "\<And>f. f \<in> set fs \<Longrightarrow> distinct (map time (filter (\<lambda>x. ident x = k) (items f)))"
  defines "part f \<equiv> filter (\<lambda>x. inside a t (time x)) (sort_key time (filter (\<lambda>x. ident x = k) (items f)))"
  shows "set (concat (map part (overlapping a t (filed idx k))))
        = {x \<in> set (concat (map items fs)). ident x = k \<and> inside a t (time x)}"
    and "distinct (map time (concat (map part (overlapping a t (filed idx k)))))"
    and "distinct (map time (filter (\<lambda>x. ident x = k) (concat (map items fs))))"
proof -
  have filed: "filed idx k = filter (\<lambda>f. k \<in> set (keys f)) fs" and ap: "sorted_wrt apart (filed idx k)"
    using idx unfolding index_ok_def by blast+
  have mem: "f \<in> set (filed idx k) \<longleftrightarrow> f \<in> set fs \<and> k \<in> set (keys f)" for f by (auto simp: filed)
  show "set (concat (map part (overlapping a t (filed idx k))))
        = {x \<in> set (concat (map items fs)). ident x = k \<and> inside a t (time x)}"
  proof (intro set_eqI iffI)
    fix x
    assume "x \<in> {x \<in> set (concat (map items fs)). ident x = k \<and> inside a t (time x)}"
    then obtain f where f: "f \<in> set fs" "x \<in> set (items f)" "ident x = k" "inside a t (time x)" by auto
    with own[OF f(1,2)] have "f \<in> set (overlapping a t (filed idx k))"
      by (auto simp: overlapping_def mem inside_def)
    with f show "x \<in> set (concat (map part (overlapping a t (filed idx k))))" by (auto simp: part_def)
  qed (auto simp: overlapping_def mem part_def)
  have part: "distinct (map time (part f)) \<and> (\<forall>x\<in>set (part f). bf_after f < time x \<and> time x \<le> bf_through f)"
    if "f \<in> set (overlapping a t (filed idx k))" for f
    using that own dist[of f] sorted_window[OF dist, of f] by (auto simp: overlapping_def mem part_def)
  show "distinct (map time (concat (map part (overlapping a t (filed idx k)))))"
    using ap part by (intro apart_distinct) (auto simp: overlapping_def sorted_wrt_filter)
  have none: "filter (\<lambda>x. ident x = k) (items f) = []" if "f \<in> set fs" "k \<notin> set (keys f)" for f
    using own that by (auto simp: filter_empty_conv)
  have "filter (\<lambda>x. ident x = k) (concat (map items gs))
      = concat (map (\<lambda>f. filter (\<lambda>x. ident x = k) (items f)) (filter (\<lambda>f. k \<in> set (keys f)) gs))"
    if "set gs \<subseteq> set fs" for gs
    using that by (induction gs) (auto simp: none)
  from this[of fs] have "filter (\<lambda>x. ident x = k) (concat (map items fs))
      = concat (map (\<lambda>f. filter (\<lambda>x. ident x = k) (items f)) (filed idx k))" by (simp add: filed)
  then show "distinct (map time (filter (\<lambda>x. ident x = k) (concat (map items fs))))"
    using apart_distinct[OF ap, of time "\<lambda>f. filter (\<lambda>x. ident x = k) (items f)"] own dist by (simp add: mem)
qed

lemma parsed_valid: "fragment_input d dir n = Inr x \<Longrightarrow> valid_input x"
  by (auto simp: fragment_input_def parse_input_def and_then_Inr build_Inr valid_input_def)

lemma fragment_facts:
  assumes "fragment_ok d dir f" and "fragment_guard m f (fixture_reader (fragment_data d dir f)) = Inr ()"
  shows "valid_input (fragment_data d dir f)"
    and "b \<in> set (oi_bars (fragment_data d dir f)) \<Longrightarrow>
      mb_key b \<in> set (bf_reference_keys f) \<and> bf_after f < mb_end b \<and> mb_end b \<le> bf_through f"
    and "q \<in> set (oi_native (fragment_data d dir f)) \<Longrightarrow>
      np_asset_id q \<in> set (bf_asset_ids f) \<and> bf_after f < np_at q \<and> np_at q \<le> bf_through f"
proof -
  obtain x where "fragment_input d dir (bf_name f) = Inr x" using assms(1) by (auto simp: fragment_ok_def)
  then show "valid_input (fragment_data d dir f)" by (simp add: fragment_data_def parsed_valid)
  have g: "mb_key ` set (oi_bars (fragment_data d dir f)) = set (bf_reference_keys f)"
      "np_asset_id ` set (oi_native (fragment_data d dir f)) = set (bf_asset_ids f)"
      "\<forall>b\<in>set (oi_bars (fragment_data d dir f)). bf_after f < mb_end b \<and> mb_end b \<le> bf_through f"
      "\<forall>p\<in>set (oi_native (fragment_data d dir f)). bf_after f < np_at p \<and> np_at p \<le> bf_through f"
    using assms(2) unfolding fragment_guard_def fixture_key_sets by (auto simp: list_ex_iff split: if_splits)
  show "b \<in> set (oi_bars (fragment_data d dir f)) \<Longrightarrow>
      mb_key b \<in> set (bf_reference_keys f) \<and> bf_after f < mb_end b \<and> mb_end b \<le> bf_through f"
    using g(1,3) by blast
  show "q \<in> set (oi_native (fragment_data d dir f)) \<Longrightarrow>
      np_asset_id q \<in> set (bf_asset_ids f) \<and> bf_after f < np_at q \<and> np_at q \<le> bf_through f"
    using g(2,4) by blast
qed

lemma valid_input_parts:
  "valid_input x \<longleftrightarrow> list_all (\<lambda>b. valid_bar b = Inr ()) (oi_bars x) \<and> list_all (\<lambda>p. check_native_point p = Inr ()) (oi_native x)
     \<and> distinct (map (\<lambda>b. (mb_key b, mb_end b)) (oi_bars x)) \<and> distinct (map (\<lambda>p. (np_asset_id p, np_at p)) (oi_native x))
     \<and> (\<forall>p\<in>set (oi_native x). np_at p mod attention_minute = 0)"
  by (auto simp: valid_input_def check_outcome_input_def and_then_Inr first_error_Inr_all list_all_iff list_ex_iff)

lemma fragments_ok:
  assumes ok: "reader_ok d p"
  shows "list_all (fragment_ok d (pt_directory p)) (bn_files (pt_manifest p))"
  using ok by (auto simp: reader_ok_def list_all_iff)

lemma fragment_of:
  assumes ok: "reader_ok d p" and f: "f \<in> set (bn_files (pt_manifest p))"
  shows "valid_input (fragment_data d (pt_directory p) f)"
    and "b \<in> set (oi_bars (fragment_data d (pt_directory p) f)) \<Longrightarrow>
      mb_key b \<in> set (bf_reference_keys f) \<and> bf_after f < mb_end b \<and> mb_end b \<le> bf_through f"
    and "q \<in> set (oi_native (fragment_data d (pt_directory p) f)) \<Longrightarrow>
      np_asset_id q \<in> set (bf_asset_ids f) \<and> bf_after f < np_at q \<and> np_at q \<le> bf_through f"
proof -
  have "fragment_ok d (pt_directory p) f"
      "fragment_guard (pt_manifest p) f (fixture_reader (fragment_data d (pt_directory p) f)) = Inr ()"
    using ok f by (auto simp: reader_ok_def list_all_iff)
  note facts = fragment_facts[OF this]
  show "valid_input (fragment_data d (pt_directory p) f)" by (rule facts(1))
  show "b \<in> set (oi_bars (fragment_data d (pt_directory p) f)) \<Longrightarrow>
      mb_key b \<in> set (bf_reference_keys f) \<and> bf_after f < mb_end b \<and> mb_end b \<le> bf_through f" by (rule facts(2))
  show "q \<in> set (oi_native (fragment_data d (pt_directory p) f)) \<Longrightarrow>
      np_asset_id q \<in> set (bf_asset_ids f) \<and> bf_after f < np_at q \<and> np_at q \<le> bf_through f" by (rule facts(3))
qed

lemma bars_of_fragments:
  fixes a t :: int
  assumes ok: "reader_ok d p"
  defines "part k f \<equiv> fixture_bars (fixture_reader (fragment_data d (pt_directory p) f)) k a t"
  shows "set (concat (map (part k) (overlapping a t (filed (pt_references p) k))))
        = {b \<in> set (oi_bars (merged_input d p)). mb_key b = k \<and> inside a t (mb_end b)}"
    and "distinct (map mb_end (concat (map (part k) (overlapping a t (filed (pt_references p) k)))))"
    and "distinct (map mb_end (filter (\<lambda>b. mb_key b = k) (oi_bars (merged_input d p))))"
proof -
  have "index_ok bf_reference_keys (bn_files (pt_manifest p)) (pt_references p)" using ok by (simp add: reader_ok_def)
  note points = indexed_points(1,2)[OF this, of "\<lambda>f. oi_bars (fragment_data d (pt_directory p) f)" mb_key mb_end k a t,
      OF fragment_of(2)[OF ok] valid_input_distinct(1)[OF fragment_of(1)[OF ok]]]
    indexed_points(3)[OF this, of "\<lambda>f. oi_bars (fragment_data d (pt_directory p) f)" mb_key mb_end k,
      OF fragment_of(2)[OF ok] valid_input_distinct(1)[OF fragment_of(1)[OF ok]]]
  show "set (concat (map (part k) (overlapping a t (filed (pt_references p) k))))
        = {b \<in> set (oi_bars (merged_input d p)). mb_key b = k \<and> inside a t (mb_end b)}"
    using points(1) by (simp add: part_def fixture_bars_eq merged_input_def comp_def)
  show "distinct (map mb_end (concat (map (part k) (overlapping a t (filed (pt_references p) k)))))"
    using points(2) by (simp add: part_def[abs_def] fixture_bars_eq)
  show "distinct (map mb_end (filter (\<lambda>b. mb_key b = k) (oi_bars (merged_input d p))))"
    using points(3) by (simp add: merged_input_def comp_def)
qed

lemma points_of_fragments:
  fixes a t :: int
  assumes ok: "reader_ok d p"
  defines "part k f \<equiv> fixture_points (fixture_reader (fragment_data d (pt_directory p) f)) k a t"
  shows "set (concat (map (part k) (overlapping a t (filed (pt_natives p) k))))
        = {q \<in> set (oi_native (merged_input d p)). np_asset_id q = k \<and> inside a t (np_at q)}"
    and "distinct (map np_at (concat (map (part k) (overlapping a t (filed (pt_natives p) k)))))"
    and "distinct (map np_at (filter (\<lambda>q. np_asset_id q = k) (oi_native (merged_input d p))))"
proof -
  have "index_ok bf_asset_ids (bn_files (pt_manifest p)) (pt_natives p)" using ok by (simp add: reader_ok_def)
  note points = indexed_points(1,2)[OF this, of "\<lambda>f. oi_native (fragment_data d (pt_directory p) f)" np_asset_id np_at k a t,
      OF fragment_of(3)[OF ok] valid_input_distinct(2)[OF fragment_of(1)[OF ok]]]
    indexed_points(3)[OF this, of "\<lambda>f. oi_native (fragment_data d (pt_directory p) f)" np_asset_id np_at k,
      OF fragment_of(3)[OF ok] valid_input_distinct(2)[OF fragment_of(1)[OF ok]]]
  show "set (concat (map (part k) (overlapping a t (filed (pt_natives p) k))))
        = {q \<in> set (oi_native (merged_input d p)). np_asset_id q = k \<and> inside a t (np_at q)}"
    using points(1) by (simp add: part_def fixture_points_eq merged_input_def comp_def)
  show "distinct (map np_at (concat (map (part k) (overlapping a t (filed (pt_natives p) k)))))"
    using points(2) by (simp add: part_def[abs_def] fixture_points_eq)
  show "distinct (map np_at (filter (\<lambda>q. np_asset_id q = k) (oi_native (merged_input d p))))"
    using points(3) by (simp add: merged_input_def comp_def)
qed

lemma merged_valid:
  assumes ok: "reader_ok d p"
  shows "valid_input (merged_input d p)"
proof -
  have all: "valid_bar b = Inr ()" if "b \<in> set (oi_bars (merged_input d p))" for b
    using that fragment_of(1)[OF ok] by (fastforce simp: merged_input_def valid_input_parts list_all_iff)
  have pts: "check_native_point q = Inr () \<and> np_at q mod attention_minute = 0" if "q \<in> set (oi_native (merged_input d p))" for q
    using that fragment_of(1)[OF ok] by (fastforce simp: merged_input_def valid_input_parts list_all_iff)
  show ?thesis using all pts distinct_pairs[OF bars_of_fragments(3)[OF ok]] distinct_pairs[OF points_of_fragments(3)[OF ok]]
    by (simp add: valid_input_parts list_all_iff)
qed

lemma filed_ok:
  assumes ok: "reader_ok d p" and "idx = pt_references p \<or> idx = pt_natives p"
  shows "list_all (fragment_ok d (pt_directory p)) (overlapping a t (filed idx k))"
proof -
  have "set (filed idx k) \<subseteq> set (bn_files (pt_manifest p))"
    using assms unfolding reader_ok_def index_ok_def by auto
  then show ?thesis using fragments_ok[OF ok] by (auto simp: list_all_iff overlapping_def)
qed

lemma apfst_map_sum [simp]: "fst (apfst (map_sum id g) x) = map_sum id g (fst x)"
  by (cases x) simp

lemma partitioned_cache:
  assumes "cache_ok d c"
  shows "cache_ok d (snd (partitioned_bars d p k a t c))" and "cache_ok d (snd (partitioned_points d p k a t c))"
  using assms by (simp_all add: partitioned_bars_def partitioned_points_def collect_keeps_cache)

lemma sorted_sort_key_distinct:
  "distinct (map f xs) \<Longrightarrow> sorted (map f (sort_key f xs)) \<and> distinct (map f (sort_key f xs)) \<and> set (sort_key f xs) = set xs"
  using sorted_window[of f xs "\<lambda>_. True"] by simp

interpretation bundle_bars: window_source "\<lambda>(d, p, c). reader_ok d p \<and> cache_ok d c"
    "\<lambda>(d, p, c). oi_bars (merged_input d p)" mb_key mb_end "\<lambda>(d, p, c) k a t. fst (partitioned_bars d p k a t c)"
proof
  fix s :: "'raw disk \<times> partitioned \<times> cache" and k a t
  obtain d p c where s: "s = (d, p, c)" by (cases s)
  assume "case s of (d, p, c) \<Rightarrow> reader_ok d p \<and> cache_ok d c"
  then have ok: "reader_ok d p" "cache_ok d c" by (simp_all add: s)
  show "\<exists>xs. (case s of (d, p, c) \<Rightarrow> \<lambda>k a t. fst (partitioned_bars d p k a t c)) k a t = Inr xs
      \<and> sorted (map mb_end xs) \<and> distinct (map mb_end xs)
      \<and> set xs = {x \<in> set (case s of (d, p, c) \<Rightarrow> oi_bars (merged_input d p)). mb_key x = k \<and> inside a t (mb_end x)}"
    using bars_of_fragments(1)[OF ok(1), of k a t] sorted_sort_key_distinct[OF bars_of_fragments(2)[OF ok(1), of k a t]]
    by (simp add: s partitioned_bars_def collect_ok[OF ok(2) filed_ok[OF ok(1) disjI1[OF refl]]])
qed

interpretation bundle_points: window_source "\<lambda>(d, p, c). reader_ok d p \<and> cache_ok d c"
    "\<lambda>(d, p, c). oi_native (merged_input d p)" np_asset_id np_at "\<lambda>(d, p, c) k a t. fst (partitioned_points d p k a t c)"
proof
  fix s :: "'raw disk \<times> partitioned \<times> cache" and k a t
  obtain d p c where s: "s = (d, p, c)" by (cases s)
  assume "case s of (d, p, c) \<Rightarrow> reader_ok d p \<and> cache_ok d c"
  then have ok: "reader_ok d p" "cache_ok d c" by (simp_all add: s)
  show "\<exists>xs. (case s of (d, p, c) \<Rightarrow> \<lambda>k a t. fst (partitioned_points d p k a t c)) k a t = Inr xs
      \<and> sorted (map np_at xs) \<and> distinct (map np_at xs)
      \<and> set xs = {x \<in> set (case s of (d, p, c) \<Rightarrow> oi_native (merged_input d p)). np_asset_id x = k \<and> inside a t (np_at x)}"
    using points_of_fragments(1)[OF ok(1), of k a t] sorted_sort_key_distinct[OF points_of_fragments(2)[OF ok(1), of k a t]]
    by (simp add: s partitioned_points_def collect_ok[OF ok(2) filed_ok[OF ok(1) disjI2[OF refl]]])
qed

lemma partitioned_is_merged:
  assumes "reader_ok d p" and "cache_ok d c"
  shows "fst (partitioned_bars d p k a t c) = Inr (fixture_bars (fixture_reader (merged_input d p)) k a t)"
    and "fst (partitioned_points d p k a t c) = Inr (fixture_points (fixture_reader (merged_input d p)) k a t)"
  using bundle_bars.fetch_unique[of "(d, p, c)"] input_bars.fetched[OF merged_valid[OF assms(1)], of k a t]
    bundle_points.fetch_unique[of "(d, p, c)"] input_points.fetched[OF merged_valid[OF assms(1)], of k a t] assms
  by auto

text \<open>A settlement asks a reader one question after another.\<close>

datatype request = BarsFor string int int | PointsFor string int int

datatype answer = Bars "minute_bar list result" | Points "native_point list result"

fun ask_bundle :: "'raw disk \<Rightarrow> partitioned \<Rightarrow> request list \<Rightarrow> cache \<Rightarrow> answer list \<times> cache" where
  "ask_bundle d p [] c = ([], c)"
| "ask_bundle d p (BarsFor k a t # qs) c =
     (let (r, c') = partitioned_bars d p k a t c in apfst (Cons (Bars r)) (ask_bundle d p qs c'))"
| "ask_bundle d p (PointsFor k a t # qs) c =
     (let (r, c') = partitioned_points d p k a t c in apfst (Cons (Points r)) (ask_bundle d p qs c'))"

fun ask_input :: "outcome_input \<Rightarrow> request \<Rightarrow> answer" where
  "ask_input x (BarsFor k a t) = Bars (Inr (fixture_bars (fixture_reader x) k a t))"
| "ask_input x (PointsFor k a t) = Points (Inr (fixture_points (fixture_reader x) k a t))"

lemma asked_bundle:
  "reader_ok d p \<Longrightarrow> cache_ok d c \<Longrightarrow>
   fst (ask_bundle d p qs c) = map (ask_input (merged_input d p)) qs \<and> cache_ok d (snd (ask_bundle d p qs c))"
proof (induction qs arbitrary: c)
  case (Cons q qs)
  show ?case
  proof (cases q)
    case (BarsFor k a t)
    obtain r c' where r: "partitioned_bars d p k a t c = (r, c')" by fastforce
    with Cons.IH[of c'] Cons.prems partitioned_is_merged(1)[of d p c k a t] partitioned_cache(1)[of d c p k a t]
    show ?thesis by (simp add: BarsFor)
  next
    case (PointsFor k a t)
    obtain r c' where r: "partitioned_points d p k a t c = (r, c')" by fastforce
    with Cons.IH[of c'] Cons.prems partitioned_is_merged(2)[of d p c k a t] partitioned_cache(2)[of d c p k a t]
    show ?thesis by (simp add: PointsFor)
  qed
qed simp

text \<open>
  C13. The fragments of an accepted bundle form one input.  The union of the bars and points of its fragments is
  itself a valid input, and whatever is asked of the reader, in any order and with files read again as the cache of
  two forgets them, the answers are those of a reader holding that one input in memory.  Pruning the fragments by their
  windows loses nothing.
\<close>

theorem fragments_form_one_input:
  assumes "partitioned_reader d dir proof_file m = Inr (p, c)"
  shows "check_outcome_input (merged_input d p) = Inr ()
    \<and> fst (ask_bundle d p qs c) = map (ask_input (merged_input d p)) qs \<and> length (snd (ask_bundle d p qs c)) \<le> 2"
  using partitioned_reader_ok[OF assms] asked_bundle[of d p c qs] merged_valid[of d p]
  by (simp add: valid_input_def cache_ok_def)

section \<open>Joined bundles\<close>

text \<open>A dictionary from times to points: distinct times, every point under its own.\<close>

definition keyed :: "('a \<Rightarrow> int) \<Rightarrow> (int \<times> 'a) list \<Rightarrow> bool" where
  "keyed time pts \<longleftrightarrow> distinct (map fst pts) \<and> (\<forall>p\<in>set pts. fst p = time (snd p))"

definition agree :: "('a \<Rightarrow> int) \<Rightarrow> 'a set \<Rightarrow> bool" where
  "agree time S \<longleftrightarrow> (\<forall>x\<in>S. \<forall>y\<in>S. time x = time y \<longrightarrow> x = y)"

lemma agree_subset: "agree time S \<Longrightarrow> T \<subseteq> S \<Longrightarrow> agree time T"
  by (auto simp: agree_def)

lemma merge_keeps_keyed:
  assumes "keyed time pts" and "merge_point time what x pts = Inr pts'"
  shows "keyed time pts' \<and> snd ` set pts' = insert x (snd ` set pts)"
proof -
  have m: "map_of pts (time x) = None \<or> map_of pts (time x) = Some x" and p: "pts' = AList.update (time x) x pts"
    using assms(2) by (auto simp: merge_point_def split: if_splits)
  show ?thesis
  proof (cases "map_of pts (time x)")
    case None
    then have "time x \<notin> fst ` set pts" by (simp add: map_of_eq_None_iff)
    then have "AList.update (time x) x pts = pts @ [(time x, x)]" by (induction pts) auto
    then show ?thesis using assms(1) \<open>time x \<notin> fst ` set pts\<close> p by (auto simp: keyed_def)
  next
    case (Some y)
    with m have y: "map_of pts (time x) = Some x" by simp
    then have "(time x, x) \<in> set pts" by (rule map_of_SomeD)
    moreover have "AList.update (time x) x pts = pts" using y by (rule update_triv)
    ultimately show ?thesis using assms(1) p by force
  qed
qed

lemma keyed_Nil: "keyed time []"
  by (simp add: keyed_def)

lemma merge_agreeing:
  assumes "keyed time pts" and "agree time (insert x (snd ` set pts))"
  shows "\<exists>pts'. merge_point time what x pts = Inr pts'"
proof -
  have "map_of pts (time x) = None \<or> map_of pts (time x) = Some x"
  proof (cases "map_of pts (time x)")
    case (Some y)
    then have "(time x, y) \<in> set pts" by (rule map_of_SomeD)
    then have "time y = time x" "y \<in> snd ` set pts" using assms(1) by (force simp: keyed_def)+
    then show ?thesis using assms(2) Some by (auto simp: agree_def)
  qed simp
  then show ?thesis by (auto simp: merge_point_def)
qed

lemma merge_all:
  assumes "keyed time pts" and "agree time (set xs \<union> snd ` set pts)"
  shows "\<exists>pts'. try_fold (merge_point time what) xs pts = Inr pts' \<and> keyed time pts'
    \<and> snd ` set pts' = set xs \<union> snd ` set pts"
  using assms
proof (induction xs arbitrary: pts)
  case (Cons x xs)
  have "agree time (insert x (snd ` set pts))" using Cons.prems(2) by (rule agree_subset) auto
  then obtain pts1 where p: "merge_point time what x pts = Inr pts1" using merge_agreeing[OF Cons.prems(1)] by blast
  note k = merge_keeps_keyed[OF Cons.prems(1) p]
  have "agree time (set xs \<union> snd ` set pts1)" using Cons.prems(2) k by simp
  from Cons.IH[OF conjunct1[OF k] this] p k show ?case by auto
qed simp

lemma merge_accepts:
  "try_fold (merge_point time what) xs pts = Inr pts' \<Longrightarrow> keyed time pts \<Longrightarrow>
     keyed time pts' \<and> snd ` set pts' = set xs \<union> snd ` set pts"
proof (induction xs arbitrary: pts)
  case (Cons x xs)
  obtain pts1 where p: "merge_point time what x pts = Inr pts1" "try_fold (merge_point time what) xs pts1 = Inr pts'"
    using Cons.prems(1) by (auto split: sum.splits)
  note k = merge_keeps_keyed[OF Cons.prems(2) p(1)]
  from Cons.IH[OF p(2) conjunct1[OF k]] k show ?case by auto
qed simp

lemma keyed_agree: "keyed time pts \<Longrightarrow> agree time (snd ` set pts)"
  by (simp add: keyed_def agree_def distinct_map inj_on_def) metis

lemma joined_outcome:
  assumes keeps: "\<forall>p\<in>set ps. \<forall>c. sound c \<longrightarrow>
      sound (snd (fetch p c)) \<and> (\<exists>xs. fst (fetch p c) = Inr xs \<and> set xs = S p)"
    and "sound c" and "keyed time pts"
  shows "sound (snd (join_points fetch time what ps pts c)) \<and>
    (if agree time (snd ` set pts \<union> \<Union> (S ` set ps))
     then \<exists>pts'. fst (join_points fetch time what ps pts c) = Inr pts' \<and> keyed time pts'
            \<and> snd ` set pts' = snd ` set pts \<union> \<Union> (S ` set ps)
     else fst (join_points fetch time what ps pts c)
            = raise_exn ValueError (''conflicting archived '' @ what @ '' evidence; select one edition''))"
  using assms
proof (induction ps arbitrary: pts c)
  case Nil
  then show ?case by (simp add: keyed_agree)
next
  case (Cons p ps)
  let ?S = "snd ` set pts \<union> \<Union> (S ` set (p # ps))"
  obtain xs c1 where f: "fetch p c = (Inr xs, c1)" "set xs = S p" "sound c1"
    using Cons.prems(1,2) by (cases "fetch p c") force
  show ?case
  proof (cases "try_fold (merge_point time what) xs pts")
    case (Inl e)
    have raised: "e = Exn ValueError (''conflicting archived '' @ what @ '' evidence; select one edition'')"
      if "try_fold (merge_point time what) ys qs = Inl e" for ys qs
      using that by (induction ys arbitrary: qs) (auto simp: merge_point_def split: sum.splits if_splits)
    have "\<not> agree time (set xs \<union> snd ` set pts)" using merge_all[OF Cons.prems(3), of xs what] Inl by auto
    then have "\<not> agree time ?S" using agree_subset f(2) by (metis (no_types, lifting) Un_commute Un_mono UN_upper list.set_intros(1) subset_refl)
    then show ?thesis using f Inl raised[OF Inl] by (simp add: raise_exn_def)
  next
    case (Inr pts1)
    note k = merge_accepts[OF Inr Cons.prems(3)]
    have S: "?S = snd ` set pts1 \<union> \<Union> (S ` set ps)" using k f(2) by auto
    have rest: "\<forall>p\<in>set ps. \<forall>c. sound c \<longrightarrow> sound (snd (fetch p c)) \<and> (\<exists>xs. fst (fetch p c) = Inr xs \<and> set xs = S p)"
      using Cons.prems(1) by simp
    have join: "join_points fetch time what (p # ps) pts c = join_points fetch time what ps pts1 c1" using f Inr by simp
    show ?thesis unfolding S join by (rule Cons.IH[OF rest f(3) conjunct1[OF k]])
  qed
qed

definition readers_ok :: "'raw disk \<Rightarrow> joined \<Rightarrow> bool" where
  "readers_ok d j \<longleftrightarrow> list_all (reader_ok d) (jn_readers j)"

definition joined_bar_set :: "'raw disk \<Rightarrow> joined \<Rightarrow> minute_bar list" where
  "joined_bar_set d j = concat (map (\<lambda>p. oi_bars (merged_input d p)) (jn_readers j))"

definition window_of_bars :: "minute_bar list \<Rightarrow> string \<Rightarrow> int \<Rightarrow> int \<Rightarrow> minute_bar set" where
  "window_of_bars bs k a t = {b \<in> set bs. mb_key b = k \<and> inside a t (mb_end b)}"

lemma sorted_values:
  assumes "keyed time pts"
  shows "sorted (map time (map snd (sort_key fst pts))) \<and> distinct (map time (map snd (sort_key fst pts)))
    \<and> set (map snd (sort_key fst pts)) = snd ` set pts"
proof -
  have "map time (map snd (sort_key fst pts)) = map fst (sort_key fst pts)"
    using assms by (simp add: keyed_def)
  then show ?thesis using sorted_sort_key_distinct[of fst pts] assms by (simp only: keyed_def set_map simp_thms)
qed

lemma joined_bars_answer:
  assumes "readers_ok d j" and "cache_ok d c"
  shows "cache_ok d (snd (joined_bars d j k a t c))
    \<and> (if agree mb_end (window_of_bars (joined_bar_set d j) k a t)
       then \<exists>bs. fst (joined_bars d j k a t c) = Inr bs \<and> set bs = window_of_bars (joined_bar_set d j) k a t
              \<and> sorted (map mb_end bs) \<and> distinct (map mb_end bs)
       else fst (joined_bars d j k a t c)
              = raise_exn ValueError ''conflicting archived reference evidence; select one edition'')"
proof -
  let ?S = "\<lambda>p. window_of_bars (oi_bars (merged_input d p)) k a t"
  have U: "\<Union> (?S ` set (jn_readers j)) = window_of_bars (joined_bar_set d j) k a t"
    by (auto simp: window_of_bars_def joined_bar_set_def)
  have part: "\<forall>p\<in>set (jn_readers j). \<forall>c. cache_ok d c \<longrightarrow> cache_ok d (snd (partitioned_bars d p k a t c))
      \<and> (\<exists>xs. fst (partitioned_bars d p k a t c) = Inr xs \<and> set xs = ?S p)"
  proof (intro ballI allI impI)
    fix p c
    assume "p \<in> set (jn_readers j)" "cache_ok d c"
    then show "cache_ok d (snd (partitioned_bars d p k a t c))
        \<and> (\<exists>xs. fst (partitioned_bars d p k a t c) = Inr xs \<and> set xs = ?S p)"
      using assms(1) partitioned_cache(1) bundle_bars.fetched[of "(d, p, c)" k a t]
      by (auto simp: readers_ok_def list_all_iff window_of_bars_def)
  qed
  note J = joined_outcome[where sound = "cache_ok d" and ps = "jn_readers j"
      and fetch = "\<lambda>p. partitioned_bars d p k a t" and S = ?S and time = mb_end and pts = "[]"
      and what = "''reference''" and c = c, OF part assms(2) keyed_Nil, unfolded U]
  have J': "cache_ok d (snd (join_points (\<lambda>p. partitioned_bars d p k a t) mb_end ''reference'' (jn_readers j) [] c)) \<and>
    (if agree mb_end (window_of_bars (joined_bar_set d j) k a t)
     then \<exists>pts'. fst (join_points (\<lambda>p. partitioned_bars d p k a t) mb_end ''reference'' (jn_readers j) [] c) = Inr pts'
            \<and> keyed mb_end pts' \<and> snd ` set pts' = window_of_bars (joined_bar_set d j) k a t
     else fst (join_points (\<lambda>p. partitioned_bars d p k a t) mb_end ''reference'' (jn_readers j) [] c)
            = raise_exn ValueError (''conflicting archived '' @ ''reference'' @ '' evidence; select one edition''))"
    by (rule J[unfolded list.set(1) image_empty Un_empty_left])
  have snd_eq: "snd (joined_bars d j k a t c)
      = snd (join_points (\<lambda>p. partitioned_bars d p k a t) mb_end ''reference'' (jn_readers j) [] c)"
    by (simp add: joined_bars_def)
  show ?thesis
  proof (cases "agree mb_end (window_of_bars (joined_bar_set d j) k a t)")
    case True
    then obtain pts where "fst (join_points (\<lambda>p. partitioned_bars d p k a t) mb_end ''reference'' (jn_readers j) [] c) = Inr pts"
        "keyed mb_end pts" "snd ` set pts = window_of_bars (joined_bar_set d j) k a t"
      using J' by auto
    then show ?thesis using True J' sorted_values[of mb_end pts] by (simp add: joined_bars_def)
  next
    case False
    then show ?thesis using J' by (simp add: joined_bars_def raise_exn_def)
  qed
qed

text \<open>
  C23. Joined bundles answer with the union of what their bundles hold.  If no two bundles disagree on a minute of
  the key within the window, the answer has every bar of every bundle in that window, once each, in ascending order; if
  two disagree, the call raises and no edition is silently preferred.
\<close>

theorem joined_bundles_never_mix_editions:
  assumes "\<forall>p\<in>set (jn_readers j). \<exists>dir proof_file m c0. partitioned_reader d dir proof_file m = Inr (p, c0)"
    and "cache_ok d c"
  shows "cache_ok d (snd (joined_bars d j k a t c))
    \<and> (if agree mb_end (window_of_bars (joined_bar_set d j) k a t)
       then \<exists>bs. fst (joined_bars d j k a t c) = Inr bs \<and> set bs = window_of_bars (joined_bar_set d j) k a t
              \<and> sorted (map mb_end bs) \<and> distinct (map mb_end bs)
       else fst (joined_bars d j k a t c)
              = raise_exn ValueError ''conflicting archived reference evidence; select one edition'')"
proof -
  have "readers_ok d j" using assms(1) partitioned_reader_ok(1) by (fastforce simp: readers_ok_def list_all_iff)
  then show ?thesis using assms(2) by (rule joined_bars_answer)
qed

section \<open>A bundle of two fragments\<close>

definition sample_input_data :: "int list \<Rightarrow> outcome_input" where
  "sample_input_data ends = \<lparr>oi_map_version = ''m'', oi_bars = map (\<lambda>e. flat_bar ''BINANCE:BTC:1'' e 100) ends, oi_native = []\<rparr>"

definition sample_disk :: "string disk" where
  "sample_disk = \<lparr>dk_read = (\<lambda>_ name. Inr name), dk_sha256 = (\<lambda>raw. raw),
     dk_input = (\<lambda>raw. Inr (sample_input_data (if raw = ''a.json'' then [120000, 60000] else [180000]))),
     dk_complete = (\<lambda>_. True)\<rparr>"

definition sample_bundle :: outcome_bundle where
  "sample_bundle = \<lparr>bn_map_version = ''m'', bn_after = 0, bn_through = 180000, bn_copy_sha256 = ''copy'',
     bn_files = [\<lparr>bf_name = ''a.json'', bf_sha256 = ''a.json'', bf_reference_keys = [''BINANCE:BTC:1''],
                   bf_asset_ids = [], bf_after = 0, bf_through = 120000\<rparr>,
                 \<lparr>bf_name = ''b.json'', bf_sha256 = ''b.json'', bf_reference_keys = [''BINANCE:BTC:1''],
                   bf_asset_ids = [], bf_after = 120000, bf_through = 180000\<rparr>]\<rparr>"

lemma sample_bundle_read: "is_ok (partitioned_reader sample_disk ''d'' (Inr ''copy'') sample_bundle)"
  by code_simp

definition sample_questions :: "request list" where
  "sample_questions = [BarsFor ''BINANCE:BTC:1'' 60000 180000]"

lemma fragments_form_one_input_witness:
  "\<exists>p c. partitioned_reader sample_disk ''d'' (Inr ''copy'') sample_bundle = Inr (p, c)
     \<and> fst (ask_bundle sample_disk p sample_questions c) = map (ask_input (merged_input sample_disk p)) sample_questions"
proof -
  obtain p c where pc: "partitioned_reader sample_disk ''d'' (Inr ''copy'') sample_bundle = Inr (p, c)"
    using sample_bundle_read by (auto simp: is_ok_iff)
  from fragments_form_one_input[OF this, of sample_questions] pc show ?thesis by blast
qed

lemma joined_bundles_never_mix_editions_witness:
  "\<exists>p c. partitioned_reader sample_disk ''d'' (Inr ''copy'') sample_bundle = Inr (p, c)
     \<and> cache_ok sample_disk (snd (joined_bars sample_disk \<lparr>jn_readers = [p, p], jn_map_version = ''m''\<rparr> ''BINANCE:BTC:1'' 0 180000 []))"
proof -
  obtain p c where pc: "partitioned_reader sample_disk ''d'' (Inr ''copy'') sample_bundle = Inr (p, c)"
    using sample_bundle_read by (auto simp: is_ok_iff)
  have "\<forall>q\<in>set (jn_readers \<lparr>jn_readers = [p, p], jn_map_version = ''m''\<rparr>).
      \<exists>dir proof_file m c0. partitioned_reader sample_disk dir proof_file m = Inr (q, c0)"
    using pc by auto
  from joined_bundles_never_mix_editions[OF this cache_ok_Nil, of "''BINANCE:BTC:1''" 0 180000] pc show ?thesis by blast
qed

end
