(* ===== verification/Outcome_Settlement.thy ===== *)
theory Outcome_Settlement
  imports Attention_Store Outcome_Inputs "HOL-Library.Multiset"
begin

text \<open>
  The settlement of a saved generation (second part of \<open>attention-core/outcomes.py\<close>): for each horizon the
  reference and the native outcome of every feature row, the threshold of the top decile over the generation, and the
  rows put into the store.  \<open>content_digest\<close> of the evidence is an argument.  A call may load fragments, so the
  reader's cache is passed on; the store is changed by \<open>put_outcome\<close> only.
\<close>

section \<open>Evidence\<close>

text \<open>What an outcome fingerprints: the dictionaries of the code, a key that is absent being \<open>None\<close>.\<close>

record reference_evidence =
  rv_inputs :: input_reference
  rv_feature :: feature_row
  rv_horizon :: horizon
  rv_baseline :: "minute_bar list option"
  rv_bars :: "minute_bar list option"
  rv_reason :: "string option"

datatype outcome_evidence =
    ReferencePath reference_evidence
  | NativePath input_reference "original_reference list" "native_point list" "string option"
  | TopDecile string pyfloat

section \<open>The reference outcome\<close>

definition path_through :: "input_reference \<Rightarrow> horizon \<Rightarrow> int" where
  "path_through inputs h = outcome_cutoff (ir_decision_at inputs) + horizon_minutes h * attention_minute"

definition base_outcome :: "input_reference \<Rightarrow> feature_row \<Rightarrow> horizon \<Rightarrow> outcome_family \<Rightarrow> int \<Rightarrow> outcome_row" where
  "base_outcome inputs feature h fam now =
     \<lparr>oc_generation_id = ir_generation_id inputs, oc_asset_id = fr_asset_id feature,
      oc_reference_key = fr_reference_key feature, oc_horizon = h, oc_family = fam, oc_edition = 1,
      oc_status = OutPending, oc_reason = None, oc_cutoff = outcome_cutoff (ir_decision_at inputs),
      oc_through = path_through inputs h, oc_settled_at = now, oc_max_abs_return = None, oc_close_return = None,
      oc_time_to_move = None, oc_dispersion_max = None, oc_oi_change_max = None, oc_fingerprint = []\<rparr>"

text \<open>\<open>key.rsplit(":", 1)[0]\<close>: the text before the last colon, all of it when there is none.\<close>

definition key_family :: "string \<Rightarrow> string" where
  "key_family k =
     (if CHR '':'' \<in> set k then rev (tl (dropWhile (\<lambda>c. c \<noteq> CHR '':'') (rev k))) else k)"

text \<open>\<open>100 * (v / price - 1)\<close>; a price of a bar is positive.\<close>

definition percent_return :: "pyfloat \<Rightarrow> pyfloat \<Rightarrow> pyfloat result" where
  "percent_return v price =
     (case f_div v price of
        None \<Rightarrow> raise_exn ZeroDivisionError ''float division by zero''
      | Some q \<Rightarrow> Inr (f_mul (FFin 100) (f_sub q (FFin 1))))"

fun f_abs :: "pyfloat \<Rightarrow> pyfloat" where
  "f_abs (FFin x) = FFin \<bar>x\<bar>"
| "f_abs (FInf _) = FInf False"
| "f_abs FNaN = FNaN"

text \<open>\<open>max\<close> keeps the first of the greatest values, in the order of the arguments.\<close>

definition f_max2 :: "pyfloat \<Rightarrow> pyfloat \<Rightarrow> pyfloat" where
  "f_max2 x y = (if f_less x y then y else x)"

definition f_max :: "pyfloat list \<Rightarrow> pyfloat result" where
  "f_max xs = (case xs of [] \<Rightarrow> raise_exn ValueError ''max() iterable argument is empty''
     | x # rest \<Rightarrow> Inr (fold (\<lambda>y m. f_max2 m y) rest x))"

definition abs_return :: "pyfloat \<Rightarrow> pyfloat \<Rightarrow> pyfloat result" where
  "abs_return price v = and_then (percent_return v price) (\<lambda>r. Inr (f_abs r))"

definition path_minutes :: "int \<Rightarrow> int \<Rightarrow> int list" where
  "path_minutes cutoff through = py_range (cutoff + attention_minute) (through + attention_minute) attention_minute"

definition max_abs_return :: "pyfloat \<Rightarrow> minute_bar list \<Rightarrow> pyfloat result" where
  "max_abs_return price bars =
     and_then (map_ok (abs_return price) (concat (map (\<lambda>b. [mb_high b, mb_low b]) bars))) f_max"

type_synonym reference_result = "outcome_row \<times> minute_bar list \<times> pyfloat option"

definition unavailable ::
    "(outcome_evidence \<Rightarrow> string) \<Rightarrow> outcome_row \<Rightarrow> reference_evidence \<Rightarrow> outcome_status \<Rightarrow> string \<Rightarrow> reference_result result" where
  "unavailable dg base ev st reason =
     and_then (build check_outcome_row (base\<lparr>oc_status := st, oc_reason := Some reason,
         oc_fingerprint := dg (ReferencePath (ev\<lparr>rv_reason := Some reason\<rparr>))\<rparr>)) (\<lambda>row. Inr (row, [], None))"

definition settle_path ::
    "(outcome_evidence \<Rightarrow> string) \<Rightarrow> outcome_row \<Rightarrow> reference_evidence \<Rightarrow> string \<Rightarrow> minute_bar \<Rightarrow> minute_bar list
       \<Rightarrow> reference_result result" where
  "settle_path dg base ev key baseline bars =
     (if list_ex (\<lambda>b. mb_key b \<noteq> key) bars
      then unavailable dg base ev OutUnscorable ''reference_revision_changed''
      else if map mb_end bars \<noteq> path_minutes (oc_cutoff base) (oc_through base)
      then unavailable dg base ev OutUnscorable ''future_bar_gap''
      else let price = mb_close baseline
           in and_then (max_abs_return price bars) (\<lambda>max_return.
              and_then (percent_return (mb_close (last bars)) price) (\<lambda>close_return.
              and_then (build check_outcome_row (base\<lparr>oc_status := OutReady, oc_reason := None,
                  oc_max_abs_return := Some max_return, oc_close_return := Some close_return,
                  oc_fingerprint := dg (ReferencePath ev)\<rparr>)) (\<lambda>row. Inr (row, bars, Some price)))))"

definition ineligible :: "feature_row \<Rightarrow> bool" where
  "ineligible f \<longleftrightarrow> fr_identity_status f \<in> {IdInvalid, IdExcluded}"

text \<open>What is decided before any bar is read.\<close>

definition reference_refusal :: "input_reference \<Rightarrow> feature_row \<Rightarrow> reader \<Rightarrow> horizon \<Rightarrow> int \<Rightarrow> (outcome_status \<times> string) option" where
  "reference_refusal inputs feature r h now =
     (if now < path_through inputs h then Some (OutPending, ''horizon_pending'')
      else if ineligible feature \<or> fr_reference_key feature = None then Some (OutUnscorable, ''reference_ineligible'')
      else if \<not> all_of (\<lambda>v. v = ir_map_version inputs) (reader_map_version r) then Some (OutUnscorable, ''map_changed'')
      else if the (fr_reference_key feature) \<notin> reader_keys r
              \<and> (\<exists>k\<in>reader_keys r. key_family k = key_family (the (fr_reference_key feature)))
      then Some (OutUnscorable, ''reference_revision_changed'')
      else None)"

definition reference_outcome ::
    "(outcome_evidence \<Rightarrow> string) \<Rightarrow> 'raw disk \<Rightarrow> input_reference \<Rightarrow> feature_row \<Rightarrow> reader \<Rightarrow> horizon \<Rightarrow> int \<Rightarrow> cache
       \<Rightarrow> reference_result result \<times> cache" where
  "reference_outcome dg d inputs feature r h now c =
     (let cutoff = outcome_cutoff (ir_decision_at inputs);
          through = path_through inputs h;
          base = base_outcome inputs feature h OfReference now;
          ev = \<lparr>rv_inputs = inputs, rv_feature = feature, rv_horizon = h, rv_baseline = None, rv_bars = None,
                rv_reason = None\<rparr>;
          key = the (fr_reference_key feature)
      in case reference_refusal inputs feature r h now of
           Some (st, reason) \<Rightarrow> (unavailable dg base ev st reason, c)
         | None \<Rightarrow>
             (case reader_bars d r key (cutoff - attention_minute) cutoff c of
                (Inl e, c1) \<Rightarrow> (Inl e, c1)
              | (Inr baseline, c1) \<Rightarrow>
                  let ev1 = ev\<lparr>rv_baseline := Some baseline\<rparr>
                  in if length baseline \<noteq> 1 \<or> mb_key (hd baseline) \<noteq> key \<or> mb_end (hd baseline) \<noteq> cutoff
                     then (unavailable dg base ev1 OutUnscorable ''reference_baseline_unavailable'', c1)
                     else (case reader_bars d r key cutoff through c1 of
                             (Inl e, c2) \<Rightarrow> (Inl e, c2)
                           | (Inr bs, c2) \<Rightarrow>
                               let bars = sort_key mb_end bs
                               in (settle_path dg base (ev1\<lparr>rv_bars := Some bars\<rparr>) key (hd baseline) bars, c2))))"

section \<open>The native outcome\<close>

definition current_venues :: "original_reference list \<Rightarrow> string set" where
  "current_venues os = or_venue ` set (filter or_current os)"

definition original_ids :: "original_reference list \<Rightarrow> (string \<times> int) set" where
  "original_ids os = (\<lambda>o'. (or_instrument_id o', or_version_id o')) ` set os"

definition present :: "'a option list \<Rightarrow> 'a list" where
  "present xs = map the (filter (\<lambda>x. x \<noteq> None) xs)"

definition point_partial :: "horizon \<Rightarrow> native_point \<Rightarrow> bool" where
  "point_partial h p \<longleftrightarrow> np_status p \<noteq> PointReady \<or> card (current_venues (np_originals p)) < 2
     \<or> np_dispersion p = None \<or> (h = H60 \<and> np_oi_change p = None)"

definition reader_points ::
    "'raw disk \<Rightarrow> reader \<Rightarrow> string \<Rightarrow> int \<Rightarrow> int \<Rightarrow> cache \<Rightarrow> native_point list result \<times> cache" where
  "reader_points d r asset after through c =
     (case r of Fixture f \<Rightarrow> (Inr (fixture_points f asset after through), c)
      | Partitioned p \<Rightarrow> partitioned_points d p asset after through c
      | Joined j \<Rightarrow> joined_points d j asset after through c
      | Live _ \<Rightarrow> (Inr [], c))"

type_synonym native_verdict = "outcome_status \<times> string option \<times> pyfloat option \<times> pyfloat option"

definition native_path :: "input_reference \<Rightarrow> feature_row \<Rightarrow> reader \<Rightarrow> horizon \<Rightarrow> native_point list \<Rightarrow> native_verdict result" where
  "native_path inputs feature r h points =
     (if reader_map_version r \<noteq> Some (ir_map_version inputs) then Inr (OutUnscorable, Some ''map_changed'', None, None)
      else if map np_at points \<noteq> path_minutes (outcome_cutoff (ir_decision_at inputs)) (path_through inputs h)
      then Inr (OutUnscorable, Some ''native_minute_path_unavailable'', None, None)
      else if list_ex (\<lambda>p. original_ids (np_originals p) \<noteq> original_ids (fr_originals feature)) points
      then Inr (OutUnscorable, Some ''native_revision_changed'', None, None)
      else if list_ex (point_partial h) points then Inr (OutUnscorable, Some ''native_path_partial'', None, None)
      else and_then (f_max (present (map np_dispersion points))) (\<lambda>dispersion.
           and_then (if h = H60 then and_then (f_max (present (map np_oi_change points))) (\<lambda>x. Inr (Some x)) else Inr None)
             (\<lambda>oi. Inr (OutReady, None, Some dispersion, oi))))"

definition native_row ::
    "(outcome_evidence \<Rightarrow> string) \<Rightarrow> input_reference \<Rightarrow> feature_row \<Rightarrow> horizon \<Rightarrow> int \<Rightarrow> native_point list \<Rightarrow> native_verdict
       \<Rightarrow> outcome_row result" where
  "native_row dg inputs feature h now points v =
     (case v of (st, reason, dispersion, oi) \<Rightarrow>
        build check_outcome_row ((base_outcome inputs feature h OfNative now)\<lparr>oc_status := st, oc_reason := reason,
          oc_dispersion_max := dispersion, oc_oi_change_max := oi,
          oc_fingerprint := dg (NativePath inputs (fr_originals feature) points reason)\<rparr>))"

definition native_refusal :: "input_reference \<Rightarrow> feature_row \<Rightarrow> reader \<Rightarrow> horizon \<Rightarrow> int \<Rightarrow> (outcome_status \<times> string) option" where
  "native_refusal inputs feature r h now =
     (if now < path_through inputs h then Some (OutPending, ''horizon_pending'')
      else if ineligible feature then Some (OutUnscorable, ''native_ineligible'')
      else if card (current_venues (fr_originals feature)) < 2 then Some (OutUnscorable, ''insufficient_native_venues'')
      else case r of Live _ \<Rightarrow> Some (OutUnscorable, ''native_minute_path_unavailable'') | _ \<Rightarrow> None)"

definition native_outcome ::
    "(outcome_evidence \<Rightarrow> string) \<Rightarrow> 'raw disk \<Rightarrow> input_reference \<Rightarrow> feature_row \<Rightarrow> reader \<Rightarrow> horizon \<Rightarrow> int \<Rightarrow> cache
       \<Rightarrow> outcome_row result \<times> cache" where
  "native_outcome dg d inputs feature r h now c =
     (case native_refusal inputs feature r h now of
        Some (st, reason) \<Rightarrow> (native_row dg inputs feature h now [] (st, Some reason, None, None), c)
      | None \<Rightarrow>
          (case reader_points d r (fr_asset_id feature) (outcome_cutoff (ir_decision_at inputs)) (path_through inputs h) c of
             (Inl e, c1) \<Rightarrow> (Inl e, c1)
           | (Inr ps, c1) \<Rightarrow>
               let points = sort_key np_at ps
               in (and_then (native_path inputs feature r h points) (native_row dg inputs feature h now points), c1)))"

section \<open>Settling a generation\<close>

fun reference_outcomes ::
    "(outcome_evidence \<Rightarrow> string) \<Rightarrow> 'raw disk \<Rightarrow> input_reference \<Rightarrow> reader \<Rightarrow> horizon \<Rightarrow> int \<Rightarrow> feature_row list \<Rightarrow> cache
       \<Rightarrow> (feature_row \<times> reference_result) list result \<times> cache" where
  "reference_outcomes dg d inputs r h now [] c = (Inr [], c)"
| "reference_outcomes dg d inputs r h now (f # fs) c =
     (case reference_outcome dg d inputs f r h now c of
        (Inl e, c1) \<Rightarrow> (Inl e, c1)
      | (Inr x, c1) \<Rightarrow>
          (case reference_outcomes dg d inputs r h now fs c1 of
             (Inl e, c2) \<Rightarrow> (Inl e, c2)
           | (Inr xs, c2) \<Rightarrow> (Inr ((f, x) # xs), c2)))"

text \<open>\<open>sorted(..., reverse=True)\<close> keeps the order of equal values; the values of ready rows are finite.\<close>

definition descending :: "pyfloat list \<Rightarrow> pyfloat list" where
  "descending = sort_key (\<lambda>x. - fval x)"

definition ready_returns :: "(feature_row \<times> reference_result) list \<Rightarrow> pyfloat list" where
  "ready_returns refs =
     present (map (\<lambda>(_, row, _). if oc_status row = OutReady then oc_max_abs_return row else None) refs)"

text \<open>\<open>max(0, math.ceil(n * 0.1) - 1)\<close>, with the float product.\<close>

definition tenth :: rat where "tenth = 3602879701896397 / 36028797018963968"

definition decile_index :: "nat \<Rightarrow> int" where
  "decile_index n = max 0 (\<lceil>fval (f_mul (FFin (of_nat n)) (FFin tenth))\<rceil> - 1)"

definition decile_threshold :: "pyfloat list \<Rightarrow> pyfloat option result" where
  "decile_threshold ready =
     (if ready = [] then Inr None
      else and_then (py_nth (descending ready) (decile_index (length ready))) (\<lambda>x. Inr (Some x)))"

definition bar_reaches :: "pyfloat \<Rightarrow> pyfloat \<Rightarrow> minute_bar \<Rightarrow> bool result" where
  "bar_reaches price threshold b =
     and_then (abs_return price (mb_high b)) (\<lambda>hi. and_then (abs_return price (mb_low b)) (\<lambda>lo.
       Inr (f_le threshold (f_max2 hi lo))))"

fun first_reaching :: "pyfloat \<Rightarrow> pyfloat \<Rightarrow> minute_bar list \<Rightarrow> int option result" where
  "first_reaching price threshold [] = Inr None"
| "first_reaching price threshold (b # bs) =
     and_then (bar_reaches price threshold b) (\<lambda>hit. if hit then Inr (Some (mb_end b)) else first_reaching price threshold bs)"

definition timed_row ::
    "(outcome_evidence \<Rightarrow> string) \<Rightarrow> input_reference \<Rightarrow> pyfloat option \<Rightarrow> reference_result \<Rightarrow> outcome_row result" where
  "timed_row dg inputs threshold x =
     (case x of (row, bars, price) \<Rightarrow>
        (case (threshold, price) of
           (Some t, Some q) \<Rightarrow>
             if oc_status row = OutReady
             then and_then (first_reaching q t bars) (\<lambda>first.
                    Inr (row\<lparr>oc_time_to_move := map_option (\<lambda>e. f_round (of_int (e - ir_decision_at inputs) / 1000)) first,
                             oc_fingerprint := dg (TopDecile (oc_fingerprint row) t)\<rparr>))
             else Inr row
         | _ \<Rightarrow> Inr row))"

type_synonym settle_state = "attention_db \<times> cache"

definition settle_row ::
    "(outcome_evidence \<Rightarrow> string) \<Rightarrow> 'raw disk \<Rightarrow> input_reference \<Rightarrow> reader \<Rightarrow> horizon \<Rightarrow> int \<Rightarrow> pyfloat option
       \<Rightarrow> feature_row \<times> reference_result \<Rightarrow> settle_state \<Rightarrow> outcome_row list result \<times> settle_state" where
  "settle_row dg d inputs r h now threshold x s =
     (case s of (db, c) \<Rightarrow>
       (case timed_row dg inputs threshold (snd x) of
          Inl e \<Rightarrow> (Inl e, db, c)
        | Inr row \<Rightarrow>
            (case put_outcome row db of
               (Inl e, db1) \<Rightarrow> (Inl e, db1, c)
             | (Inr saved, db1) \<Rightarrow>
                 (case native_outcome dg d inputs (fst x) r h now c of
                    (Inl e, c1) \<Rightarrow> (Inl e, db1, c1)
                  | (Inr native, c1) \<Rightarrow>
                      (case put_outcome native db1 of
                         (Inl e, db2) \<Rightarrow> (Inl e, db2, c1)
                       | (Inr saved2, db2) \<Rightarrow> (Inr [saved, saved2], db2, c1))))))"

fun settle_rows ::
    "(feature_row \<times> reference_result \<Rightarrow> settle_state \<Rightarrow> outcome_row list result \<times> settle_state)
       \<Rightarrow> (feature_row \<times> reference_result) list \<Rightarrow> settle_state \<Rightarrow> outcome_row list result \<times> settle_state" where
  "settle_rows step [] s = (Inr [], s)"
| "settle_rows step (x # xs) s =
     (case step x s of
        (Inl e, s1) \<Rightarrow> (Inl e, s1)
      | (Inr rows, s1) \<Rightarrow>
          (case settle_rows step xs s1 of
             (Inl e, s2) \<Rightarrow> (Inl e, s2)
           | (Inr later, s2) \<Rightarrow> (Inr (rows @ later), s2)))"

definition settle_horizon ::
    "(outcome_evidence \<Rightarrow> string) \<Rightarrow> 'raw disk \<Rightarrow> input_reference \<Rightarrow> feature_row list \<Rightarrow> reader \<Rightarrow> int \<Rightarrow> horizon
       \<Rightarrow> settle_state \<Rightarrow> outcome_row list result \<times> settle_state" where
  "settle_horizon dg d inputs features r now h s =
     (case reference_outcomes dg d inputs r h now features (snd s) of
        (Inl e, c) \<Rightarrow> (Inl e, fst s, c)
      | (Inr refs, c) \<Rightarrow>
          (case decile_threshold (ready_returns refs) of
             Inl e \<Rightarrow> (Inl e, fst s, c)
           | Inr threshold \<Rightarrow> settle_rows (settle_row dg d inputs r h now threshold) refs (fst s, c)))"

definition settle_generation_outcomes ::
    "(outcome_evidence \<Rightarrow> string) \<Rightarrow> 'raw disk \<Rightarrow> reader \<Rightarrow> string \<Rightarrow> int \<Rightarrow> settle_state
       \<Rightarrow> outcome_row list result \<times> settle_state" where
  "settle_generation_outcomes dg d r generation now s =
     (case evidence_generation generation (fst s) of
        Inl e \<Rightarrow> (Inl e, s)
      | Inr (inputs, features, _) \<Rightarrow>
          (case reader_for_generation inputs r of
             None \<Rightarrow> (Inr [], s)
           | Some scoped \<Rightarrow>
               if now < ir_decision_at inputs then (raise_exn ValueError ''settlement clock precedes decision'', s)
               else (case settle_horizon dg d inputs features scoped now H15 s of
                       (Inl e, s1) \<Rightarrow> (Inl e, s1)
                     | (Inr rows, s1) \<Rightarrow>
                         (case settle_horizon dg d inputs features scoped now H60 s1 of
                            (Inl e, s2) \<Rightarrow> (Inl e, s2)
                          | (Inr later, s2) \<Rightarrow> (Inr (rows @ later), s2)))))"

section \<open>The generations that an input settles\<close>

definition settles :: "input_reference \<Rightarrow> reader \<Rightarrow> bool" where
  "settles inputs r \<longleftrightarrow>
     (case r of Joined j \<Rightarrow> list_ex (partitioned_for_generation inputs) (jn_readers j)
      | _ \<Rightarrow> reader_for_generation inputs r \<noteq> None)"

definition generation_window :: "reader \<Rightarrow> (int \<times> int) option" where
  "generation_window r =
     (case r of Fixture f \<Rightarrow> map_option (\<lambda>(lo, hi). (lo - attention_minute + 1, hi + 1)) (fx_scope f)
      | Partitioned p \<Rightarrow> Some (bn_after (pt_manifest p) + 1, bn_through (pt_manifest p) + 1)
      | Joined j \<Rightarrow> map_option (\<lambda>(lo, hi). (lo + 1, hi + 1))
          (case (scope_of (map (\<lambda>p. bn_after (pt_manifest p)) (jn_readers j)),
                 scope_of (map (\<lambda>p. bn_through (pt_manifest p)) (jn_readers j))) of
             (Some (lo, _), Some (_, hi)) \<Rightarrow> Some (lo, hi) | _ \<Rightarrow> None)
      | Live _ \<Rightarrow> None)"

definition iter_generations :: "reader \<Rightarrow> attention_db \<Rightarrow> evidence list" where
  "iter_generations r db =
     (case generation_window r of
        None \<Rightarrow> []
      | Some (start_ms, end_ms) \<Rightarrow>
          filter (\<lambda>(inputs, _). settles inputs r) (iter_evidence_generations (Some start_ms) (Some end_ms) db))"

section \<open>Readers that settle\<close>

text \<open>
  A reader over validated inputs: what the constructors of the three readers establish.  Any other reader is
  assumed to hand out validated bars, as the type of its method says.
\<close>

definition reader_valid :: "'raw disk \<Rightarrow> reader \<Rightarrow> bool" where
  "reader_valid d r \<longleftrightarrow>
     (case r of Fixture f \<Rightarrow> \<exists>x. valid_input x \<and> f = fixture_reader x
      | Partitioned p \<Rightarrow> reader_ok d p
      | Joined j \<Rightarrow> readers_ok d j
      | Live g \<Rightarrow> \<forall>k a t bs. g k a t = Inr bs \<longrightarrow> list_all (\<lambda>b. valid_bar b = Inr ()) bs)"

definition valid_bars :: "minute_bar list \<Rightarrow> bool" where
  "valid_bars bs \<longleftrightarrow> list_all (\<lambda>b. valid_bar b = Inr ()) bs"

lemma join_points_plain:
  assumes "\<forall>p\<in>set ps. \<forall>c. sound c \<longrightarrow> sound (snd (fetch p c)) \<and> fst (fetch p c) = fst (fetch p [])"
    and "sound c" and "sound c'"
  shows "fst (join_points fetch time what ps pts c) = fst (join_points fetch time what ps pts c')
    \<and> sound (snd (join_points fetch time what ps pts c))"
  using assms
proof (induction ps arbitrary: pts c c')
  case (Cons p ps)
  obtain r c1 where f: "fetch p c = (r, c1)" "sound c1" using Cons.prems(1,2) by (cases "fetch p c") force
  obtain c1' where f': "fetch p c' = (r, c1')" "sound c1'"
    using Cons.prems f by (cases "fetch p c'") (metis fst_conv list.set_intros(1) snd_conv)
  show ?case
    using Cons.IH[OF _ f(2) f'(2)] Cons.prems(1) f f' by (auto split: sum.splits)
qed simp

lemma reader_answers:
  assumes "reader_valid d r" and "cache_ok d c"
  shows "fst (reader_bars d r k a t c) = fst (reader_bars d r k a t [])" and "cache_ok d (snd (reader_bars d r k a t c))"
    and "fst (reader_points d r k a t c) = fst (reader_points d r k a t [])" and "cache_ok d (snd (reader_points d r k a t c))"
proof -
  have "fst (reader_bars d r k a t c) = fst (reader_bars d r k a t []) \<and> cache_ok d (snd (reader_bars d r k a t c))
      \<and> fst (reader_points d r k a t c) = fst (reader_points d r k a t []) \<and> cache_ok d (snd (reader_points d r k a t c))"
  proof (cases r)
    case (Partitioned p)
    then have "reader_ok d p" using assms(1) by (simp add: reader_valid_def)
    with Partitioned show ?thesis
      using partitioned_is_merged[OF _ assms(2), of p] partitioned_is_merged[OF _ cache_ok_Nil, of d p]
        partitioned_cache[OF assms(2)]
      by (simp add: reader_bars_def reader_points_def)
  next
    case (Joined j)
    then have "\<forall>p\<in>set (jn_readers j). reader_ok d p"
      using assms(1) by (simp add: reader_valid_def readers_ok_def list_all_iff)
    then have "\<forall>p\<in>set (jn_readers j). \<forall>c. cache_ok d c \<longrightarrow> cache_ok d (snd (partitioned_bars d p k a t c))
          \<and> fst (partitioned_bars d p k a t c) = fst (partitioned_bars d p k a t [])"
        "\<forall>p\<in>set (jn_readers j). \<forall>c. cache_ok d c \<longrightarrow> cache_ok d (snd (partitioned_points d p k a t c))
          \<and> fst (partitioned_points d p k a t c) = fst (partitioned_points d p k a t [])"
      using partitioned_is_merged partitioned_cache cache_ok_Nil by metis+
    note join_points_plain[OF this(1) assms(2) cache_ok_Nil] join_points_plain[OF this(2) assms(2) cache_ok_Nil]
    with Joined show ?thesis by (simp add: reader_bars_def reader_points_def joined_bars_def joined_points_def)
  qed (use assms in \<open>simp_all add: reader_bars_def reader_points_def\<close>)
  then show "fst (reader_bars d r k a t c) = fst (reader_bars d r k a t [])" "cache_ok d (snd (reader_bars d r k a t c))"
      "fst (reader_points d r k a t c) = fst (reader_points d r k a t [])" "cache_ok d (snd (reader_points d r k a t c))"
    by blast+
qed

lemma merged_bars_valid: "reader_ok d p \<Longrightarrow> valid_bars (oi_bars (merged_input d p))"
  using merged_valid[of d p] by (simp add: valid_input_parts valid_bars_def)

lemma reader_bars_valid:
  assumes "reader_valid d r" and "fst (reader_bars d r k a t []) = Inr bs"
  shows "valid_bars bs"
proof (cases r)
  case (Fixture f)
  then obtain x where x: "valid_input x" "f = fixture_reader x" using assms(1) by (auto simp: reader_valid_def)
  then have "set bs \<subseteq> set (oi_bars x)" using assms(2) Fixture by (auto simp: reader_bars_def fixture_bars_eq)
  with x(1) show ?thesis by (auto simp: valid_input_parts valid_bars_def list_all_iff)
next
  case (Partitioned p)
  then have ok: "reader_ok d p" using assms(1) by (simp add: reader_valid_def)
  have "bs = fixture_bars (fixture_reader (merged_input d p)) k a t"
    using assms(2) partitioned_is_merged(1)[OF ok cache_ok_Nil] Partitioned by (simp add: reader_bars_def)
  then have "set bs \<subseteq> set (oi_bars (merged_input d p))" by (auto simp: fixture_bars_eq)
  with merged_bars_valid[OF ok] show ?thesis by (auto simp: valid_bars_def list_all_iff)
next
  case (Joined j)
  then have ok: "readers_ok d j" using assms(1) by (simp add: reader_valid_def)
  have "set bs \<subseteq> set (joined_bar_set d j)"
    using joined_bars_answer[OF ok cache_ok_Nil, of k a t] assms(2) Joined
    by (auto simp: reader_bars_def window_of_bars_def split: if_splits)
  moreover have "valid_bars (joined_bar_set d j)"
    using ok merged_bars_valid by (auto simp: readers_ok_def valid_bars_def joined_bar_set_def list_all_iff)
  ultimately show ?thesis by (auto simp: valid_bars_def list_all_iff)
next
  case (Live g)
  then show ?thesis using assms by (auto simp: reader_valid_def reader_bars_def valid_bars_def)
qed

section \<open>Returns along a path\<close>

definition unbounded :: "pyfloat \<Rightarrow> bool" where
  "unbounded x \<longleftrightarrow> x = FInf False \<or> (\<exists>y\<ge>0. x = FFin y)"

lemma f_round_shape: "0 \<le> x \<Longrightarrow> unbounded (f_round x)"
  by (auto simp: f_round_def Let_def unbounded_def f_exact_nonneg)

lemma f_round_cases: "(\<exists>y. f_round x = FFin y) \<or> f_round x = FInf (x < 0)"
  by (simp add: f_round_def Let_def)

lemma f_round_number [simp]: "f_round x \<noteq> FNaN"
  using f_round_cases[of x] by auto

lemma abs_return_shape:
  assumes "0 < p" and "0 < v"
  shows "\<exists>x. abs_return (FFin p) (FFin v) = Inr x \<and> unbounded x"
proof -
  have abs: "unbounded (f_abs z)" if "z \<noteq> FNaN" for z
    using that by (cases z) (auto simp: unbounded_def)
  have "f_round (v / p) = FInf False \<or> (\<exists>q. f_round (v / p) = FFin q)"
    using f_round_cases[of "v / p"] assms by (auto simp: divide_less_0_iff)
  then have "f_mul (FFin 100) (f_sub (f_round (v / p)) (FFin 1)) \<noteq> FNaN"
  proof
    assume "\<exists>q. f_round (v / p) = FFin q"
    then obtain q where q: "f_round (v / p) = FFin q" by blast
    have "f_sub (FFin q) (FFin 1) \<noteq> FNaN" by (simp add: f_sub_def)
    then show ?thesis unfolding q by (cases "f_sub (FFin q) (FFin 1)") simp_all
  qed (simp add: f_sub_def)
  then show ?thesis using assms abs by (simp add: abs_return_def percent_return_def)
qed

lemma f_max_greatest:
  assumes "f_max xs = Inr (FFin m)" and "list_all unbounded xs"
  shows "FFin m \<in> set xs" and "\<forall>x\<in>set xs. \<exists>v. x = FFin v \<and> v \<le> m"
proof -
  have step: "fold (\<lambda>y m. f_max2 m y) ys x \<in> set (x # ys)
      \<and> (\<forall>m. fold (\<lambda>y m. f_max2 m y) ys x = FFin m \<longrightarrow> (\<forall>z\<in>set (x # ys). \<exists>v. z = FFin v \<and> v \<le> m))"
    if "list_all unbounded (x # ys)" for x ys
    using that
  proof (induction ys arbitrary: x)
    case (Cons y ys)
    have u: "unbounded x" "unbounded y" using Cons.prems by auto
    then have mx: "f_max2 x y \<in> {x, y}" "unbounded (f_max2 x y)"
      and le: "\<forall>v. f_max2 x y = FFin v \<longrightarrow> (\<exists>a b. x = FFin a \<and> y = FFin b \<and> a \<le> v \<and> b \<le> v)"
      by (auto simp: f_max2_def unbounded_def)
    from Cons.IH[of "f_max2 x y"] Cons.prems mx(2) have ih:
        "fold (\<lambda>y m. f_max2 m y) ys (f_max2 x y) \<in> set (f_max2 x y # ys)"
        "\<forall>m. fold (\<lambda>y m. f_max2 m y) ys (f_max2 x y) = FFin m \<longrightarrow>
          (\<forall>z\<in>set (f_max2 x y # ys). \<exists>v. z = FFin v \<and> v \<le> m)" by auto
    have "\<forall>z\<in>set (x # y # ys). \<exists>v. z = FFin v \<and> v \<le> m" if "fold (\<lambda>y m. f_max2 m y) ys (f_max2 x y) = FFin m" for m
    proof -
      have all: "\<forall>z\<in>set (f_max2 x y # ys). \<exists>v. z = FFin v \<and> v \<le> m" using ih(2) that by blast
      then obtain v where "f_max2 x y = FFin v" "v \<le> m" by auto
      with le obtain a b where "x = FFin a" "y = FFin b" "a \<le> m" "b \<le> m" by force
      with all show ?thesis by auto
    qed
    then show ?case using ih(1) mx(1) by auto
  qed (auto simp: unbounded_def)
  obtain x ys where xs: "xs = x # ys" using assms(1) by (cases xs) (auto simp: f_max_def)
  then have "fold (\<lambda>y m. f_max2 m y) ys x = FFin m" using assms(1) by (simp add: f_max_def)
  with step[of x ys] assms(2) show "FFin m \<in> set xs" "\<forall>x\<in>set xs. \<exists>v. x = FFin v \<and> v \<le> m"
    by (auto simp: xs)
qed

text \<open>The greatest absolute return of a path, as a property.\<close>

definition greatest_return :: "pyfloat \<Rightarrow> minute_bar list \<Rightarrow> rat \<Rightarrow> bool" where
  "greatest_return price bars m \<longleftrightarrow>
     (\<exists>b\<in>set bars. \<exists>v\<in>{mb_high b, mb_low b}. abs_return price v = Inr (FFin m))
     \<and> (\<forall>b\<in>set bars. \<forall>v\<in>{mb_high b, mb_low b}. \<exists>x. abs_return price v = Inr (FFin x) \<and> x \<le> m)"

lemma valid_bar_prices:
  assumes "valid_bar b = Inr ()"
  shows "\<exists>h l c. mb_high b = FFin h \<and> mb_low b = FFin l \<and> mb_close b = FFin c \<and> 0 < h \<and> 0 < l \<and> 0 < c"
  using valid_barD(3,5,6,7)[OF assms] unfolding bar_values_def by (auto simp: float_finite_iff) force

lemma bar_returns:
  assumes "valid_bar b = Inr ()" and "0 < p" and "v \<in> {mb_high b, mb_low b}"
  shows "\<exists>x. abs_return (FFin p) v = Inr x \<and> unbounded x"
  using valid_bar_prices[OF assms(1)] abs_return_shape[OF assms(2)] assms(3) by auto

lemma max_abs_return_greatest:
  assumes "valid_bars bars" and "0 < p" and "max_abs_return (FFin p) bars = Inr (FFin m)"
  shows "greatest_return (FFin p) bars m"
proof -
  let ?vs = "concat (map (\<lambda>b. [mb_high b, mb_low b]) bars)"
  obtain xs where xs: "map_ok (abs_return (FFin p)) ?vs = Inr xs" "f_max xs = Inr (FFin m)"
    using assms(3) by (auto simp: max_abs_return_def and_then_Inr)
  then have l: "list_all2 (\<lambda>v x. abs_return (FFin p) v = Inr x) ?vs xs" by (simp add: map_ok_Inr)
  have ret: "\<exists>x. abs_return (FFin p) v = Inr x \<and> unbounded x" if "v \<in> set ?vs" for v
    using that bar_returns[OF _ assms(2)] assms(1) by (auto simp: valid_bars_def list_all_iff)
  have source: "\<exists>v\<in>set ?vs. abs_return (FFin p) v = Inr x" if "x \<in> set xs" for x
    using list_all2_source[OF l that] .
  have "list_all unbounded xs" using source ret by (force simp: list_all_iff)
  note g = f_max_greatest[OF xs(2) this]
  have "\<exists>x. abs_return (FFin p) v = Inr (FFin x) \<and> x \<le> m" if v: "v \<in> set ?vs" for v
  proof -
    obtain x where "x \<in> set xs" "abs_return (FFin p) v = Inr x" using list_all2_partner[OF l v] by blast
    with g(2) show ?thesis by auto
  qed
  then have all: "\<forall>b\<in>set bars. \<forall>v\<in>{mb_high b, mb_low b}. \<exists>x. abs_return (FFin p) v = Inr (FFin x) \<and> x \<le> m"
    by (intro ballI) (auto simp del: insert_iff)
  obtain v where "v \<in> set ?vs" "abs_return (FFin p) v = Inr (FFin m)" using source[OF g(1)] by blast
  then have "\<exists>b\<in>set bars. \<exists>v\<in>{mb_high b, mb_low b}. abs_return (FFin p) v = Inr (FFin m)" by auto
  with all show ?thesis by (simp only: greatest_return_def)
qed

section \<open>Ready outcomes\<close>

lemma cutoff_bounds: "decision_at \<le> outcome_cutoff decision_at" "outcome_cutoff decision_at < decision_at + attention_minute"
    "outcome_cutoff decision_at mod attention_minute = 0"
  by (auto simp: outcome_cutoff_def attention_minute_def)

lemma path_minutes_list:
  "path_minutes cutoff (cutoff + int n * attention_minute) = map (\<lambda>i. cutoff + (int i + 1) * attention_minute) [0..<n]"
proof -
  have "- ((cutoff + attention_minute - (cutoff + int n * attention_minute + attention_minute)) div attention_minute) = int n"
    by (simp add: attention_minute_def)
  then show ?thesis by (simp add: path_minutes_def py_range_def algebra_simps)
qed

lemma horizon_path:
  "path_minutes (outcome_cutoff (ir_decision_at inputs)) (path_through inputs h)
     = map (\<lambda>i. outcome_cutoff (ir_decision_at inputs) + (int i + 1) * attention_minute) [0..<nat (horizon_minutes h)]"
  using path_minutes_list[of "outcome_cutoff (ir_decision_at inputs)" "nat (horizon_minutes h)"]
  by (cases h) (simp_all add: path_through_def)

lemma base_outcome_fields [simp]:
  "oc_cutoff (base_outcome inputs f h fam now) = outcome_cutoff (ir_decision_at inputs)"
  "oc_through (base_outcome inputs f h fam now) = path_through inputs h"
  "outcome_values (base_outcome inputs f h fam now) = [None, None, None, None, None]"
  by (simp_all add: base_outcome_def outcome_values_def)

lemma unavailable_result:
  assumes "unavailable dg base ev st reason = Inr (row, bars, price)" and "outcome_values base = [None, None, None, None, None]"
  shows "bars = [] \<and> price = None \<and> oc_status row = st \<and> oc_reason row = Some reason
    \<and> outcome_values row = [None, None, None, None, None] \<and> check_outcome_row row = Inr ()"
  using assms by (auto simp: unavailable_def and_then_Inr build_Inr outcome_values_def)

lemma settle_path_ready:
  assumes "settle_path dg base ev key baseline bars = Inr (row, bs, price)" and "oc_status row = OutReady"
    and "outcome_values base = [None, None, None, None, None]"
  shows "bs = bars \<and> price = Some (mb_close baseline) \<and> list_all (\<lambda>b. mb_key b = key) bars
    \<and> map mb_end bars = path_minutes (oc_cutoff base) (oc_through base) \<and> check_outcome_row row = Inr ()
    \<and> (\<exists>m. oc_max_abs_return row = Some m \<and> max_abs_return (mb_close baseline) bars = Inr m)
    \<and> (\<exists>x. oc_close_return row = Some x \<and> percent_return (mb_close (last bars)) (mb_close baseline) = Inr x)"
proof -
  have "\<not> list_ex (\<lambda>b. mb_key b \<noteq> key) bars" "map mb_end bars = path_minutes (oc_cutoff base) (oc_through base)"
    using assms(1,2) unavailable_result[OF _ assms(3)] by (auto simp: settle_path_def split: if_splits)
  with assms(1) show ?thesis
    by (auto simp: settle_path_def and_then_Inr build_Inr Let_def list_all_iff list_ex_iff)
qed

lemma settle_path_other:
  assumes "settle_path dg base ev key baseline bars = Inr (row, bs, price)" and "oc_status row \<noteq> OutReady"
    and "outcome_values base = [None, None, None, None, None]"
  shows "bs = [] \<and> price = None \<and> oc_status row = OutUnscorable \<and> has_text (oc_reason row)
    \<and> outcome_values row = [None, None, None, None, None]"
  using assms(1,2) unavailable_result[OF _ assms(3)]
  by (auto simp: settle_path_def and_then_Inr build_Inr Let_def split: if_splits)

lemma refusal_status:
  "reference_refusal inputs f r h now = Some (st, reason) \<Longrightarrow>
     st \<noteq> OutReady \<and> reason \<noteq> [] \<and> (st = OutPending \<longleftrightarrow> now < path_through inputs h)"
  by (auto simp: reference_refusal_def split: if_splits)

lemma refusal_none:
  "reference_refusal inputs f r h now = None \<Longrightarrow>
     path_through inputs h \<le> now \<and> \<not> ineligible f \<and> (\<exists>k. fr_reference_key f = Some k)
     \<and> all_of (\<lambda>v. v = ir_map_version inputs) (reader_map_version r)"
  by (auto simp: reference_refusal_def split: if_splits)

lemma reference_outcome_cases:
  assumes "reader_valid d r" and "cache_ok d c"
    and "reference_outcome dg d inputs feature r h now c = (Inr (row, bars, price), c')"
  shows "if oc_status row = OutReady
    then path_through inputs h \<le> now \<and> \<not> ineligible feature
      \<and> all_of (\<lambda>v. v = ir_map_version inputs) (reader_map_version r)
      \<and> map mb_end bars = map (\<lambda>i. outcome_cutoff (ir_decision_at inputs) + (int i + 1) * attention_minute)
            [0..<nat (horizon_minutes h)]
      \<and> list_all (\<lambda>b. fr_reference_key feature = Some (mb_key b) \<and> ir_decision_at inputs \<le> mb_end b - attention_minute) bars
      \<and> (\<exists>key b p m. fr_reference_key feature = Some key \<and> 0 < p \<and> price = Some (FFin p) \<and> mb_close b = FFin p
           \<and> mb_key b = key \<and> mb_end b = outcome_cutoff (ir_decision_at inputs)
           \<and> fst (reader_bars d r key (outcome_cutoff (ir_decision_at inputs) - attention_minute)
                (outcome_cutoff (ir_decision_at inputs)) []) = Inr [b]
           \<and> oc_max_abs_return row = Some (FFin m) \<and> greatest_return (FFin p) bars m
           \<and> oc_close_return row \<noteq> None
           \<and> percent_return (mb_close (last bars)) (FFin p) = Inr (the (oc_close_return row)))
    else bars = [] \<and> price = None \<and> outcome_values row = [None, None, None, None, None] \<and> has_text (oc_reason row)
      \<and> (oc_status row = OutPending \<longleftrightarrow> now < path_through inputs h)"
proof (cases "reference_refusal inputs feature r h now")
  case (Some v)
  then obtain st reason where v: "v = (st, reason)" by (cases v)
  then have "unavailable dg (base_outcome inputs feature h OfReference now)
      \<lparr>rv_inputs = inputs, rv_feature = feature, rv_horizon = h, rv_baseline = None, rv_bars = None, rv_reason = None\<rparr>
      st reason = Inr (row, bars, price)"
    using assms(3) Some by (simp add: reference_outcome_def Let_def)
  from unavailable_result[OF this] refusal_status[OF Some[unfolded v]] show ?thesis by simp
next
  case None
  let ?cut = "outcome_cutoff (ir_decision_at inputs)" and ?base = "base_outcome inputs feature h OfReference now"
  define ev where "ev = \<lparr>rv_inputs = inputs, rv_feature = feature, rv_horizon = h, rv_baseline = None,
    rv_bars = None, rv_reason = None\<rparr>"
  obtain key where key: "fr_reference_key feature = Some key" using refusal_none[OF None] by blast
  obtain bl c1 where bl: "reader_bars d r key (?cut - attention_minute) ?cut c = (Inr bl, c1)"
    using assms(3) None key by (auto simp: reference_outcome_def Let_def split: prod.splits sum.splits)
  have c1: "cache_ok d c1" using reader_answers(2)[OF assms(1,2)] bl by (metis snd_conv)
  show ?thesis
  proof (cases "length bl \<noteq> 1 \<or> mb_key (hd bl) \<noteq> key \<or> mb_end (hd bl) \<noteq> ?cut")
    case True
    then have "unavailable dg ?base (ev\<lparr>rv_baseline := Some bl\<rparr>) OutUnscorable ''reference_baseline_unavailable''
        = Inr (row, bars, price)"
      using assms(3) None key bl by (simp add: reference_outcome_def Let_def ev_def)
    from unavailable_result[OF this] refusal_none[OF None] show ?thesis by simp
  next
    case False
    then obtain b where b: "bl = [b]" "mb_key b = key" "mb_end b = ?cut" by (cases bl) auto
    obtain bs c2 where bs: "reader_bars d r key ?cut (path_through inputs h) c1 = (Inr bs, c2)"
        "settle_path dg ?base (ev\<lparr>rv_baseline := Some [b], rv_bars := Some (sort_key mb_end bs)\<rparr>) key b (sort_key mb_end bs)
          = Inr (row, bars, price)"
      using assms(3) None key bl b by (auto simp: reference_outcome_def Let_def ev_def split: prod.splits sum.splits)
    have base: "outcome_values ?base = [None, None, None, None, None]" by simp
    show ?thesis
    proof (cases "oc_status row = OutReady")
      case False
      from settle_path_other[OF bs(2) False base] False refusal_none[OF None] show ?thesis by simp
    next
      case True
      note ready = settle_path_ready[OF bs(2) True base]
      have first: "fst (reader_bars d r key (?cut - attention_minute) ?cut []) = Inr [b]"
        using reader_answers(1)[OF assms(1,2)] bl b(1) by (metis fst_conv)
      then have "valid_bar b = Inr ()"
        using reader_bars_valid[OF assms(1)] by (fastforce simp: valid_bars_def)
      then obtain p where p: "mb_close b = FFin p" "0 < p" using valid_bar_prices by blast
      have "fst (reader_bars d r key ?cut (path_through inputs h) []) = Inr bs"
        using reader_answers(1)[OF assms(1) c1] bs(1) by (metis fst_conv)
      then have valid: "valid_bars bars"
        using reader_bars_valid[OF assms(1)] ready by (fastforce simp: valid_bars_def list_all_iff)
      obtain m where m: "oc_max_abs_return row = Some m" "max_abs_return (FFin p) bars = Inr m" using ready p by auto
      have "all_of (at_least 0) (Some m)"
        using ready m(1) by (auto simp: check_outcome_row_def field_error_def split: if_splits)
      then obtain q where q: "m = FFin q" by (auto simp: at_least_def float_finite_iff)
      have path: "map mb_end bars = map (\<lambda>i. ?cut + (int i + 1) * attention_minute) [0..<nat (horizon_minutes h)]"
        using ready by (simp add: horizon_path)
      have late: "ir_decision_at inputs \<le> mb_end x - attention_minute" if "x \<in> set bars" for x
      proof -
        have "mb_end x \<in> set (map mb_end bars)" using that by simp
        then obtain i where "mb_end x = ?cut + (int i + 1) * attention_minute" unfolding path by auto
        then show ?thesis using cutoff_bounds(1)[of "ir_decision_at inputs"]
          by (simp add: attention_minute_def algebra_simps)
      qed
      have keys: "list_all (\<lambda>x. fr_reference_key feature = Some (mb_key x) \<and> ir_decision_at inputs \<le> mb_end x - attention_minute) bars"
        using ready late key by (auto simp: list_all_iff)
      have close: "oc_close_return row \<noteq> None" "percent_return (mb_close (last bars)) (FFin p) = Inr (the (oc_close_return row))"
        using ready p by auto
      have all: "\<exists>key b p m. fr_reference_key feature = Some key \<and> 0 < p \<and> price = Some (FFin p) \<and> mb_close b = FFin p
           \<and> mb_key b = key \<and> mb_end b = ?cut \<and> fst (reader_bars d r key (?cut - attention_minute) ?cut []) = Inr [b]
           \<and> oc_max_abs_return row = Some (FFin m) \<and> greatest_return (FFin p) bars m
           \<and> oc_close_return row \<noteq> None
           \<and> percent_return (mb_close (last bars)) (FFin p) = Inr (the (oc_close_return row))"
        using key p ready b first m(1) q max_abs_return_greatest[OF valid p(2)] m(2) close by metis
      show ?thesis using True refusal_none[OF None] path keys all by simp
    qed
  qed
qed

text \<open>What a reference outcome may rest on, ready or not.\<close>

definition sees_only_the_future ::
    "'raw disk \<Rightarrow> input_reference \<Rightarrow> reader \<Rightarrow> horizon \<Rightarrow> int \<Rightarrow> feature_row \<Rightarrow> reference_result \<Rightarrow> bool" where
  "sees_only_the_future d inputs r h now feature x \<longleftrightarrow>
    (case x of (row, bars, price) \<Rightarrow>
    if oc_status row = OutReady
    then path_through inputs h \<le> now \<and> \<not> ineligible feature
      \<and> all_of (\<lambda>v. v = ir_map_version inputs) (reader_map_version r)
      \<and> map mb_end bars = map (\<lambda>i. outcome_cutoff (ir_decision_at inputs) + (int i + 1) * attention_minute)
            [0..<nat (horizon_minutes h)]
      \<and> list_all (\<lambda>b. fr_reference_key feature = Some (mb_key b) \<and> ir_decision_at inputs \<le> mb_end b - attention_minute) bars
      \<and> (\<exists>key b p m. fr_reference_key feature = Some key \<and> 0 < p \<and> price = Some (FFin p) \<and> mb_close b = FFin p
           \<and> mb_key b = key \<and> mb_end b = outcome_cutoff (ir_decision_at inputs)
           \<and> fst (reader_bars d r key (outcome_cutoff (ir_decision_at inputs) - attention_minute)
                (outcome_cutoff (ir_decision_at inputs)) []) = Inr [b]
           \<and> oc_max_abs_return row = Some (FFin m) \<and> greatest_return (FFin p) bars m
           \<and> oc_close_return row \<noteq> None
           \<and> percent_return (mb_close (last bars)) (FFin p) = Inr (the (oc_close_return row)))
    else bars = [] \<and> price = None \<and> outcome_values row = [None, None, None, None, None] \<and> has_text (oc_reason row)
      \<and> (oc_status row = OutPending \<longleftrightarrow> now < path_through inputs h))"

lemma reference_outcome_sound:
  assumes "reader_valid d r" and "cache_ok d c"
    and "reference_outcome dg d inputs feature r h now c = (Inr x, c')"
  shows "sees_only_the_future d inputs r h now feature x"
proof -
  obtain row bars price where x: "x = (row, bars, price)" by (cases x)
  show ?thesis unfolding sees_only_the_future_def x prod.case
    using assms unfolding x
  by (rule reference_outcome_cases)
qed

lemma reference_outcome_cache:
  assumes "reader_valid d r" and "cache_ok d c"
  shows "cache_ok d (snd (reference_outcome dg d inputs f r h now c))"
    and "fst (reference_outcome dg d inputs f r h now c) = fst (reference_outcome dg d inputs f r h now [])"
proof -
  let ?k = "the (fr_reference_key f)" and ?cut = "outcome_cutoff (ir_decision_at inputs)"
  obtain q c1 where a: "reader_bars d r ?k (?cut - attention_minute) ?cut c = (q, c1)" "cache_ok d c1"
    using reader_answers(2)[OF assms] by (metis prod.collapse)
  obtain c2 where b: "reader_bars d r ?k (?cut - attention_minute) ?cut [] = (q, c2)" "cache_ok d c2"
    using reader_answers(1,2)[OF assms(1)] a assms(2) cache_ok_Nil by (metis prod.collapse fst_conv)
  obtain q' c3 where a': "reader_bars d r ?k ?cut (path_through inputs h) c1 = (q', c3)" "cache_ok d c3"
    using reader_answers(2)[OF assms(1) a(2)] by (metis prod.collapse)
  obtain c4 where b': "reader_bars d r ?k ?cut (path_through inputs h) c2 = (q', c4)"
    using reader_answers(1)[OF assms(1) a(2)] reader_answers(1)[OF assms(1) b(2)] a' by (metis prod.collapse fst_conv)
  show "cache_ok d (snd (reference_outcome dg d inputs f r h now c))"
    using assms(2) a a' by (auto simp: reference_outcome_def Let_def split: option.splits sum.splits)
  show "fst (reference_outcome dg d inputs f r h now c) = fst (reference_outcome dg d inputs f r h now [])"
    using a b a' b' by (auto simp: reference_outcome_def Let_def split: option.splits sum.splits)
qed

lemma reference_outcomes_all:
  assumes "reader_valid d r" and "cache_ok d c" and "reference_outcomes dg d inputs r h now fs c = (Inr refs, c')"
  shows "cache_ok d c' \<and> map fst refs = fs \<and> list_all (\<lambda>(f, x). sees_only_the_future d inputs r h now f x) refs
    \<and> map_ok (\<lambda>f. and_then (fst (reference_outcome dg d inputs f r h now [])) (\<lambda>x. Inr (f, x))) fs = Inr refs"
  using assms(2,3)
proof (induction fs arbitrary: c refs)
  case (Cons f fs)
  obtain x c1 xs where x: "reference_outcome dg d inputs f r h now c = (Inr x, c1)"
      "reference_outcomes dg d inputs r h now fs c1 = (Inr xs, c')" "refs = (f, x) # xs"
    using Cons.prems(2) by (auto split: prod.splits sum.splits)
  have "cache_ok d c1" using reference_outcome_cache(1)[OF assms(1) Cons.prems(1)] x(1) by (metis snd_conv)
  moreover have "fst (reference_outcome dg d inputs f r h now []) = Inr x"
    using reference_outcome_cache(2)[OF assms(1) Cons.prems(1)] x(1) by (metis fst_conv)
  ultimately show ?case
    using Cons.IH x(2,3) reference_outcome_sound[OF assms(1) Cons.prems(1) x(1)] by simp
qed simp

text \<open>
  C7. A ready reference outcome of a generation has seen its whole horizon and nothing else: settlement happened after
  the horizon ended, the identity is eligible and the map is that of the generation; the bars are exactly the fifteen or
  sixty minutes after the cutoff, all of the feature's reference, none of them begun before the decision; the
  baseline is the single bar that closed at the cutoff; the stored return is the greatest absolute return of any
  high or low on the path, and the close return that of its last bar.  An outcome that is not ready carries no value
  and a reason, and it is pending exactly while the horizon is running.
\<close>

theorem ready_outcomes_see_only_the_future:
  assumes "reader_valid d r" and "cache_ok d c"
    and "reference_outcomes dg d inputs r h now features c = (Inr refs, c')"
  shows "map fst refs = features \<and> list_all (\<lambda>(f, x). sees_only_the_future d inputs r h now f x) refs"
  using reference_outcomes_all[OF assms] by blast

section \<open>The top decile\<close>

lemma f_exact_just_above:
  assumes "1 \<le> k" and "k \<le> 2 ^ 40"
  shows "f_exact (of_int k + of_int k / 2 ^ 54) = of_int k"
proof -
  let ?x = "of_int k + of_int k / 2 ^ 54 :: rat"
  define L where "L = lead_exp 2 ?x"
  have k: "1 \<le> (of_int k :: rat)" "(of_int k :: rat) \<le> 2 ^ 40"
    using assms by (simp, metis of_int_le_iff of_int_numeral of_int_power)
  have x: "1 \<le> ?x" "?x < 2 ^ 41" "of_int k \<le> ?x" using k by simp_all
  have bounds: "power_int 2 L \<le> ?x" "?x < power_int 2 (L + 1)"
    using lead_exp_bounds[of ?x 2] x(1) by (simp_all add: L_def)
  have "power_int (2::rat) 0 < power_int 2 (L + 1)" using bounds(2) x(1) by simp
  moreover have "power_int (2::rat) L < power_int 2 41" using bounds(1) x(2) by simp
  ultimately have "0 \<le> L" "L < 41" by (simp_all only: power_int_two_less)
  define j where "j = nat (52 - L)"
  have grid: "f_grid ?x = - int j" and L: "L = 52 - int j"
    using \<open>0 \<le> L\<close> \<open>L < 41\<close> unfolding f_grid_def L_def[symmetric] j_def by simp_all
  have unit: "power_int (2::rat) (- int j) = 1 / 2 ^ j" by (simp add: power_int_minus divide_inverse)
  have "power_int (2::rat) (L + 1) = 2 ^ 53 / 2 ^ j"
    by (simp add: L power_int_diff)
  with bounds(2) x(3) have "of_int k * 2 ^ j < (2 ^ 53 :: rat)" by (simp add: pos_less_divide_eq)
  then have small: "of_int k * 2 ^ j / 2 ^ 54 < (1 / 2 :: rat)" by simp
  have nonneg: "0 \<le> of_int k * 2 ^ j / (2 ^ 54 :: rat)" using k by simp
  have split: "?x * 2 ^ j = of_int (k * 2 ^ j) + of_int k * 2 ^ j / 2 ^ 54" by (simp add: algebra_simps)
  have "\<lfloor>?x * 2 ^ j\<rfloor> = k * 2 ^ j"
    unfolding split using small nonneg by (intro floor_unique) simp_all
  then have "round_half_even (?x * 2 ^ j) = k * 2 ^ j"
    using small unfolding round_half_even_def Let_def by (simp add: split)
  then have "on_grid (- int j) ?x = of_int k" by (simp add: on_grid_def unit)
  moreover have "?x \<noteq> 0" using x(1) by linarith
  ultimately show ?thesis unfolding f_exact_def grid by (simp only: if_False)
qed

lemma tenth_split: "of_int n * tenth = of_int n / 10 + of_int n / (10 * 2 ^ 54)"
  by (simp add: tenth_def field_simps)

lemma ceiling_tenth:
  assumes "1 \<le> n" and "n \<le> 2 ^ 40"
  shows "\<lceil>fval (f_mul (FFin (of_nat n)) (FFin tenth))\<rceil> = \<lceil>of_nat n / (10::rat)\<rceil>"
proof -
  define k where "k = \<lceil>of_nat n / (10::rat)\<rceil>"
  have n: "(1::rat) \<le> of_nat n" "(of_nat n :: rat) \<le> 2 ^ 40"
    using assms by simp_all
  have kn: "of_nat n / 10 \<le> (of_int k :: rat)" "of_int k - 1 < (of_nat n / 10 :: rat)"
    unfolding k_def by linarith+
  have gap: "of_int k - 15 / 16 \<le> (of_nat n / 10 :: rat)"
  proof -
    have "10 * (k - 1) < int n" using kn(2) by (simp add: field_simps)
    then have "10 * (k - 1) + 1 \<le> int n" by simp
    then have "(of_int (10 * (k - 1) + 1) :: rat) \<le> of_int (int n)" by (simp only: of_int_le_iff)
    then show ?thesis by (simp add: field_simps)
  qed
  have "0 < (of_int k :: rat)" "(of_int k :: rat) < 2 ^ 40 / 10 + 1" using kn n by linarith+
  then have k: "1 \<le> k" "k \<le> 2 ^ 39"
  proof -
    show "1 \<le> k" using \<open>0 < (of_int k :: rat)\<close> by simp
    have "(of_int k :: rat) < of_int (2 ^ 39)" using \<open>(of_int k :: rat) < 2 ^ 40 / 10 + 1\<close> by simp
    then show "k \<le> 2 ^ 39" by (simp only: of_int_less_iff less_imp_le)
  qed
  let ?x = "of_nat n * tenth :: rat"
  have split: "?x = of_nat n / 10 + of_nat n / (10 * 2 ^ 54)"
    using tenth_split[of "int n"] by (simp only: of_int_of_nat_eq)
  have "?x \<le> of_int k + of_int k / 2 ^ 54"
  proof -
    have "of_nat n / (10 * 2 ^ 54) \<le> (of_int k / 2 ^ 54 :: rat)" using kn(1) by (simp add: field_simps)
    then show ?thesis unfolding split by (rule add_mono[OF kn(1)])
  qed
  then have upper: "f_exact ?x \<le> of_int k"
    using f_exact_mono f_exact_just_above[of k] k by fastforce
  have "0 \<le> of_nat n / (10 * 2 ^ 54 :: rat)" by simp
  then have "of_int k - 15 / 16 \<le> ?x" unfolding split using gap by linarith
  moreover have "representable (of_int k - 15 / 16)"
    using representable_grid[of "of_int k - 15 / 16" "16 * k - 15" "- 4"] k by (simp add: power_int_minus field_simps)
  ultimately have lower: "of_int k - 15 / 16 \<le> f_exact ?x"
    using f_exact_mono f_exact_representable by metis
  have "(of_int k :: rat) \<le> of_int (2 ^ 39)" using k(2) by (simp only: of_int_le_iff)
  also have "\<dots> < f_limit" by (simp add: f_limit_def)
  finally have "\<bar>f_exact ?x\<bar> < f_limit" using upper lower k(1)
    using f_exact_nonneg[of ?x] n by (simp add: tenth_def)
  then have "f_round ?x = FFin (f_exact ?x)" by (simp add: f_round_def Let_def)
  then show ?thesis using upper lower
    unfolding k_def[symmetric] by (simp add: ceiling_unique)
qed

lemma decile_index_value:
  assumes "1 \<le> n" and "n \<le> 2 ^ 40"
  shows "decile_index n = \<lceil>of_nat n / (10::rat)\<rceil> - 1" and "0 \<le> decile_index n" and "decile_index n < int n"
proof -
  have k: "1 \<le> \<lceil>of_nat n / (10::rat)\<rceil>" "\<lceil>of_nat n / (10::rat)\<rceil> \<le> int n"
    using assms(1) by (simp_all add: one_le_ceiling ceiling_le_iff)
  then show "decile_index n = \<lceil>of_nat n / (10::rat)\<rceil> - 1"
    using ceiling_tenth[OF assms] by (simp add: decile_index_def)
  then show "0 \<le> decile_index n" "decile_index n < int n" using k by simp_all
qed

lemma count_above:
  assumes "sorted (map (\<lambda>x. - fval x) xs)" and "i < length xs"
  shows "Suc i \<le> length (filter (\<lambda>x. fval (xs ! i) \<le> fval x) xs)"
    and "length (filter (\<lambda>x. fval (xs ! i) < fval x) xs) \<le> i"
proof -
  have le: "fval (xs ! b) \<le> fval (xs ! a)" if "a \<le> b" "b < length xs" for a b
    using sorted_nth_mono[OF assms(1), of a b] that by simp
  have "filter (\<lambda>x. fval (xs ! i) \<le> fval x) (take (Suc i) xs) = take (Suc i) xs"
    using le assms(2) by (auto simp: filter_id_conv in_set_conv_nth)
  then have "length (take (Suc i) xs) \<le> length (filter (\<lambda>x. fval (xs ! i) \<le> fval x) (take (Suc i) xs @ drop (Suc i) xs))"
    by (simp only: filter_append length_append)
  then show "Suc i \<le> length (filter (\<lambda>x. fval (xs ! i) \<le> fval x) xs)" using assms(2) by simp
  have "filter (\<lambda>x. fval (xs ! i) < fval x) (drop i xs) = []"
    using le assms(2) by (auto simp: filter_empty_conv in_set_conv_nth leD)
  then have "length (filter (\<lambda>x. fval (xs ! i) < fval x) (take i xs @ drop i xs)) \<le> length (take i xs)"
    by (simp only: filter_append append_Nil2 length_filter_le)
  then show "length (filter (\<lambda>x. fval (xs ! i) < fval x) xs) \<le> i" using assms(2) by simp
qed

lemma length_filter_sort: "length (filter P (sort_key f xs)) = length (filter P xs)"
proof -
  have "mset (filter P (sort_key f xs)) = mset (filter P xs)" by simp
  then show ?thesis by (metis size_mset)
qed

lemma threshold_counts:
  assumes "list_all float_finite ready" and "ready \<noteq> []" and "length ready \<le> 2 ^ 40"
  shows "\<exists>t. decile_threshold ready = Inr (Some (FFin t)) \<and> FFin t \<in> set ready
    \<and> \<lceil>of_nat (length ready) / (10::rat)\<rceil> \<le> int (length (filter (\<lambda>x. t \<le> fval x) ready))
    \<and> int (length (filter (\<lambda>x. t < fval x) ready)) < \<lceil>of_nat (length ready) / (10::rat)\<rceil>"
proof -
  let ?xs = "descending ready" and ?n = "length ready"
  define i where "i = nat (decile_index ?n)"
  have n: "1 \<le> ?n" using assms(2) by (simp add: Suc_le_eq)
  note idx = decile_index_value[OF n assms(3)]
  then have i: "i < length ?xs" "decile_index ?n = int i" "\<lceil>of_nat ?n / (10::rat)\<rceil> = int (Suc i)"
    using idx(2,3) unfolding i_def descending_def length_sort by (linarith, linarith, simp add: idx(1))
  have "sorted (map (\<lambda>x. - fval x) ?xs)" by (simp add: descending_def)
  note counts = count_above[OF this i(1)]
  have mem: "?xs ! i \<in> set ready" using nth_mem[OF i(1)] by (simp add: descending_def)
  then obtain t where t: "?xs ! i = FFin t" using assms(1) by (auto simp: list_all_iff float_finite_iff)
  have "decile_threshold ready = Inr (Some (FFin t))"
    using assms(2) i t by (simp add: decile_threshold_def)
  moreover have "length (filter P ?xs) = length (filter P ready)" for P
    by (simp add: descending_def length_filter_sort)
  ultimately show ?thesis using counts mem t i(3) by (intro exI[of _ t]) simp
qed

lemma reach_bar:
  assumes "valid_bar b = Inr ()" and "0 < p"
    and "\<forall>v\<in>{mb_high b, mb_low b}. \<exists>x. abs_return (FFin p) v = Inr (FFin x) \<and> x \<le> m"
  shows "\<exists>hi lo. abs_return (FFin p) (mb_high b) = Inr (FFin hi) \<and> abs_return (FFin p) (mb_low b) = Inr (FFin lo)
    \<and> bar_reaches (FFin p) (FFin t) b = Inr (t \<le> max hi lo)"
proof -
  obtain hi lo where "abs_return (FFin p) (mb_high b) = Inr (FFin hi)" "abs_return (FFin p) (mb_low b) = Inr (FFin lo)"
    using assms(3) by auto
  then show ?thesis by (auto simp: bar_reaches_def f_max2_def max_def)
qed

text \<open>The first bar of a path at which a return reaches the threshold.\<close>

lemma first_reaching_found:
  assumes "valid_bars bars" and "0 < p"
    and "\<forall>b\<in>set bars. \<forall>v\<in>{mb_high b, mb_low b}. \<exists>x. abs_return (FFin p) v = Inr (FFin x) \<and> x \<le> m"
  shows "\<exists>first. first_reaching (FFin p) (FFin t) bars = Inr first
    \<and> (first \<noteq> None \<longleftrightarrow> (\<exists>b\<in>set bars. \<exists>v\<in>{mb_high b, mb_low b}. \<exists>x\<ge>t. abs_return (FFin p) v = Inr (FFin x)))"
  using assms(1,3)
proof (induction bars)
  case (Cons b bars)
  obtain hi lo where b: "abs_return (FFin p) (mb_high b) = Inr (FFin hi)" "abs_return (FFin p) (mb_low b) = Inr (FFin lo)"
      "bar_reaches (FFin p) (FFin t) b = Inr (t \<le> max hi lo)"
    using reach_bar[of b p m t] Cons.prems assms(2) by (auto simp: valid_bars_def)
  have "\<exists>first. first_reaching (FFin p) (FFin t) bars = Inr first
    \<and> (first \<noteq> None \<longleftrightarrow> (\<exists>b\<in>set bars. \<exists>v\<in>{mb_high b, mb_low b}. \<exists>x\<ge>t. abs_return (FFin p) v = Inr (FFin x)))"
    using Cons by (auto simp: valid_bars_def)
  then show ?case using b by (cases "t \<le> max hi lo") (auto simp: max_def split: if_splits)
qed simp

lemma ready_row_facts:
  assumes "sees_only_the_future d inputs r h now f (row, bars, price)" and "oc_status row = OutReady"
    and "reader_valid d r"
  shows "\<exists>p m. price = Some (FFin p) \<and> 0 < p \<and> oc_max_abs_return row = Some (FFin m) \<and> greatest_return (FFin p) bars m"
  using assms unfolding sees_only_the_future_def by auto

text \<open>The values along which the threshold is taken, and when a row is timed.\<close>

definition timed_exactly_from ::
    "(outcome_evidence \<Rightarrow> string) \<Rightarrow> input_reference \<Rightarrow> rat \<Rightarrow> reference_result \<Rightarrow> bool" where
  "timed_exactly_from dg inputs t x \<longleftrightarrow>
     (case x of (row, bars, price) \<Rightarrow>
        \<exists>row'. timed_row dg inputs (Some (FFin t)) x = Inr row' \<and> oc_status row' = oc_status row
          \<and> oc_max_abs_return row' = oc_max_abs_return row
          \<and> (if oc_status row = OutReady
             then \<exists>m. oc_max_abs_return row = Some (FFin m) \<and> (oc_time_to_move row' \<noteq> None \<longleftrightarrow> t \<le> m)
             else row' = row))"

lemma timed_row_exact:
  assumes "sees_only_the_future d inputs r h now f (row, bars, price)" and "valid_bars bars"
    and "price = None \<longrightarrow> oc_status row \<noteq> OutReady"
  shows "timed_exactly_from dg inputs t (row, bars, price)"
proof (cases "oc_status row = OutReady")
  case False
  then have "timed_row dg inputs (Some (FFin t)) (row, bars, price) = Inr row"
    by (simp add: timed_row_def split: option.splits)
  then show ?thesis using False by (simp add: timed_exactly_from_def)
next
  case True
  obtain p m where pm: "price = Some (FFin p)" "0 < p" "oc_max_abs_return row = Some (FFin m)" "greatest_return (FFin p) bars m"
    using assms(1) True unfolding sees_only_the_future_def by auto
  note gr = pm(4)[unfolded greatest_return_def]
  obtain first where first: "first_reaching (FFin p) (FFin t) bars = Inr first"
      "first \<noteq> None \<longleftrightarrow> (\<exists>b\<in>set bars. \<exists>v\<in>{mb_high b, mb_low b}. \<exists>x\<ge>t. abs_return (FFin p) v = Inr (FFin x))"
    using first_reaching_found[OF assms(2) pm(2) conjunct2[OF gr], of t] by blast
  have "first \<noteq> None \<longleftrightarrow> t \<le> m"
  proof
    assume "first \<noteq> None"
    then obtain b v x where "b \<in> set bars" "v \<in> {mb_high b, mb_low b}" "t \<le> x" "abs_return (FFin p) v = Inr (FFin x)"
      using first(2) by blast
    with conjunct2[OF gr] show "t \<le> m" by fastforce
  next
    assume "t \<le> m"
    with conjunct1[OF gr] show "first \<noteq> None" unfolding first(2) by blast
  qed
  then show ?thesis using True pm(1,3) first(1)
    by (simp add: timed_exactly_from_def timed_row_def)
qed

lemma sound_bars_valid:
  assumes "reader_valid d r" and "cache_ok d c" and "reference_outcome dg d inputs f r h now c = (Inr (row, bars, price), c')"
  shows "valid_bars bars"
proof (cases "oc_status row = OutReady")
  case False
  then show ?thesis
    using reference_outcome_sound[OF assms] by (simp add: sees_only_the_future_def valid_bars_def)
next
  case True
  let ?k = "the (fr_reference_key f)" and ?cut = "outcome_cutoff (ir_decision_at inputs)"
  have base: "outcome_values (base_outcome inputs f h OfReference now) = [None, None, None, None, None]" by simp
  have none: "reference_refusal inputs f r h now = None"
    using assms(3) True refusal_status unavailable_result[OF _ base]
    by (fastforce simp: reference_outcome_def Let_def split: option.splits prod.splits)
  obtain bl c1 where bl: "reader_bars d r ?k (?cut - attention_minute) ?cut c = (Inr bl, c1)"
    using assms(3) none by (auto simp: reference_outcome_def Let_def split: prod.splits sum.splits)
  have c1: "cache_ok d c1" using reader_answers(2)[OF assms(1,2)] bl by (metis snd_conv)
  obtain bs c2 where bs: "reader_bars d r ?k ?cut (path_through inputs h) c1 = (Inr bs, c2)" "set bars \<subseteq> set bs"
    using assms(3) none bl True unavailable_result[OF _ base] settle_path_ready[OF _ True base]
    by (fastforce simp: reference_outcome_def Let_def split: prod.splits sum.splits if_splits)
  have "fst (reader_bars d r ?k ?cut (path_through inputs h) []) = Inr bs"
    using reader_answers(1)[OF assms(1) c1] bs(1) by (metis fst_conv)
  then show ?thesis using reader_bars_valid[OF assms(1)] bs(2) by (fastforce simp: valid_bars_def list_all_iff)
qed

lemma reference_outcomes_each:
  assumes "reader_valid d r" and "cache_ok d c" and "reference_outcomes dg d inputs r h now fs c = (Inr refs, c')"
    and "(f, row, bars, price) \<in> set refs"
  shows "sees_only_the_future d inputs r h now f (row, bars, price)" and "valid_bars bars"
proof -
  note all = reference_outcomes_all[OF assms(1-3)]
  show "sees_only_the_future d inputs r h now f (row, bars, price)" using all assms(4) by (auto simp: list_all_iff)
  have "list_all2 (\<lambda>f y. and_then (fst (reference_outcome dg d inputs f r h now [])) (\<lambda>x. Inr (f, x)) = Inr y) fs refs"
    using all by (simp add: map_ok_Inr)
  from list_all2_source[OF this assms(4)]
  have "fst (reference_outcome dg d inputs f r h now []) = Inr (row, bars, price)" by (auto simp: and_then_Inr)
  then show "valid_bars bars"
    using sound_bars_valid[OF assms(1) cache_ok_Nil, of dg inputs f h now row bars price] by (metis prod.collapse)
qed

lemma in_present: "x \<in> set (present xs) \<longleftrightarrow> Some x \<in> set xs"
  by (force simp: present_def)

lemma length_present: "length (present xs) \<le> length xs"
  by (simp add: present_def)


section \<open>Settling twice\<close>

fun put_all :: "outcome_row list \<Rightarrow> attention_db \<Rightarrow> outcome_row list result \<times> attention_db" where
  "put_all [] db = (Inr [], db)"
| "put_all (r # rs) db =
     (case put_outcome r db of
        (Inl e, db1) \<Rightarrow> (Inl e, db1)
      | (Inr r', db1) \<Rightarrow>
          (case put_all rs db1 of (Inl e, db2) \<Rightarrow> (Inl e, db2) | (Inr rs', db2) \<Rightarrow> (Inr (r' # rs'), db2)))"

lemma put_all_append:
  "put_all (xs @ ys) db = (case put_all xs db of (Inl e, db1) \<Rightarrow> (Inl e, db1)
     | (Inr rs, db1) \<Rightarrow> (case put_all ys db1 of (Inl e, db2) \<Rightarrow> (Inl e, db2) | (Inr rs', db2) \<Rightarrow> (Inr (rs @ rs'), db2)))"
  by (induction xs arbitrary: db) (auto split: prod.splits sum.splits)

lemma put_outcome_latest:
  assumes "editions_ok db" and "put_outcome r db = (Inr r', db')"
  shows "editions_ok db'" and "latest_edition (outcome_key r) db' = Some r'" and "same_observation r' r"
    and "check_outcome_row r = Inr ()" and "k \<noteq> outcome_key r \<Longrightarrow> latest_edition k db' = latest_edition k db"
proof -
  note facts = put_outcome_cases[OF assms]
  show "editions_ok db'" "latest_edition (outcome_key r) db' = Some r'" using facts by blast+
  show "same_observation r' r" using facts by (auto simp: same_observation_def)
  show "check_outcome_row r = Inr ()" using assms(2) by (auto simp: put_outcome_def split: sum.splits)
  show "latest_edition k db' = latest_edition k db" if "k \<noteq> outcome_key r"
    using facts that by (auto simp: latest_edition_def editions_of_def)
qed

lemma put_latest_again:
  assumes "latest_edition (outcome_key r) db = Some r'" and "same_observation r' r" and "check_outcome_row r = Inr ()"
  shows "put_outcome r db = (Inr r', db)"
  using assms by (simp add: put_outcome_def)

text \<open>Rows of distinct keys, once put, are found again as they were answered.\<close>

definition settled_as :: "attention_db \<Rightarrow> outcome_row \<Rightarrow> outcome_row \<Rightarrow> bool" where
  "settled_as db r r' \<longleftrightarrow>
     latest_edition (outcome_key r) db = Some r' \<and> same_observation r' r \<and> check_outcome_row r = Inr ()"

lemma put_all_settles:
  assumes "editions_ok db" and "put_all rs db = (Inr rows, db')" and "distinct (map outcome_key rs)"
  shows "editions_ok db' \<and> list_all2 (settled_as db') rs rows
    \<and> (\<forall>k. k \<notin> outcome_key ` set rs \<longrightarrow> latest_edition k db' = latest_edition k db)"
  using assms
proof (induction rs arbitrary: db rows)
  case (Cons r rs)
  obtain r' db1 rest where p: "put_outcome r db = (Inr r', db1)" "put_all rs db1 = (Inr rest, db')" "rows = r' # rest"
    using Cons.prems(2) by (auto split: prod.splits sum.splits)
  note latest = put_outcome_latest[OF Cons.prems(1) p(1)]
  have ih: "editions_ok db'" "list_all2 (settled_as db') rs rest"
      "\<forall>k. k \<notin> outcome_key ` set rs \<longrightarrow> latest_edition k db' = latest_edition k db1"
    using Cons.IH[OF latest(1) p(2)] Cons.prems(3) by auto
  have "outcome_key r \<notin> outcome_key ` set rs" using Cons.prems(3) by simp
  then have "latest_edition (outcome_key r) db' = latest_edition (outcome_key r) db1" by (rule ih(3)[rule_format])
  then have "settled_as db' r r'" using latest(2-4) by (simp add: settled_as_def)
  moreover have "\<forall>k. k \<notin> outcome_key ` set (r # rs) \<longrightarrow> latest_edition k db' = latest_edition k db"
  proof (intro allI impI)
    fix k
    assume "k \<notin> outcome_key ` set (r # rs)"
    then have "latest_edition k db' = latest_edition k db1" "k \<noteq> outcome_key r" using ih(3)[rule_format, of k] by auto
    then show "latest_edition k db' = latest_edition k db" using latest(5) by metis
  qed
  ultimately show ?case using ih(1,2) p(3) by simp
qed simp

lemma put_all_again:
  "list_all2 (settled_as db) rs rows \<Longrightarrow> put_all rs db = (Inr rows, db)"
proof (induction rs rows rule: list_all2_induct)
  case (Cons r rs r' rows)
  then show ?case using put_latest_again[of r db r'] by (simp add: settled_as_def)
qed simp

lemma put_all_tables:
  "db_generations (snd (put_all rs db)) = db_generations db \<and> db_features (snd (put_all rs db)) = db_features db"
proof (induction rs arbitrary: db)
  case (Cons r rs)
  have "db_generations (snd (put_outcome r db)) = db_generations db" "db_features (snd (put_outcome r db)) = db_features db"
    by (simp_all add: put_outcome_tables)
  with Cons show ?case by (auto split: prod.splits sum.splits) (metis snd_conv)+
qed simp

section \<open>Rows without the cache\<close>

definition settled_pair ::
    "(outcome_evidence \<Rightarrow> string) \<Rightarrow> 'raw disk \<Rightarrow> input_reference \<Rightarrow> reader \<Rightarrow> horizon \<Rightarrow> int \<Rightarrow> pyfloat option
       \<Rightarrow> feature_row \<times> reference_result \<Rightarrow> outcome_row list result" where
  "settled_pair dg d inputs r h now threshold x =
     and_then (timed_row dg inputs threshold (snd x)) (\<lambda>row.
     and_then (fst (native_outcome dg d inputs (fst x) r h now [])) (\<lambda>n. Inr [row, n]))"

definition horizon_rows ::
    "(outcome_evidence \<Rightarrow> string) \<Rightarrow> 'raw disk \<Rightarrow> input_reference \<Rightarrow> feature_row list \<Rightarrow> reader \<Rightarrow> int \<Rightarrow> horizon
       \<Rightarrow> outcome_row list result" where
  "horizon_rows dg d inputs fs r now h =
     and_then (map_ok (\<lambda>f. and_then (fst (reference_outcome dg d inputs f r h now [])) (\<lambda>x. Inr (f, x))) fs) (\<lambda>refs.
     and_then (decile_threshold (ready_returns refs)) (\<lambda>th.
     and_then (map_ok (settled_pair dg d inputs r h now th) refs) (\<lambda>rows. Inr (concat rows))))"

lemma native_outcome_cache:
  assumes "reader_valid d r" and "cache_ok d c"
  shows "cache_ok d (snd (native_outcome dg d inputs f r h now c))"
    and "fst (native_outcome dg d inputs f r h now c) = fst (native_outcome dg d inputs f r h now [])"
  using reader_answers(3,4)[OF assms, of "fr_asset_id f" "outcome_cutoff (ir_decision_at inputs)" "path_through inputs h"] assms(2)
  by (auto simp: native_outcome_def Let_def split: option.splits prod.splits sum.splits)

lemma settle_row_puts:
  assumes "reader_valid d r" and "cache_ok d c"
  shows "settle_row dg d inputs r h now th x (db, c) = (Inr rows, db', c') \<Longrightarrow>
      cache_ok d c' \<and> (\<exists>pair. settled_pair dg d inputs r h now th x = Inr pair \<and> put_all pair db = (Inr rows, db'))"
    and "settled_pair dg d inputs r h now th x = Inr pair \<Longrightarrow> put_all pair db = (Inr rows, db') \<Longrightarrow>
      \<exists>c'. cache_ok d c' \<and> settle_row dg d inputs r h now th x (db, c) = (Inr rows, db', c')"
proof -
  obtain n c1 where n: "native_outcome dg d inputs (fst x) r h now c = (n, c1)" "cache_ok d c1"
    using native_outcome_cache(1)[OF assms] by (metis prod.collapse)
  have n': "fst (native_outcome dg d inputs (fst x) r h now []) = n"
    using native_outcome_cache(2)[OF assms] n(1) by (metis fst_conv)
  show "settle_row dg d inputs r h now th x (db, c) = (Inr rows, db', c') \<Longrightarrow>
      cache_ok d c' \<and> (\<exists>pair. settled_pair dg d inputs r h now th x = Inr pair \<and> put_all pair db = (Inr rows, db'))"
    using n n' by (auto simp: settle_row_def settled_pair_def split: sum.splits prod.splits)
  show "settled_pair dg d inputs r h now th x = Inr pair \<Longrightarrow> put_all pair db = (Inr rows, db') \<Longrightarrow>
      \<exists>c'. cache_ok d c' \<and> settle_row dg d inputs r h now th x (db, c) = (Inr rows, db', c')"
    using n n' by (auto simp: settle_row_def settled_pair_def and_then_Inr split: sum.splits prod.splits)
qed

lemma settle_rows_put:
  assumes "reader_valid d r"
  shows "cache_ok d c \<Longrightarrow> settle_rows (settle_row dg d inputs r h now th) xs (db, c) = (Inr rows, db', c') \<Longrightarrow>
      cache_ok d c' \<and> (\<exists>pairs. map_ok (settled_pair dg d inputs r h now th) xs = Inr pairs \<and> put_all (concat pairs) db = (Inr rows, db'))"
proof (induction xs arbitrary: db c rows)
  case (Cons x xs)
  obtain rows1 db1 c1 rows2 where s: "settle_row dg d inputs r h now th x (db, c) = (Inr rows1, db1, c1)"
      "settle_rows (settle_row dg d inputs r h now th) xs (db1, c1) = (Inr rows2, db', c')" "rows = rows1 @ rows2"
    using Cons.prems(2) by (auto split: prod.splits sum.splits)
  obtain pair where p: "cache_ok d c1" "settled_pair dg d inputs r h now th x = Inr pair" "put_all pair db = (Inr rows1, db1)"
    using settle_row_puts(1)[OF assms Cons.prems(1) s(1)] by blast
  obtain pairs where q: "cache_ok d c'" "map_ok (settled_pair dg d inputs r h now th) xs = Inr pairs"
      "put_all (concat pairs) db1 = (Inr rows2, db')"
    using Cons.IH[OF p(1) s(2)] by blast
  then show ?case using p s(3) by (simp add: put_all_append)
qed simp

lemma put_rows_settle:
  assumes "reader_valid d r"
  shows "cache_ok d c \<Longrightarrow> map_ok (settled_pair dg d inputs r h now th) xs = Inr pairs \<Longrightarrow>
      put_all (concat pairs) db = (Inr rows, db') \<Longrightarrow>
      \<exists>c'. cache_ok d c' \<and> settle_rows (settle_row dg d inputs r h now th) xs (db, c) = (Inr rows, db', c')"
proof (induction xs arbitrary: db c rows pairs)
  case (Cons x xs)
  obtain pair rest where p: "settled_pair dg d inputs r h now th x = Inr pair"
      "map_ok (settled_pair dg d inputs r h now th) xs = Inr rest" "pairs = pair # rest"
    using Cons.prems(2) by (auto simp: and_then_Inr)
  obtain rows1 db1 rows2 where q: "put_all pair db = (Inr rows1, db1)" "put_all (concat rest) db1 = (Inr rows2, db')"
      "rows = rows1 @ rows2"
    using Cons.prems(3) p(3) by (auto simp: put_all_append split: prod.splits sum.splits)
  obtain c1 where c1: "cache_ok d c1" "settle_row dg d inputs r h now th x (db, c) = (Inr rows1, db1, c1)"
    using settle_row_puts(2)[OF assms Cons.prems(1) p(1) q(1)] by blast
  obtain c' where "cache_ok d c'" "settle_rows (settle_row dg d inputs r h now th) xs (db1, c1) = (Inr rows2, db', c')"
    using Cons.IH[OF c1(1) p(2) q(2)] by blast
  then show ?case using c1(2) q(3) by simp
qed simp

lemma settle_horizon_rows:
  assumes "reader_valid d r" and "cache_ok d c"
  shows "settle_horizon dg d inputs fs r now h (db, c) = (Inr rows, db', c') \<Longrightarrow>
    cache_ok d c' \<and> (\<exists>rs. horizon_rows dg d inputs fs r now h = Inr rs \<and> put_all rs db = (Inr rows, db'))"
proof -
  assume run: "settle_horizon dg d inputs fs r now h (db, c) = (Inr rows, db', c')"
  obtain refs c1 th where s: "reference_outcomes dg d inputs r h now fs c = (Inr refs, c1)"
      "decile_threshold (ready_returns refs) = Inr th"
      "settle_rows (settle_row dg d inputs r h now th) refs (db, c1) = (Inr rows, db', c')"
    using run by (auto simp: settle_horizon_def split: prod.splits sum.splits)
  have refs: "cache_ok d c1"
      "map_ok (\<lambda>f. and_then (fst (reference_outcome dg d inputs f r h now [])) (\<lambda>x. Inr (f, x))) fs = Inr refs"
    using reference_outcomes_all[OF assms s(1)] by blast+
  obtain pairs where "cache_ok d c'" "map_ok (settled_pair dg d inputs r h now th) refs = Inr pairs"
      "put_all (concat pairs) db = (Inr rows, db')"
    using settle_rows_put[OF assms(1) refs(1) s(3)] by blast
  then show ?thesis using refs(2) s(2) by (simp add: horizon_rows_def)
qed

lemma reference_outcomes_run:
  assumes "reader_valid d r"
  shows "cache_ok d c \<Longrightarrow>
    map_ok (\<lambda>f. and_then (fst (reference_outcome dg d inputs f r h now [])) (\<lambda>x. Inr (f, x))) fs = Inr refs \<Longrightarrow>
    \<exists>c'. cache_ok d c' \<and> reference_outcomes dg d inputs r h now fs c = (Inr refs, c')"
proof (induction fs arbitrary: c refs)
  case (Cons f fs)
  obtain x rest where x: "fst (reference_outcome dg d inputs f r h now []) = Inr x" "refs = (f, x) # rest"
      "map_ok (\<lambda>f. and_then (fst (reference_outcome dg d inputs f r h now [])) (\<lambda>x. Inr (f, x))) fs = Inr rest"
    using Cons.prems(2) by (auto simp: and_then_Inr)
  obtain c1 where c1: "reference_outcome dg d inputs f r h now c = (Inr x, c1)" "cache_ok d c1"
    using reference_outcome_cache[OF assms Cons.prems(1)] x(1) by (metis prod.collapse)
  obtain c2 where "cache_ok d c2" "reference_outcomes dg d inputs r h now fs c1 = (Inr rest, c2)"
    using Cons.IH[OF c1(2) x(3)] by blast
  then show ?case using c1(1) x(2) by simp
qed simp

lemma horizon_rows_settle:
  assumes "reader_valid d r" and "cache_ok d c" and "horizon_rows dg d inputs fs r now h = Inr rs"
    and "put_all rs db = (Inr rows, db')"
  shows "\<exists>c'. cache_ok d c' \<and> settle_horizon dg d inputs fs r now h (db, c) = (Inr rows, db', c')"
proof -
  obtain refs th pairs where p:
      "map_ok (\<lambda>f. and_then (fst (reference_outcome dg d inputs f r h now [])) (\<lambda>x. Inr (f, x))) fs = Inr refs"
      "decile_threshold (ready_returns refs) = Inr th" "map_ok (settled_pair dg d inputs r h now th) refs = Inr pairs"
      "rs = concat pairs"
    using assms(3) by (auto simp: horizon_rows_def and_then_Inr)
  obtain c1 where c1: "cache_ok d c1" "reference_outcomes dg d inputs r h now fs c = (Inr refs, c1)"
    using reference_outcomes_run[OF assms(1,2) p(1)] by blast
  obtain c' where "cache_ok d c'" "settle_rows (settle_row dg d inputs r h now th) refs (db, c1) = (Inr rows, db', c')"
    using put_rows_settle[OF assms(1) c1(1) p(3)] assms(4) p(4) by blast
  then show ?thesis using c1(2) p(2) by (auto simp: settle_horizon_def)
qed

section \<open>Settlement is repeatable\<close>

definition row_key :: "input_reference \<Rightarrow> horizon \<Rightarrow> outcome_family \<Rightarrow> feature_row \<Rightarrow> outcome_key" where
  "row_key inputs h fam f = (ir_generation_id inputs, fr_asset_id f, horizon_minutes h, family_text fam)"

lemma base_key: "outcome_key (base_outcome inputs f h fam now) = row_key inputs h fam f"
  by (simp add: outcome_key_def base_outcome_def row_key_def)

lemma unavailable_key: "unavailable dg base ev st reason = Inr (row, x) \<Longrightarrow> outcome_key row = outcome_key base"
  by (auto simp: unavailable_def and_then_Inr build_Inr outcome_key_def)

lemma reference_key_of:
  assumes "fst (reference_outcome dg d inputs f r h now []) = Inr (row, x)"
  shows "outcome_key row = row_key inputs h OfReference f"
proof -
  have s: "outcome_key row = outcome_key base" if "settle_path dg base ev key bl bars = Inr (row, x)" for base ev key bl bars
    using that unavailable_key
    by (auto simp: settle_path_def and_then_Inr build_Inr outcome_key_def Let_def split: if_splits)
  show ?thesis using assms s unavailable_key
    by (auto simp: reference_outcome_def Let_def base_key split: option.splits prod.splits sum.splits if_splits)
qed

lemma native_row_key: "native_row dg inputs f h now ps v = Inr row \<Longrightarrow> outcome_key row = row_key inputs h OfNative f"
  by (auto simp: native_row_def build_Inr outcome_key_def base_outcome_def row_key_def split: prod.splits)

lemma native_key_of:
  "fst (native_outcome dg d inputs f r h now []) = Inr row \<Longrightarrow> outcome_key row = row_key inputs h OfNative f"
  using native_row_key
  by (auto simp: native_outcome_def and_then_Inr Let_def split: option.splits prod.splits sum.splits)

lemma timed_key: "timed_row dg inputs th (row, x) = Inr row' \<Longrightarrow> outcome_key row' = outcome_key row"
  by (auto simp: timed_row_def and_then_Inr outcome_key_def split: prod.splits option.splits if_splits)

lemma horizon_keys:
  assumes "horizon_rows dg d inputs fs r now h = Inr rs"
  shows "map outcome_key rs = concat (map (\<lambda>f. [row_key inputs h OfReference f, row_key inputs h OfNative f]) fs)"
proof -
  obtain refs th pairs where p:
      "list_all2 (\<lambda>f y. and_then (fst (reference_outcome dg d inputs f r h now [])) (\<lambda>x. Inr (f, x)) = Inr y) fs refs"
      "list_all2 (\<lambda>x y. settled_pair dg d inputs r h now th x = Inr y) refs pairs" "rs = concat pairs"
    using assms by (auto simp: horizon_rows_def and_then_Inr map_ok_Inr)
  have "map (map outcome_key) pairs = map (\<lambda>f. [row_key inputs h OfReference f, row_key inputs h OfNative f]) fs"
    using p(1,2)
  proof (induction fs refs arbitrary: pairs rule: list_all2_induct)
    case (Cons f fs y refs)
    obtain x where y: "fst (reference_outcome dg d inputs f r h now []) = Inr x" "y = (f, x)"
      using Cons.hyps by (auto simp: and_then_Inr)
    obtain row t where x: "x = (row, t)" by (cases x)
    obtain pair rest where pr: "pairs = pair # rest" "settled_pair dg d inputs r h now th y = Inr pair"
        "list_all2 (\<lambda>x y. settled_pair dg d inputs r h now th x = Inr y) refs rest"
      using Cons.prems by (auto simp: list_all2_Cons1)
    obtain row' n where "pair = [row', n]" "timed_row dg inputs th (row, t) = Inr row'"
        "fst (native_outcome dg d inputs f r h now []) = Inr n"
      using pr(2) by (auto simp: settled_pair_def and_then_Inr y(2) x)
    then have "map outcome_key pair = [row_key inputs h OfReference f, row_key inputs h OfNative f]"
      using reference_key_of[OF y(1)[unfolded x]] by (simp add: timed_key native_key_of)
    then show ?case using Cons.IH[OF pr(3)] pr(1) by simp
  qed simp
  then show ?thesis by (simp add: p(3) map_concat)
qed

lemma distinct_row_keys:
  assumes "distinct (map fr_asset_id fs)"
  shows "distinct (concat (map (\<lambda>f. [row_key inputs h OfReference f, row_key inputs h OfNative f]) fs))"
  using assms by (induction fs) (auto simp: row_key_def)

lemma scoped_valid:
  "reader_valid d r \<Longrightarrow> reader_for_generation inputs r = Some r' \<Longrightarrow> reader_valid d r'"
  by (auto simp: reader_valid_def reader_for_generation_def joined_for_generation_def readers_ok_def list_all_iff
      split: reader.splits if_splits)

lemma put_all_stored: "stored sd file_of db \<Longrightarrow> stored sd file_of (snd (put_all rs db))"
proof (induction rs arbitrary: db)
  case (Cons r rs)
  have "stored sd file_of (snd (put_outcome r db))" using Cons.prems by (rule stored_outcome)
  with Cons.IH show ?case by (auto split: prod.splits sum.splits) (metis snd_conv)+
qed simp

lemma evidence_tables:
  assumes "db_generations db' = db_generations db" and "db_features db' = db_features db"
  shows "evidence_generation i db' = evidence_generation i db"
  using assms by (simp add: evidence_generation_def decode_evidence_generation_def features_of_def split: option.splits)

lemma evidence_features_distinct:
  assumes "db_ok db" and "evidence_generation i db = Inr (inputs, fs, response)"
  shows "distinct (map fr_asset_id fs)"
proof -
  obtain j where fs: "fs = features_of db j"
    using assms(2) by (auto simp: evidence_generation_def decode_evidence_generation_def split: option.splits)
  have "distinct (map feature_key (filter (\<lambda>(k, _). k = j) (db_features db)))"
    using assms(1) by (simp add: tables_simps distinct_map_filter)
  then have "distinct (map (\<lambda>x. fr_asset_id (snd x)) (filter (\<lambda>(k, _). k = j) (db_features db)))"
    by (auto simp: distinct_map inj_on_def feature_key_def)
  then have "distinct (map fr_asset_id (map snd (filter (\<lambda>(k, _). k = j) (db_features db))))" by (simp add: comp_def)
  then show ?thesis unfolding fs features_of_def using sorted_sort_key_distinct by blast
qed

text \<open>
  C8. Settling a generation is repeatable.  After a settlement that succeeded, every row it answered is the latest
  edition of its key, saved evidence is untouched and the store remains one that its operations can reach.  Settling
  again at the same time, over the same evidence and with whatever the fragment cache then holds, answers the same rows,
  invents no correction and leaves the database as it is.
\<close>

theorem settlement_is_repeatable:
  assumes "stored sd file_of db" and "reader_valid d r" and "cache_ok d c"
    and "settle_generation_outcomes dg d r i now (db, c) = (Inr rows, db', c')"
  shows "stored sd file_of db' \<and> list_all (\<lambda>x. latest_edition (outcome_key x) db' = Some x) rows
    \<and> evidence_generation k db' = evidence_generation k db
    \<and> fst (settle_generation_outcomes dg d r i now (db', c')) = Inr rows
    \<and> fst (snd (settle_generation_outcomes dg d r i now (db', c'))) = db'"
proof -
  obtain inputs fs response where ev: "evidence_generation i db = Inr (inputs, fs, response)"
    using assms(4) by (auto simp: settle_generation_outcomes_def split: sum.splits)
  note ok = stored_ok[OF assms(1)]
  show ?thesis
  proof (cases "reader_for_generation inputs r")
    case None
    then show ?thesis using assms(1,4) ev by (auto simp: settle_generation_outcomes_def)
  next
    case (Some scoped)
    have valid: "reader_valid d scoped" using scoped_valid[OF assms(2) Some] .
    obtain rows1 db1 c1 rows2 where s: "\<not> now < ir_decision_at inputs"
        "settle_horizon dg d inputs fs scoped now H15 (db, c) = (Inr rows1, db1, c1)"
        "settle_horizon dg d inputs fs scoped now H60 (db1, c1) = (Inr rows2, db', c')" "rows = rows1 @ rows2"
      using assms(4) ev Some by (auto simp: settle_generation_outcomes_def split: if_splits prod.splits sum.splits)
    obtain rs1 where p1: "cache_ok d c1" "horizon_rows dg d inputs fs scoped now H15 = Inr rs1"
        "put_all rs1 db = (Inr rows1, db1)"
      using settle_horizon_rows[OF valid assms(3) s(2)] by blast
    obtain rs2 where p2: "cache_ok d c'" "horizon_rows dg d inputs fs scoped now H60 = Inr rs2"
        "put_all rs2 db1 = (Inr rows2, db')"
      using settle_horizon_rows[OF valid p1(1) s(3)] by blast
    have fs: "distinct (map fr_asset_id fs)" using evidence_features_distinct ok ev by blast
    have keys: "map outcome_key (rs1 @ rs2)
        = concat (map (\<lambda>f. [row_key inputs H15 OfReference f, row_key inputs H15 OfNative f]) fs)
        @ concat (map (\<lambda>f. [row_key inputs H60 OfReference f, row_key inputs H60 OfNative f]) fs)"
      using horizon_keys[OF p1(2)] horizon_keys[OF p2(2)] by simp
    have dist: "distinct (map outcome_key (rs1 @ rs2))"
      unfolding keys distinct_append by (intro conjI distinct_row_keys fs) (auto simp: row_key_def)
    have all: "put_all (rs1 @ rs2) db = (Inr (rows1 @ rows2), db')" using p1(3) p2(3) by (simp add: put_all_append)
    have sett: "list_all2 (settled_as db') (rs1 @ rs2) (rows1 @ rows2)"
      using put_all_settles[OF conjunct2[OF ok] all dist] by blast
    have len: "length rs1 = length rows1"
    proof -
      have "distinct (map outcome_key rs1)" using dist by simp
      from put_all_settles[OF conjunct2[OF ok] p1(3) this] show ?thesis by (auto dest: list_all2_lengthD)
    qed
    then have parts: "list_all2 (settled_as db') rs1 rows1" "list_all2 (settled_as db') rs2 rows2"
      using sett by (simp_all add: list_all2_append)
    note again = put_all_again[OF parts(1)] put_all_again[OF parts(2)]
    obtain c2 where c2: "cache_ok d c2" "settle_horizon dg d inputs fs scoped now H15 (db', c') = (Inr rows1, db', c2)"
      using horizon_rows_settle[OF valid p2(1) p1(2) again(1)] by blast
    obtain c3 where c3: "settle_horizon dg d inputs fs scoped now H60 (db', c2) = (Inr rows2, db', c3)"
      using horizon_rows_settle[OF valid c2(1) p2(2) again(2)] by blast
    have tables: "db_generations db' = db_generations db" "db_features db' = db_features db"
      using put_all_tables[of "rs1 @ rs2" db] all by simp_all
    note evs = evidence_tables[OF tables]
    have "settle_generation_outcomes dg d r i now (db', c') = (Inr rows, db', c3)"
      using ev Some s(1,4) c2(2) c3 by (simp add: settle_generation_outcomes_def evs)
    moreover have "stored sd file_of db'" using put_all_stored[OF assms(1), of "rs1 @ rs2"] all by simp
    moreover have "latest_edition (outcome_key x) db' = Some x" if mem: "x \<in> set rows" for x
    proof -
      obtain y where "y \<in> set (rs1 @ rs2)" "settled_as db' y x"
        using list_all2_source[OF sett] mem s(4) by blast
      then have "latest_edition (outcome_key y) db' = Some x" by (simp add: settled_as_def)
      then have "x \<in> set (editions_of (outcome_key y) db')"
        using last_edition[of db' "outcome_key y"] stored_ok[OF calculation(2)] by (auto split: if_splits)
      then have "outcome_key x = outcome_key y" by (simp add: editions_of_def)
      with \<open>latest_edition (outcome_key y) db' = Some x\<close> show ?thesis by simp
    qed
    ultimately show ?thesis using evs by (simp add: list_all_iff)
  qed
qed

section \<open>A settled generation\<close>

definition sample_db :: attention_db where
  "sample_db = snd (save_generation (\<lambda>_. ''h'') (\<lambda>i. i) (plain_inputs ''g'' 330000)
     [plain_feature_row ''BTC'' (Some ''BINANCE:BTC:1'') 330000]
     (plain_response (plain_inputs ''g'' 330000) [plain_attention_row ''BTC'' (Some ''BINANCE:BTC:1'') 330000]) True empty_db)"

definition sample_path :: "nat \<Rightarrow> outcome_input" where
  "sample_path n = sample_input_data (map (\<lambda>i. 360000 + int i * 60000) [0..<n])"

lemma sample_path_valid: "valid_input (sample_path 1)" "valid_input (sample_path 16)"
  unfolding valid_input_def by code_simp+

lemma sample_reader_valid:
  "reader_valid sample_disk (Fixture (fixture_reader (sample_path 1)))"
  "reader_valid sample_disk (Fixture (fixture_reader (sample_path 16)))"
  using sample_path_valid by (auto simp: reader_valid_def)

lemma sample_stored: "stored (\<lambda>_. ''h'') (\<lambda>i. i) sample_db"
  unfolding sample_db_def by (intro stored.intros)

lemma sample_settles:
  "is_ok (fst (settle_generation_outcomes (\<lambda>_. ''f'') sample_disk (Fixture (fixture_reader (sample_path 1))) ''g''
     5000000 (sample_db, [])))"
  by code_simp

lemma settlement_is_repeatable_witness:
  "\<exists>rows db' c'. settle_generation_outcomes (\<lambda>_. ''f'') sample_disk (Fixture (fixture_reader (sample_path 1))) ''g''
       5000000 (sample_db, []) = (Inr rows, db', c')
     \<and> fst (settle_generation_outcomes (\<lambda>_. ''f'') sample_disk (Fixture (fixture_reader (sample_path 1))) ''g''
         5000000 (db', c')) = Inr rows"
proof -
  obtain rows db' c' where run: "settle_generation_outcomes (\<lambda>_. ''f'') sample_disk
      (Fixture (fixture_reader (sample_path 1))) ''g'' 5000000 (sample_db, []) = (Inr rows, db', c')"
    using sample_settles by (metis is_ok_iff prod.collapse)
  with settlement_is_repeatable[OF sample_stored sample_reader_valid(1) cache_ok_Nil this] show ?thesis by blast
qed

lemma flat_return: "percent_return (FFin 100) (FFin 100) = Inr (FFin 0)"
proof -
  have "f_round 1 = FFin 1" "f_round 0 = FFin 0"
    using f_round_representable[OF representable_int[of 1]] f_round_representable[OF representable_int[of 0]]
    by (simp_all add: f_limit_def)
  then show ?thesis by (simp add: percent_return_def f_sub_def)
qed

lemma flat_path: "max_abs_return (FFin 100) (map (\<lambda>e. flat_bar k e 100) (e # es)) = Inr (FFin 0)"
proof -
  have a: "abs_return (FFin 100) (FFin 100) = Inr (FFin 0)" by (simp add: abs_return_def flat_return)
  have z: "f_max2 (FFin 0) (FFin 0) = FFin 0" by (simp add: f_max2_def)
  have f: "((\<lambda>m. f_max2 m (FFin 0)) ^^ n) (FFin 0) = FFin 0" for n
    by (induction n) (simp_all add: z)
  have m: "map_ok (abs_return (FFin 100)) (replicate n (FFin 100)) = Inr (replicate n (FFin 0))" for n
    by (induction n) (simp_all add: a)
  have "concat (map (\<lambda>b. [mb_high b, mb_low b]) (map (\<lambda>e. flat_bar k e 100) es)) = replicate (2 * length es) (FFin 100)" for es
    by (induction es) (simp_all add: flat_bar_def)
  from this[of "e # es"] show ?thesis
    unfolding max_abs_return_def by (simp add: m f_max_def f z a del: list.map)
qed


abbreviation sample_feature :: feature_row where
  "sample_feature \<equiv> plain_feature_row ''BTC'' (Some ''BINANCE:BTC:1'') 330000"

abbreviation sample_reader :: reader where
  "sample_reader \<equiv> Fixture (fixture_reader (sample_path 16))"

definition sample_ends :: "int list" where
  "sample_ends = map (\<lambda>i. 420000 + int i * 60000) [0..<15]"

lemma sample_reads:
  "fixture_bars (fixture_reader (sample_path 16)) ''BINANCE:BTC:1'' 300000 360000 = [flat_bar ''BINANCE:BTC:1'' 360000 100]"
  "fixture_bars (fixture_reader (sample_path 16)) ''BINANCE:BTC:1'' 360000 1260000
     = map (\<lambda>e. flat_bar ''BINANCE:BTC:1'' e 100) (420000 # tl sample_ends)"
  "reference_refusal (plain_inputs ''g'' 330000) sample_feature sample_reader H15 5000000 = None"
  "sort_key mb_end (map (\<lambda>e. flat_bar ''BINANCE:BTC:1'' e 100) (420000 # tl sample_ends))
     = map (\<lambda>e. flat_bar ''BINANCE:BTC:1'' e 100) (420000 # tl sample_ends)"
  "map mb_end (map (\<lambda>e. flat_bar ''BINANCE:BTC:1'' e 100) (420000 # tl sample_ends)) = path_minutes 360000 1260000"
  by code_simp+

lemma sample_times:
  "outcome_cutoff (ir_decision_at (plain_inputs ''g'' 330000)) = 360000" "path_through (plain_inputs ''g'' 330000) H15 = 1260000"
  "the (fr_reference_key sample_feature) = ''BINANCE:BTC:1''"
  by (simp_all add: plain_inputs_def outcome_cutoff_def path_through_def attention_minute_def plain_feature_row_def)

lemma sample_ready:
  "\<exists>row bars price. reference_outcome (\<lambda>_. ''f'') sample_disk (plain_inputs ''g'' 330000) sample_feature sample_reader H15 5000000 []
       = (Inr (row, bars, price), []) \<and> oc_status row = OutReady \<and> oc_max_abs_return row = Some (FFin 0)"
proof -
  let ?bars = "map (\<lambda>e. flat_bar ''BINANCE:BTC:1'' e 100) (420000 # tl sample_ends)"
  let ?base = "base_outcome (plain_inputs ''g'' 330000) sample_feature H15 OfReference 5000000"
  have keys: "\<not> list_ex (\<lambda>b. mb_key b \<noteq> ''BINANCE:BTC:1'') ?bars" by (auto simp: list_ex_iff flat_bar_def)
  have close: "mb_close (last ?bars) = FFin 100" by (simp add: last_map flat_bar_def del: list.map)
  have b: "mb_close (flat_bar k e 100) = FFin 100" "mb_key (flat_bar k e 100) = k" "mb_end (flat_bar k e 100) = e" for k e
    by (simp_all add: flat_bar_def)
  have "\<exists>row. settle_path (\<lambda>_. ''f'') ?base ev ''BINANCE:BTC:1'' (flat_bar ''BINANCE:BTC:1'' 360000 100) ?bars
      = Inr (row, ?bars, Some (FFin 100)) \<and> oc_status row = OutReady \<and> oc_max_abs_return row = Some (FFin 0)" for ev
    unfolding settle_path_def base_outcome_fields sample_times
    using keys sample_reads(5) flat_path[of "''BINANCE:BTC:1''" 420000 "tl sample_ends"] close flat_return
    by (simp add: b and_then_Inr build_Inr check_outcome_row_def at_least_def base_outcome_def sample_times
        attention_minute_def del: list.map)
  from this[of "\<lparr>rv_inputs = plain_inputs ''g'' 330000, rv_feature = sample_feature, rv_horizon = H15,
      rv_baseline = Some [flat_bar ''BINANCE:BTC:1'' 360000 100], rv_bars = Some ?bars, rv_reason = None\<rparr>"]
  obtain row where row: "settle_path (\<lambda>_. ''f'') ?base \<lparr>rv_inputs = plain_inputs ''g'' 330000, rv_feature = sample_feature,
      rv_horizon = H15, rv_baseline = Some [flat_bar ''BINANCE:BTC:1'' 360000 100], rv_bars = Some ?bars, rv_reason = None\<rparr>
      ''BINANCE:BTC:1'' (flat_bar ''BINANCE:BTC:1'' 360000 100) ?bars = Inr (row, ?bars, Some (FFin 100))"
      "oc_status row = OutReady" "oc_max_abs_return row = Some (FFin 0)"
    by blast
  have "reference_outcome (\<lambda>_. ''f'') sample_disk (plain_inputs ''g'' 330000) sample_feature sample_reader H15 5000000 []
      = (Inr (row, ?bars, Some (FFin 100)), [])"
    unfolding reference_outcome_def Let_def sample_times sample_reads(3)
    using row(1) by (simp add: reader_bars_def attention_minute_def sample_reads(1,2,4) b del: list.map)
  with row(2,3) show ?thesis by blast
qed

lemma sample_outcomes:
  "\<exists>refs. reference_outcomes (\<lambda>_. ''f'') sample_disk (plain_inputs ''g'' 330000) sample_reader H15 5000000 [sample_feature] []
       = (Inr refs, []) \<and> ready_returns refs = [FFin 0]"
  using sample_ready by (auto simp: ready_returns_def present_def)

lemma ready_outcomes_see_only_the_future_witness:
  "\<exists>refs. reference_outcomes (\<lambda>_. ''f'') sample_disk (plain_inputs ''g'' 330000) sample_reader H15 5000000 [sample_feature] []
       = (Inr refs, []) \<and> ready_returns refs = [FFin 0]
     \<and> list_all (\<lambda>(f, x). sees_only_the_future sample_disk (plain_inputs ''g'' 330000) sample_reader H15 5000000 f x) refs"
proof -
  obtain refs where "reference_outcomes (\<lambda>_. ''f'') sample_disk (plain_inputs ''g'' 330000) sample_reader H15 5000000
      [sample_feature] [] = (Inr refs, [])" "ready_returns refs = [FFin 0]"
    using sample_outcomes by blast
  with ready_outcomes_see_only_the_future[OF sample_reader_valid(2) cache_ok_Nil this(1)] show ?thesis by blast
qed


end
