(* ===== verification/Funding_Source.thy ===== *)
theory Funding_Source
  imports Market_Models Cycle_Scheduler
begin

text \<open>
  Settled funding history of one instrument (\<open>sources/funding.py\<close>, with the helpers it takes from
  \<open>sources/common.py\<close> and the envelope of \<open>sources/mexc.py\<close>).  The HTTP answer is an argument: a JSON value
  with the time of its receipt, or the failure that the request ended with.  So is how Python reads the text of a JSON
  value as an integer or as a decimal (\<open>int(str(value))\<close>, \<open>Decimal(str(value))\<close>).
\<close>

section \<open>Reading JSON\<close>

record json_reading =
  rd_int :: "json \<Rightarrow> int option"
  rd_decimal :: "json \<Rightarrow> pydec option"

definition refused :: "string \<Rightarrow> source_error + 'a" where
  "refused code = Inl (catalog_source_error code)"

text \<open>A \<open>ValueError\<close>, as the handler of the fetch sees it.\<close>

definition value_fault :: source_error where
  "value_fault = \<lparr>se_catalog_code = None, se_timeout = False, se_status = None, se_value_error = True\<rparr>"

definition require_mapping :: "json \<Rightarrow> source_error + (string \<times> json) list" where
  "require_mapping j = (case j of JObj kvs \<Rightarrow> Inr kvs | _ \<Rightarrow> refused ''source_unavailable'')"

definition require_list :: "json \<Rightarrow> source_error + json list" where
  "require_list j = (case j of JList xs \<Rightarrow> Inr xs | _ \<Rightarrow> refused ''source_unavailable'')"

definition source_text :: "json \<Rightarrow> string option" where
  "source_text j = (case j of JStr s \<Rightarrow> (if strip s = [] then None else Some (strip s)) | _ \<Rightarrow> None)"

text \<open>
  \<open>datetime.fromtimestamp(x, tz=UTC)\<close> of a positive float: the fraction times a million, rounded to even; the
  year 10000 is refused.
\<close>

definition from_timestamp :: "pyfloat \<Rightarrow> pydt option" where
  "from_timestamp x =
     (case x of
        FFin s \<Rightarrow>
          let us = \<lfloor>s\<rfloor> * second_us + round_half_even (fval (f_mul (FFin (s - of_int \<lfloor>s\<rfloor>)) (FFin 1000000)))
          in if us < 253402300800 * second_us then Some (utc us) else None
      | _ \<Rightarrow> None)"

definition timestamp_from_milliseconds :: "json_reading \<Rightarrow> json \<Rightarrow> pydt option" where
  "timestamp_from_milliseconds rd j =
     (case j of JBool _ \<Rightarrow> None
      | _ \<Rightarrow> (case rd_int rd j of None \<Rightarrow> None
              | Some ms \<Rightarrow> if ms \<le> 0 then None else from_timestamp (f_round (of_int ms / 1000))))"

definition finite_decimal :: "json_reading \<Rightarrow> json \<Rightarrow> pydec option" where
  "finite_decimal rd j =
     (case j of JNull \<Rightarrow> None | JBool _ \<Rightarrow> None
      | _ \<Rightarrow> (case rd_decimal rd j of None \<Rightarrow> None
              | Some x \<Rightarrow> if dec_finite x then Some x else None))"

section \<open>Events and batches\<close>

record funding_event =
  fe_venue :: venue
  fe_symbol :: string
  fe_at :: pydt
  fe_rate :: pydec
  fe_observed :: pydt
  fe_raw :: "(string \<times> json) list"

record funding_batch =
  fb_venue :: venue
  fb_symbol :: string
  fb_endpoint :: string
  fb_observed :: pydt
  fb_hash :: string
  fb_events :: "funding_event list"
  fb_raw :: json

record field_names =
  fn_symbol :: string
  fn_rate :: string
  fn_timestamp :: string

definition linear_perpetual :: "instrument \<Rightarrow> bool" where
  "linear_perpetual i \<longleftrightarrow> ci_active i \<and> ci_market_type i = ''linear_perpetual''"

definition validate_request :: "instrument \<Rightarrow> pydt \<Rightarrow> pydt \<Rightarrow> unit result" where
  "validate_request i start_at end_at =
     first_error [require_aware start_at ''start_at'', require_aware end_at ''end_at'',
       (if instant end_at < instant start_at
        then raise_exn ValueError ''funding-history start must not be after end'' else Inr ()),
       (if \<not> linear_perpetual i
        then raise_exn ValueError ''funding history requires an active linear perpetual instrument'' else Inr ())]"

text \<open>One row; \<open>seen\<close> is the dictionary by timestamp, which keeps the first of equal events.\<close>

definition parse_row ::
    "json_reading \<Rightarrow> field_names \<Rightarrow> instrument \<Rightarrow> pydt \<Rightarrow> pydt \<Rightarrow> pydt \<Rightarrow> json \<Rightarrow> (int \<times> funding_event) list
       \<Rightarrow> source_error + (int \<times> funding_event) list" where
  "parse_row rd names i start_at end_at observed value seen =
     and_then (require_mapping value) (\<lambda>row.
       if source_text (json_get row (fn_symbol names)) \<noteq> Some (ci_symbol i) then refused ''source_unavailable''
       else case (timestamp_from_milliseconds rd (json_get row (fn_timestamp names)),
                  finite_decimal rd (json_get row (fn_rate names))) of
              (Some t, Some rate) \<Rightarrow>
                if instant t < instant start_at \<or> instant end_at < instant t then Inr seen
                else (case map_of seen (instant t) of
                        None \<Rightarrow> Inr (seen @ [(instant t, \<lparr>fe_venue = ci_venue i, fe_symbol = ci_symbol i, fe_at = t,
                                 fe_rate = rate, fe_observed = observed, fe_raw = row\<rparr>)])
                      | Some previous \<Rightarrow>
                          if \<not> dec_eq (fe_rate previous) rate then refused ''source_unavailable'' else Inr seen)
            | _ \<Rightarrow> refused ''source_unavailable'')"

definition parse_events ::
    "json_reading \<Rightarrow> field_names \<Rightarrow> instrument \<Rightarrow> pydt \<Rightarrow> pydt \<Rightarrow> pydt \<Rightarrow> json list \<Rightarrow> source_error + funding_event list" where
  "parse_events rd names i start_at end_at observed rows =
     and_then (try_fold (parse_row rd names i start_at end_at observed) rows [])
       (\<lambda>seen. Inr (map snd (sort_key fst seen)))"

definition make_batch ::
    "(json \<Rightarrow> string) \<Rightarrow> instrument \<Rightarrow> string \<Rightarrow> pydt \<Rightarrow> json \<Rightarrow> funding_event list \<Rightarrow> source_error + funding_batch" where
  "make_batch sha i endpoint observed payload events =
     (case canonical_json_sha256 sha payload of
        Inl _ \<Rightarrow> Inl value_fault
      | Inr h \<Rightarrow> Inr \<lparr>fb_venue = ci_venue i, fb_symbol = ci_symbol i, fb_endpoint = endpoint, fb_observed = observed,
                   fb_hash = h, fb_events = events, fb_raw = payload\<rparr>)"

section \<open>The four histories\<close>

definition parse_request :: "instrument \<Rightarrow> pydt \<Rightarrow> pydt \<Rightarrow> pydt \<Rightarrow> source_error + unit" where
  "parse_request i start_at end_at observed =
     (case first_error [validate_request i start_at end_at, require_aware observed ''observed_at''] of
        Inl _ \<Rightarrow> Inl value_fault | Inr _ \<Rightarrow> Inr ())"

definition code_is_429 :: "json \<Rightarrow> bool" where
  "code_is_429 j \<longleftrightarrow> j = JInt 429 \<or> j = JStr ''429''"

definition parse_bitget_funding_history ::
    "json_reading \<Rightarrow> (json \<Rightarrow> string) \<Rightarrow> json \<Rightarrow> instrument \<Rightarrow> pydt \<Rightarrow> pydt \<Rightarrow> pydt \<Rightarrow> source_error + funding_batch" where
  "parse_bitget_funding_history rd sha payload i start_at end_at observed =
     and_then (parse_request i start_at end_at observed) (\<lambda>_.
     and_then (require_mapping payload) (\<lambda>root.
       if json_get root ''code'' \<noteq> JStr ''00000''
       then refused (if code_is_429 (json_get root ''code'') then ''bitget_business_429'' else ''bitget_business_error'')
       else and_then (require_mapping (json_get root ''data'')) (\<lambda>data.
            and_then (require_list (json_get data ''resultList'')) (\<lambda>rows.
            and_then (parse_events rd \<lparr>fn_symbol = ''symbol'', fn_rate = ''fundingRate'', fn_timestamp = ''fundingRateTimestamp''\<rparr>
                i start_at end_at observed rows)
              (make_batch sha i ''/api/v3/market/history-fund-rate'' observed payload)))))"

definition parse_hyperliquid_funding_history ::
    "json_reading \<Rightarrow> (json \<Rightarrow> string) \<Rightarrow> json \<Rightarrow> instrument \<Rightarrow> pydt \<Rightarrow> pydt \<Rightarrow> pydt \<Rightarrow> source_error + funding_batch" where
  "parse_hyperliquid_funding_history rd sha payload i start_at end_at observed =
     and_then (parse_request i start_at end_at observed) (\<lambda>_.
     and_then (require_list payload) (\<lambda>rows.
     and_then (parse_events rd \<lparr>fn_symbol = ''coin'', fn_rate = ''fundingRate'', fn_timestamp = ''time''\<rparr>
         i start_at end_at observed rows)
       (make_batch sha i ''/info:type=fundingHistory,dex=default'' observed payload)))"

definition parse_aster_funding_history ::
    "json_reading \<Rightarrow> (json \<Rightarrow> string) \<Rightarrow> json \<Rightarrow> instrument \<Rightarrow> pydt \<Rightarrow> pydt \<Rightarrow> pydt \<Rightarrow> source_error + funding_batch" where
  "parse_aster_funding_history rd sha payload i start_at end_at observed =
     and_then (parse_request i start_at end_at observed) (\<lambda>_.
     and_then (require_list payload) (\<lambda>rows.
     and_then (parse_events rd \<lparr>fn_symbol = ''symbol'', fn_rate = ''fundingRate'', fn_timestamp = ''fundingTime''\<rparr>
         i start_at end_at observed rows)
       (make_batch sha i ''/fapi/v3/fundingRate'' observed payload)))"

text \<open>\<open>code != 0\<close>: the integer, the float and \<open>False\<close> are equal to zero.\<close>

fun json_zero :: "json \<Rightarrow> bool" where
  "json_zero (JInt n) = (n = 0)"
| "json_zero (JFloat x) = (x = FFin 0)"
| "json_zero (JBool b) = (\<not> b)"
| "json_zero _ = False"

definition mexc_data :: "json \<Rightarrow> source_error + json" where
  "mexc_data payload =
     and_then (require_mapping payload) (\<lambda>root.
       if json_get root ''success'' \<noteq> JBool True \<or> \<not> json_zero (json_get root ''code'')
       then refused ''source_unavailable'' else Inr (json_get root ''data''))"

definition parse_mexc_funding_history ::
    "json_reading \<Rightarrow> (json \<Rightarrow> string) \<Rightarrow> json \<Rightarrow> instrument \<Rightarrow> pydt \<Rightarrow> pydt \<Rightarrow> pydt \<Rightarrow> source_error + funding_batch" where
  "parse_mexc_funding_history rd sha payload i start_at end_at observed =
     and_then (mexc_data payload) (\<lambda>x.
     and_then (require_mapping x) (\<lambda>data.
     and_then (require_list (json_get data ''resultList'')) (\<lambda>rows.
     and_then (parse_events rd \<lparr>fn_symbol = ''symbol'', fn_rate = ''fundingRate'', fn_timestamp = ''settleTime''\<rparr>
         i start_at end_at observed rows)
       (make_batch sha i ''/api/v1/contract/funding_rate/history'' observed payload))))"

datatype network = Answered json pydt | Failed source_error

definition parse_history ::
    "json_reading \<Rightarrow> (json \<Rightarrow> string) \<Rightarrow> json \<Rightarrow> instrument \<Rightarrow> pydt \<Rightarrow> pydt \<Rightarrow> pydt \<Rightarrow> source_error + funding_batch" where
  "parse_history rd sha payload i start_at end_at observed =
     (case ci_venue i of
        Bitget \<Rightarrow> parse_bitget_funding_history rd sha payload i start_at end_at observed
      | Hyperliquid \<Rightarrow> parse_hyperliquid_funding_history rd sha payload i start_at end_at observed
      | Mexc \<Rightarrow> parse_mexc_funding_history rd sha payload i start_at end_at observed
      | Aster \<Rightarrow> parse_aster_funding_history rd sha payload i start_at end_at observed)"

text \<open>The inner sum: the error code of a \<open>CatalogSourceError\<close>, or the batch.\<close>

definition fetch_funding_history ::
    "json_reading \<Rightarrow> (json \<Rightarrow> string) \<Rightarrow> network \<Rightarrow> instrument \<Rightarrow> pydt \<Rightarrow> pydt \<Rightarrow> (string + funding_batch) result" where
  "fetch_funding_history rd sha net i start_at end_at =
     and_then (validate_request i start_at end_at) (\<lambda>_. Inr
       (case net of
          Failed e \<Rightarrow> Inl (safe_source_error_code e)
        | Answered payload observed \<Rightarrow>
            (case parse_history rd sha payload i start_at end_at observed of
               Inl e \<Rightarrow> Inl (safe_source_error_code e)
             | Inr b \<Rightarrow> Inr b)))"

section \<open>What a fetched batch is\<close>

definition event_of :: "instrument \<Rightarrow> pydt \<Rightarrow> pydt \<Rightarrow> pydt \<Rightarrow> funding_event \<Rightarrow> bool" where
  "event_of i start_at end_at observed e \<longleftrightarrow>
     fe_venue e = ci_venue i \<and> fe_symbol e = ci_symbol i \<and> fe_observed e = observed \<and> dec_finite (fe_rate e)
     \<and> is_utc (fe_at e) \<and> instant start_at \<le> instant (fe_at e) \<and> instant (fe_at e) \<le> instant end_at"

definition history_of :: "(json \<Rightarrow> string) \<Rightarrow> instrument \<Rightarrow> pydt \<Rightarrow> pydt \<Rightarrow> funding_batch \<Rightarrow> bool" where
  "history_of sha i start_at end_at b \<longleftrightarrow>
     fb_venue b = ci_venue i \<and> fb_symbol b = ci_symbol i
     \<and> canonical_json_sha256 sha (fb_raw b) = Inr (fb_hash b)
     \<and> list_all (event_of i start_at end_at (fb_observed b)) (fb_events b)
     \<and> sorted_wrt (<) (map (\<lambda>e. instant (fe_at e)) (fb_events b))"

lemma refused_simps [simp]: "refused code \<noteq> Inr x" "Inr x \<noteq> refused code"
  by (simp_all add: refused_def)

lemma from_timestamp_utc: "from_timestamp x = Some t \<Longrightarrow> is_utc t"
  by (auto simp: from_timestamp_def Let_def split: pyfloat.splits if_splits)

lemma timestamp_utc: "timestamp_from_milliseconds rd j = Some t \<Longrightarrow> is_utc t"
  by (auto simp: timestamp_from_milliseconds_def dest: from_timestamp_utc split: json.splits option.splits if_splits)

lemma finite_decimal_finite: "finite_decimal rd j = Some x \<Longrightarrow> dec_finite x"
  by (auto simp: finite_decimal_def split: json.splits option.splits if_splits)

definition seen_ok :: "instrument \<Rightarrow> pydt \<Rightarrow> pydt \<Rightarrow> pydt \<Rightarrow> (int \<times> funding_event) list \<Rightarrow> bool" where
  "seen_ok i start_at end_at observed seen \<longleftrightarrow>
     distinct (map fst seen)
     \<and> list_all (\<lambda>(t, e). t = instant (fe_at e) \<and> event_of i start_at end_at observed e) seen"

lemma parse_row_seen:
  assumes "parse_row rd names i start_at end_at observed value seen = Inr seen'" and "seen_ok i start_at end_at observed seen"
  shows "seen_ok i start_at end_at observed seen'"
  using assms unfolding parse_row_def
  by (auto simp: and_then_Inr seen_ok_def event_of_def map_of_eq_None_iff image_iff
      dest!: timestamp_utc finite_decimal_finite split: if_splits option.splits)

lemma parse_events_ok:
  assumes "parse_events rd names i start_at end_at observed rows = Inr es"
  shows "list_all (event_of i start_at end_at observed) es"
    and "sorted_wrt (<) (map (\<lambda>e. instant (fe_at e)) es)"
proof -
  obtain seen where fold: "try_fold (parse_row rd names i start_at end_at observed) rows [] = Inr seen"
    and es: "es = map snd (sort_key fst seen)"
    using assms by (auto simp: parse_events_def and_then_Inr)
  have "seen_ok i start_at end_at observed seen"
    by (rule try_fold_invariant[OF fold]) (simp add: seen_ok_def, rule parse_row_seen)
  then have ok: "distinct (map fst seen)"
      "\<And>t e. (t, e) \<in> set seen \<Longrightarrow> t = instant (fe_at e) \<and> event_of i start_at end_at observed e"
    by (auto simp: seen_ok_def list_all_iff)
  show "list_all (event_of i start_at end_at observed) es" using ok(2) by (auto simp: es list_all_iff)
  have keys: "map (\<lambda>e. instant (fe_at e)) es = map fst (sort_key fst seen)"
    using ok(2) by (auto simp: es)
  have "distinct (map fst (sort_key fst seen))" using ok(1) by (simp add: distinct_map)
  moreover have "sorted (map fst (sort_key fst seen))" by simp
  ultimately show "sorted_wrt (<) (map (\<lambda>e. instant (fe_at e)) es)"
    unfolding keys by (simp add: strict_sorted_iff)
qed

lemma make_batch_history:
  assumes "make_batch sha i endpoint observed payload es = Inr b"
    and "list_all (event_of i start_at end_at observed) es"
    and "sorted_wrt (<) (map (\<lambda>e. instant (fe_at e)) es)"
  shows "history_of sha i start_at end_at b \<and> fb_observed b = observed \<and> fb_raw b = payload"
  using assms by (auto simp: make_batch_def history_of_def split: sum.splits)

lemma parse_history_ok:
  assumes "parse_history rd sha payload i start_at end_at observed = Inr b"
  shows "history_of sha i start_at end_at b \<and> fb_observed b = observed \<and> fb_raw b = payload"
proof -
  obtain names rows es endpoint where es: "parse_events rd names i start_at end_at observed rows = Inr es"
      and b: "make_batch sha i endpoint observed payload es = Inr b"
    using assms unfolding parse_history_def parse_bitget_funding_history_def parse_hyperliquid_funding_history_def
      parse_mexc_funding_history_def parse_aster_funding_history_def
    by (fastforce simp: and_then_Inr split: venue.splits if_splits)
  show ?thesis using make_batch_history[OF b parse_events_ok[OF es]] .
qed

lemma fetched_history:
  assumes "fetch_funding_history rd sha net i start_at end_at = Inr (Inr b)"
  shows "history_of sha i start_at end_at b" and "net = Answered (fb_raw b) (fb_observed b)"
proof -
  obtain payload observed where n: "net = Answered payload observed"
      "parse_history rd sha payload i start_at end_at observed = Inr b"
    using assms by (auto simp: fetch_funding_history_def and_then_Inr split: network.splits sum.splits)
  with n parse_history_ok[OF n(2)] show "history_of sha i start_at end_at b" "net = Answered (fb_raw b) (fb_observed b)"
    by simp_all
qed

end
