(* ===== verification/Funding_Store.thy ===== *)
theory Funding_Store
  imports Funding_Source Catalog_Store
begin

text \<open>
  Settled funding events in the database (\<open>funding_store.py\<close>).  An event is stored under the single catalog
  version that was valid at its time, once; a second report of it must agree.  \<open>funding_db\<close> holds the catalog of
  \<open>Catalog_Store\<close> with the tables of collector runs, raw observations and funding events.  Whether a statement
  fails, the fresh run id, the clock at completion and the measured seconds are arguments.
\<close>

section \<open>Tables\<close>

record funding_failure =
  ff_venue :: venue
  ff_symbol :: string
  ff_code :: string

datatype sweep_status = SweepFailed | SweepPartial | SweepSucceeded

record funding_run =
  fu_id :: string
  fu_started :: int
  fu_completed :: int
  fu_status :: sweep_status
  fu_received :: nat
  fu_written :: nat
  fu_code :: "string option"
  fu_rejected :: nat
  fu_raw_written :: nat
  fu_unchanged :: nat
  fu_failures :: "funding_failure list"

record raw_observation =
  ro_date :: int
  ro_run :: string
  ro_version :: "int option"
  ro_venue :: venue
  ro_symbol :: string
  ro_observed :: int
  ro_source :: "int option"
  ro_hash :: string
  ro_payload :: json

record funding_row =
  fr_version :: int
  fr_at :: int
  fr_rate :: pydec
  fr_interval :: "int option"
  fr_per_hour :: "pydec option"
  fr_source :: int
  fr_observed :: int
  fr_run :: string

record funding_db =
  fd_catalog :: catalog_db
  fd_runs :: "funding_run list"
  fd_raw :: "raw_observation list"
  fd_events :: "funding_row list"

record funding_result =
  fs_run :: string
  fs_status :: sweep_status
  fs_received :: nat
  fs_written :: nat
  fs_unchanged :: nat
  fs_raw_written :: nat
  fs_rejected :: nat
  fs_seconds :: pyfloat

definition funding_error :: "string \<Rightarrow> 'a result" where
  "funding_error m = raise_exn FundingStoreError m"

definition sweep_sql_failed :: "'a result" where
  "sweep_sql_failed = funding_error ''funding sweep persistence failed''"

section \<open>Validation\<close>

definition validate_event :: "funding_batch \<Rightarrow> funding_event \<Rightarrow> unit result" where
  "validate_event b e =
     first_error [require_aware (fe_at e) ''funding_at'', require_aware (fe_observed e) ''event observed_at'',
       (if fe_venue e \<noteq> fb_venue b \<or> fe_symbol e \<noteq> fb_symbol b
        then raise_exn ValueError ''funding event identity does not match its batch'' else Inr ()),
       (if instant (fe_observed e) \<noteq> instant (fb_observed b)
        then raise_exn ValueError ''funding event observation time does not match its batch'' else Inr ())]"

fun validate_batches :: "(json \<Rightarrow> string) \<Rightarrow> (venue \<times> string) list \<Rightarrow> funding_batch list \<Rightarrow> unit result" where
  "validate_batches sha keys [] = Inr ()"
| "validate_batches sha keys (b # bs) =
     and_then (require_aware (fb_observed b) ''batch observed_at'') (\<lambda>_.
     if (fb_venue b, fb_symbol b) \<in> set keys
     then raise_exn ValueError ''funding sweep contains duplicate instrument batches''
     else and_then (canonical_json_sha256 sha (fb_raw b)) (\<lambda>h.
       if h \<noteq> fb_hash b then raise_exn ValueError ''funding batch payload hash does not match its raw payload''
       else and_then (first_error (map (validate_event b) (fb_events b))) (\<lambda>_.
         validate_batches sha ((fb_venue b, fb_symbol b) # keys) bs)))"

section \<open>Versions\<close>

text \<open>The rows of one requested listing, in the order of \<open>valid_from\<close>.\<close>

definition versions_for :: "catalog_db \<Rightarrow> venue \<times> string \<Rightarrow> version_row list" where
  "versions_for cat key = sort_key vr_from (filter (\<lambda>r. listing r = key) (t_versions cat))"

definition current_version :: "catalog_db \<Rightarrow> venue \<times> string \<Rightarrow> int option" where
  "current_version cat key =
     (case filter (\<lambda>r. vr_to r = None) (versions_for cat key) of [] \<Rightarrow> None | rs \<Rightarrow> Some (vr_id (last rs)))"

definition covers_event :: "int \<Rightarrow> version_row \<Rightarrow> bool" where
  "covers_event t r \<longleftrightarrow> vr_from r \<le> t \<and> (case vr_to r of None \<Rightarrow> True | Some e \<Rightarrow> t < e)"

definition version_covering :: "int \<Rightarrow> version_row list \<Rightarrow> version_row option result" where
  "version_covering t rs =
     (case filter (covers_event t) rs of
        [] \<Rightarrow> Inr None
      | [r] \<Rightarrow> Inr (Some r)
      | _ \<Rightarrow> funding_error ''funding event matches multiple instrument versions'')"

section \<open>Storing events\<close>

text \<open>
  A value rounded to 28 digits, as a decimal; Python may keep other trailing zeros, which no comparison sees.
\<close>

definition dec_of :: "rat \<Rightarrow> pydec" where
  "dec_of x =
     (if x = 0 then dec_zero
      else let e = lead_exp 10 x - 27; n = round_half_even (x / ten_pow e) in DFin (n < 0) (nat \<bar>n\<bar>) e)"

definition funding_per_hour :: "pydec \<Rightarrow> int option \<Rightarrow> pydec option" where
  "funding_per_hour rate interval =
     (case interval of None \<Rightarrow> None
      | Some n \<Rightarrow> Some (if dec_finite rate then dec_of (dec_round (dval rate * 3600) / of_int n) else rate))"

definition funding_row_of :: "string \<Rightarrow> version_row \<Rightarrow> funding_event \<Rightarrow> funding_row" where
  "funding_row_of run v e =
     (let interval = ci_funding_interval (vr_instrument v); t = instant (fe_at e)
      in \<lparr>fr_version = vr_id v, fr_at = t, fr_rate = fe_rate e, fr_interval = interval,
          fr_per_hour = funding_per_hour (fe_rate e) interval, fr_source = t,
          fr_observed = instant (fe_observed e), fr_run = run\<rparr>)"

datatype upsert_outcome = Written | Unchanged

definition upsert_event ::
    "string \<Rightarrow> version_row \<Rightarrow> funding_event \<Rightarrow> funding_row list \<Rightarrow> (upsert_outcome \<times> funding_row list) result" where
  "upsert_event run v e rows =
     (let interval = ci_funding_interval (vr_instrument v); t = instant (fe_at e)
      in case find (\<lambda>r. fr_version r = vr_id v \<and> fr_at r = t) rows of
           Some r \<Rightarrow>
             if \<not> dec_eq (fr_rate r) (fe_rate e)
             then raise_exn FundingConflictError ''settled funding rate changed for an existing event''
             else if fr_interval r \<noteq> None \<and> interval \<noteq> None \<and> fr_interval r \<noteq> interval
             then raise_exn FundingConflictError ''funding interval changed for an existing event''
             else Inr (Unchanged, rows)
         | None \<Rightarrow> Inr (Written, rows @ [funding_row_of run v e]))"

record sweep_state =
  sw_raw :: "raw_observation list"
  sw_rows :: "funding_row list"
  sw_written :: nat
  sw_unchanged :: nat
  sw_rejected :: nat

definition admit_event ::
    "string \<Rightarrow> version_row list \<Rightarrow> funding_event \<Rightarrow> sweep_state \<Rightarrow> sweep_state result" where
  "admit_event run candidates e s =
     and_then (version_covering (instant (fe_at e)) candidates) (\<lambda>v.
       case v of
         None \<Rightarrow> Inr (s\<lparr>sw_rejected := sw_rejected s + 1\<rparr>)
       | Some r \<Rightarrow>
           and_then (upsert_event run r e (sw_rows s)) (\<lambda>(outcome, rows).
             case outcome of
               Written \<Rightarrow> Inr (s\<lparr>sw_rows := rows, sw_written := sw_written s + 1\<rparr>)
             | Unchanged \<Rightarrow> Inr (s\<lparr>sw_rows := rows, sw_unchanged := sw_unchanged s + 1\<rparr>)))"

text \<open>The insertion of the raw observation checks that its hash is one; then the events follow.\<close>

definition store_batch :: "string \<Rightarrow> catalog_db \<Rightarrow> funding_batch \<Rightarrow> sweep_state \<Rightarrow> sweep_state result" where
  "store_batch run cat b s =
     (let key = (fb_venue b, fb_symbol b); times = map (\<lambda>e. instant (fe_at e)) (fb_events b)
      in if \<not> hex64 (fb_hash b) then sweep_sql_failed
         else try_fold (admit_event run (versions_for cat key)) (fb_events b)
                (s\<lparr>sw_raw := sw_raw s @ [\<lparr>ro_date = instant (fb_observed b) div day_us, ro_run = run,
                     ro_version = current_version cat key, ro_venue = fb_venue b, ro_symbol = fb_symbol b,
                     ro_observed = instant (fb_observed b),
                     ro_source = (if times = [] then None else Some (Max (set times))),
                     ro_hash = fb_hash b, ro_payload = fb_raw b\<rparr>]\<rparr>))"

definition status_of_sweep :: "funding_batch list \<Rightarrow> funding_failure list \<Rightarrow> nat \<Rightarrow> sweep_status" where
  "status_of_sweep batches failures rejected =
     (if batches = [] then SweepFailed else if failures \<noteq> [] \<or> 0 < rejected then SweepPartial else SweepSucceeded)"

fun status_code :: "sweep_status \<Rightarrow> string option" where
  "status_code SweepFailed = Some ''funding_all_sources_failed''"
| "status_code SweepPartial = Some ''funding_partial_failure''"
| "status_code SweepSucceeded = None"

definition sweep_body ::
    "string \<Rightarrow> int \<Rightarrow> int \<Rightarrow> pyfloat \<Rightarrow> funding_batch list \<Rightarrow> funding_failure list \<Rightarrow> funding_db
       \<Rightarrow> (funding_result \<times> funding_db) result" where
  "sweep_body run started clock seconds batches failures db =
     (let cat = fd_catalog db; received = length (concat (map fb_events batches))
      in if run \<in> set (t_runs cat) then sweep_sql_failed
         else and_then (try_fold (store_batch run cat) batches
                \<lparr>sw_raw = fd_raw db, sw_rows = fd_events db, sw_written = 0, sw_unchanged = 0, sw_rejected = 0\<rparr>) (\<lambda>s.
           let status = status_of_sweep batches failures (sw_rejected s)
           in Inr (\<lparr>fs_run = run, fs_status = status, fs_received = received, fs_written = sw_written s,
                    fs_unchanged = sw_unchanged s, fs_raw_written = length batches, fs_rejected = sw_rejected s,
                    fs_seconds = seconds\<rparr>,
                   db\<lparr>fd_catalog := cat\<lparr>t_runs := t_runs cat @ [run]\<rparr>,
                      fd_runs := fd_runs db @ [\<lparr>fu_id = run, fu_started = started, fu_completed = max clock started,
                        fu_status = status, fu_received = received, fu_written = sw_written s,
                        fu_code = status_code status, fu_rejected = sw_rejected s, fu_raw_written = length batches,
                        fu_unchanged = sw_unchanged s, fu_failures = failures\<rparr>],
                      fd_raw := sw_raw s, fd_events := sw_rows s\<rparr>)))"

definition persist_funding_sweep ::
    "(json \<Rightarrow> string) \<Rightarrow> bool \<Rightarrow> string \<Rightarrow> int \<Rightarrow> pyfloat \<Rightarrow> pydt \<Rightarrow> funding_batch list \<Rightarrow> funding_failure list \<Rightarrow> funding_db
       \<Rightarrow> funding_result result \<times> funding_db" where
  "persist_funding_sweep sha sql_ok run clock seconds started batches failures db =
     (case and_then (first_error [require_aware started ''started_at'', validate_batches sha [] batches]) (\<lambda>_.
             if sql_ok then sweep_body run (instant started) clock seconds batches failures db
             else sweep_sql_failed) of
        Inl e \<Rightarrow> (Inl e, db)
      | Inr (r, db') \<Rightarrow> (Inr r, db'))"

section \<open>Reading\<close>

text \<open>\<open>load\<close> is the round trip of the definition through the JSON column.\<close>

definition stored_instrument :: "((string \<times> json) list \<Rightarrow> (string \<times> json) list) \<Rightarrow> version_row \<Rightarrow> instrument" where
  "stored_instrument load r =
     (let i = vr_instrument r
      in i\<lparr>ci_status := (if ci_status i = [] then ''unknown'' else ci_status i), ci_raw := load (ci_raw i)\<rparr>)"

definition funding_versions :: "catalog_db \<Rightarrow> version_row list" where
  "funding_versions cat =
     sort_key listing (filter (\<lambda>r. vr_to r = None \<and> linear_perpetual (vr_instrument r)) (t_versions cat))"

record funding_catalog =
  fc_instruments :: "instrument list"
  fc_starts :: "string \<Rightarrow> pydt option"

definition load_funding_catalog ::
    "bool \<Rightarrow> ((string \<times> json) list \<Rightarrow> (string \<times> json) list) \<Rightarrow> catalog_db \<Rightarrow> funding_catalog result" where
  "load_funding_catalog sql_ok load cat =
     (if \<not> sql_ok then funding_error ''funding catalog query failed''
      else Inr \<lparr>fc_instruments = map (stored_instrument load) (funding_versions cat),
                fc_starts = map_of (rev (map (\<lambda>r. (instrument_id (vr_instrument r), utc (vr_from r)))
                  (funding_versions cat)))\<rparr>)"

definition funding_times :: "funding_db \<Rightarrow> string \<Rightarrow> int list" where
  "funding_times db key =
     concat (map (\<lambda>r. map fr_at (filter (\<lambda>e. fr_version e = vr_id r) (fd_events db)))
       (filter (\<lambda>r. instrument_id (vr_instrument r) = key) (t_versions (fd_catalog db))))"

definition load_latest_funding_times :: "bool \<Rightarrow> funding_db \<Rightarrow> (string \<Rightarrow> pydt option) result" where
  "load_latest_funding_times sql_ok db =
     (if \<not> sql_ok then funding_error ''latest funding state query failed''
      else Inr (\<lambda>key. if funding_times db key = [] then None else Some (utc (Max (set (funding_times db key))))))"

section \<open>What a sweep leaves\<close>

definition row_place :: "funding_row \<Rightarrow> int \<times> int" where
  "row_place r = (fr_version r, fr_at r)"

text \<open>One row per version and time, and every row belongs to a recorded version.\<close>

definition funding_ok :: "funding_db \<Rightarrow> bool" where
  "funding_ok db \<longleftrightarrow> distinct (map row_place (fd_events db))
     \<and> fr_version ` set (fd_events db) \<subseteq> vr_id ` set (t_versions (fd_catalog db))"

definition agrees :: "version_row \<Rightarrow> funding_event \<Rightarrow> funding_row \<Rightarrow> bool" where
  "agrees v e r \<longleftrightarrow> row_place r = (vr_id v, instant (fe_at e)) \<and> dec_eq (fr_rate r) (fe_rate e)
     \<and> (fr_interval r = None \<or> ci_funding_interval (vr_instrument v) = None
        \<or> fr_interval r = ci_funding_interval (vr_instrument v))"

text \<open>An event is settled in a table: no version covers it, or its row is there and agrees with it.\<close>

definition settled_in :: "version_row list \<Rightarrow> funding_row list \<Rightarrow> funding_event \<Rightarrow> bool" where
  "settled_in candidates rows e \<longleftrightarrow>
     (case version_covering (instant (fe_at e)) candidates of
        Inl _ \<Rightarrow> False
      | Inr None \<Rightarrow> True
      | Inr (Some v) \<Rightarrow> \<exists>r\<in>set rows. agrees v e r)"

definition unadmitted :: "version_row list \<Rightarrow> funding_event \<Rightarrow> bool" where
  "unadmitted candidates e \<longleftrightarrow> version_covering (instant (fe_at e)) candidates = Inr None"

lemma version_covering_Some: "version_covering t rs = Inr (Some v) \<Longrightarrow> v \<in> set rs \<and> covers_event t v"
  by (auto simp: version_covering_def funding_error_def filter_eq_Cons_iff split: list.splits)

lemma settled_in_mono: "settled_in cands rows e \<Longrightarrow> set rows \<subseteq> set rows' \<Longrightarrow> settled_in cands rows' e"
  by (fastforce simp: settled_in_def split: sum.splits option.splits)

text \<open>The rows that one event adds, and what the counters then say.\<close>

definition admits :: "string \<Rightarrow> version_row list \<Rightarrow> funding_event list \<Rightarrow> sweep_state \<Rightarrow> sweep_state \<Rightarrow> bool" where
  "admits run cands es s s' \<longleftrightarrow>
     (\<exists>new. sw_rows s' = sw_rows s @ new \<and> sw_written s' = sw_written s + length new
        \<and> list_all (\<lambda>r. \<exists>e\<in>set es. \<exists>v. version_covering (instant (fe_at e)) cands = Inr (Some v) \<and> r = funding_row_of run v e) new)
     \<and> distinct (map row_place (sw_rows s'))
     \<and> sw_rejected s' = sw_rejected s + length (filter (unadmitted cands) es)
     \<and> sw_written s' + sw_unchanged s' + sw_rejected s'
         = sw_written s + sw_unchanged s + sw_rejected s + length es
     \<and> list_all (settled_in cands (sw_rows s')) es"

lemma row_place_of [simp]: "row_place (funding_row_of run v e) = (vr_id v, instant (fe_at e))"
  by (simp add: row_place_def funding_row_of_def Let_def)

lemma agrees_row_of: "dec_finite (fe_rate e) \<Longrightarrow> agrees v e (funding_row_of run v e)"
  by (simp add: agrees_def) (simp add: funding_row_of_def Let_def dec_eq_finite_iff)

lemma admit_event_admits:
  assumes "admit_event run cands e s = Inr s'" and "distinct (map row_place (sw_rows s))" and "dec_finite (fe_rate e)"
  shows "admits run cands [e] s s'"
proof -
  obtain v where v: "version_covering (instant (fe_at e)) cands = Inr v"
    using assms(1) by (auto simp: admit_event_def and_then_Inr)
  show ?thesis
  proof (cases v)
    case None
    then show ?thesis using assms(1,2) v by (auto simp: admit_event_def admits_def settled_in_def unadmitted_def)
  next
    case (Some w)
    let ?P = "\<lambda>r. fr_version r = vr_id w \<and> fr_at r = instant (fe_at e)"
    show ?thesis
    proof (cases "find ?P (sw_rows s)")
      case None
      then have s': "s' = s\<lparr>sw_rows := sw_rows s @ [funding_row_of run w e], sw_written := sw_written s + 1\<rparr>"
        using assms(1) v Some by (simp add: admit_event_def upsert_event_def Let_def)
      have "(vr_id w, instant (fe_at e)) \<notin> row_place ` set (sw_rows s)"
        using None by (auto simp: find_None_iff row_place_def)
      then show ?thesis using assms(2) v Some agrees_row_of[OF assms(3)]
        by (auto simp: s' admits_def settled_in_def unadmitted_def)
    next
      case (Some r)
      have r: "r \<in> set (sw_rows s)" "?P r" using Some by (auto simp: find_Some_iff)
      have s': "s' = s\<lparr>sw_rows := sw_rows s, sw_unchanged := sw_unchanged s + 1\<rparr>" "agrees w e r"
        using assms(1) v \<open>v = Some w\<close> Some r(2)
        by (cases s; auto simp: admit_event_def upsert_event_def Let_def agrees_def row_place_def and_then_Inr
            split: if_splits)+
      then show ?thesis using assms(2) v \<open>v = Some w\<close> r(1)
        by (auto simp: admits_def settled_in_def unadmitted_def)
    qed
  qed
qed

lemma admits_trans:
  assumes "admits run cands es s t" and "admits run cands fs t u"
  shows "admits run cands (es @ fs) s u"
proof -
  have sub: "set (sw_rows t) \<subseteq> set (sw_rows u)" using assms(2) by (auto simp: admits_def)
  show ?thesis using assms settled_in_mono[OF _ sub] by (fastforce simp: admits_def list_all_iff)
qed

lemma admit_events:
  assumes "try_fold (admit_event run cands) es s = Inr s'" and "distinct (map row_place (sw_rows s))"
    and "list_all (\<lambda>e. dec_finite (fe_rate e)) es"
  shows "admits run cands es s s' \<and> sw_raw s' = sw_raw s"
  using assms
proof (induction es arbitrary: s)
  case Nil
  then show ?case by (simp add: admits_def)
next
  case (Cons e es)
  obtain t where t: "admit_event run cands e s = Inr t" "try_fold (admit_event run cands) es t = Inr s'"
    using Cons.prems(1) by (auto split: sum.splits)
  have raw: "sw_raw t = sw_raw s"
    using t(1) by (auto simp: admit_event_def and_then_Inr split: option.split_asm upsert_outcome.split_asm prod.split_asm)
      (metis upsert_outcome.exhaust)
  have one: "admits run cands [e] s t" using admit_event_admits[OF t(1)] Cons.prems(2,3) by simp
  then have "admits run cands es t s' \<and> sw_raw s' = sw_raw t"
    using Cons.IH[OF t(2)] Cons.prems(3) by (simp add: admits_def)
  with admits_trans[OF one] raw show ?case by fastforce
qed

text \<open>The candidates of a batch, and what a whole sweep has settled.\<close>

abbreviation batch_key :: "funding_batch \<Rightarrow> venue \<times> string" where
  "batch_key b \<equiv> (fb_venue b, fb_symbol b)"

abbreviation batch_finite :: "funding_batch \<Rightarrow> bool" where
  "batch_finite b \<equiv> list_all (\<lambda>e. dec_finite (fe_rate e)) (fb_events b)"

definition swept :: "string \<Rightarrow> catalog_db \<Rightarrow> funding_batch list \<Rightarrow> sweep_state \<Rightarrow> sweep_state \<Rightarrow> bool" where
  "swept run cat bs s s' \<longleftrightarrow>
     (\<exists>new. sw_rows s' = sw_rows s @ new \<and> sw_written s' = sw_written s + length new
        \<and> list_all (\<lambda>r. \<exists>b\<in>set bs. \<exists>e\<in>set (fb_events b). \<exists>v.
             version_covering (instant (fe_at e)) (versions_for cat (batch_key b)) = Inr (Some v)
             \<and> r = funding_row_of run v e) new)
     \<and> distinct (map row_place (sw_rows s'))
     \<and> sw_rejected s' = sw_rejected s
         + (\<Sum>b\<leftarrow>bs. length (filter (unadmitted (versions_for cat (batch_key b))) (fb_events b)))
     \<and> sw_written s' + sw_unchanged s' + sw_rejected s'
         = sw_written s + sw_unchanged s + sw_rejected s + length (concat (map fb_events bs))
     \<and> list_all (\<lambda>b. list_all (settled_in (versions_for cat (batch_key b)) (sw_rows s')) (fb_events b)) bs"

lemma store_batch_swept:
  assumes "store_batch run cat b s = Inr s'" and "distinct (map row_place (sw_rows s))" and "batch_finite b"
  shows "swept run cat [b] s s'"
proof -
  obtain ro where "try_fold (admit_event run (versions_for cat (batch_key b))) (fb_events b)
      (s\<lparr>sw_raw := sw_raw s @ [ro]\<rparr>) = Inr s'"
    using assms(1) by (auto simp: store_batch_def Let_def sweep_sql_failed_def funding_error_def split: if_splits)
  from admit_events[OF this] assms(2,3)
  have "admits run (versions_for cat (batch_key b)) (fb_events b) (s\<lparr>sw_raw := sw_raw s @ [ro]\<rparr>) s'" by simp
  then show ?thesis unfolding admits_def swept_def by simp
qed

lemma swept_trans:
  assumes "swept run cat bs s t" and "swept run cat cs t u"
  shows "swept run cat (bs @ cs) s u"
proof -
  have sub: "set (sw_rows t) \<subseteq> set (sw_rows u)" using assms(2) by (auto simp: swept_def)
  show ?thesis using assms settled_in_mono[OF _ sub] by (fastforce simp: swept_def list_all_iff)
qed

lemma store_batches_swept:
  assumes "try_fold (store_batch run cat) bs s = Inr s'" and "distinct (map row_place (sw_rows s))"
    and "list_all batch_finite bs"
  shows "swept run cat bs s s'"
  using assms
proof (induction bs arbitrary: s)
  case Nil
  then show ?case by (simp add: swept_def)
next
  case (Cons b bs)
  obtain t where t: "store_batch run cat b s = Inr t" "try_fold (store_batch run cat) bs t = Inr s'"
    using Cons.prems(1) by (auto split: sum.splits)
  have one: "swept run cat [b] s t" using store_batch_swept[OF t(1)] Cons.prems(2,3) by simp
  then have "swept run cat bs t s'" using Cons.IH[OF t(2)] Cons.prems(3) by (simp add: swept_def)
  with swept_trans[OF one] show ?case by fastforce
qed

definition first_state :: "funding_db \<Rightarrow> sweep_state" where
  "first_state db =
     \<lparr>sw_raw = fd_raw db, sw_rows = fd_events db, sw_written = 0, sw_unchanged = 0, sw_rejected = 0\<rparr>"

lemma persist_Inr:
  assumes "persist_funding_sweep sha ok run clock secs started bs fs db = (Inr r, db')"
  obtains s where "validate_batches sha [] bs = Inr ()" and "is_aware started" and "ok"
    and "run \<notin> set (t_runs (fd_catalog db))"
    and "try_fold (store_batch run (fd_catalog db)) bs (first_state db) = Inr s"
    and "fd_events db' = sw_rows s" and "fs_written r = sw_written s" and "fs_unchanged r = sw_unchanged s"
    and "fs_rejected r = sw_rejected s" and "fs_received r = length (concat (map fb_events bs))"
    and "fs_status r = status_of_sweep bs fs (sw_rejected s)"
    and "fd_catalog db' = (fd_catalog db)\<lparr>t_runs := t_runs (fd_catalog db) @ [run]\<rparr>"
proof -
  from assms obtain s where s: "validate_batches sha [] bs = Inr ()" "is_aware started" "ok"
      "run \<notin> set (t_runs (fd_catalog db))" "try_fold (store_batch run (fd_catalog db)) bs (first_state db) = Inr s"
      "sweep_body run (instant started) clock secs bs fs db = Inr (r, db')"
    by (auto simp: persist_funding_sweep_def sweep_body_def Let_def first_state_def first_error_Inr_all and_then_Inr
        require_aware_def sweep_sql_failed_def funding_error_def split: sum.splits if_splits)
  show thesis
    by (rule that[OF s(1-5)]) (use s(4,5,6) in \<open>auto simp: sweep_body_def Let_def first_state_def\<close>)
qed

lemma persist_Inl:
  "persist_funding_sweep sha ok run clock secs started bs fs db = (Inl e, db') \<Longrightarrow> db' = db"
  by (auto simp: persist_funding_sweep_def split: sum.splits)

section \<open>History is only appended to\<close>

text \<open>A row that a sweep adds: an event of one of its batches, under the version of its listing valid at its time.\<close>

definition bound_row :: "string \<Rightarrow> catalog_db \<Rightarrow> funding_batch list \<Rightarrow> funding_row \<Rightarrow> bool" where
  "bound_row run cat bs r \<longleftrightarrow>
     (\<exists>b\<in>set bs. \<exists>e\<in>set (fb_events b). \<exists>v\<in>set (t_versions cat).
        listing v = (fb_venue b, fb_symbol b) \<and> covers_event (instant (fe_at e)) v \<and> r = funding_row_of run v e)"

lemma list_ex_filter: "list_ex P xs \<longleftrightarrow> filter P xs \<noteq> []"
  by (simp add: list_ex_iff filter_empty_conv)

lemma filter_eq_single: "distinct xs \<Longrightarrow> x \<in> set xs \<Longrightarrow> filter ((=) x) xs = [x]"
  by (induction xs) (auto simp: filter_empty_conv)

lemma versions_for_set: "v \<in> set (versions_for cat key) \<longleftrightarrow> v \<in> set (t_versions cat) \<and> listing v = key"
  by (auto simp: versions_for_def)

lemma fr_version_of [simp]: "fr_version (funding_row_of run v e) = vr_id v"
  by (simp add: funding_row_of_def Let_def)

lemma persist_swept:
  assumes "persist_funding_sweep sha ok run clock secs started bs fs db = (Inr r, db')" and "funding_ok db"
    and "list_all batch_finite bs"
  obtains s where "swept run (fd_catalog db) bs (first_state db) s" and "fd_events db' = sw_rows s"
    and "fs_written r = sw_written s" and "fs_unchanged r = sw_unchanged s" and "fs_rejected r = sw_rejected s"
    and "fs_received r = length (concat (map fb_events bs))"
    and "t_versions (fd_catalog db') = t_versions (fd_catalog db)"
proof -
  obtain s where s: "try_fold (store_batch run (fd_catalog db)) bs (first_state db) = Inr s"
      "fd_events db' = sw_rows s" "fs_written r = sw_written s" "fs_unchanged r = sw_unchanged s"
      "fs_rejected r = sw_rejected s" "fs_received r = length (concat (map fb_events bs))"
      "fd_catalog db' = (fd_catalog db)\<lparr>t_runs := t_runs (fd_catalog db) @ [run]\<rparr>"
    by (rule persist_Inr[OF assms(1)])
  have "distinct (map row_place (sw_rows (first_state db)))"
    using assms(2) by (simp add: funding_ok_def first_state_def)
  from store_batches_swept[OF s(1) this assms(3)] show thesis by (rule that) (use s in simp_all)
qed

text \<open>
  C20. A funding sweep only appends.  Whatever it is given, the rows that were there stay as they are; every new row is
  an event of the sweep under the version of its listing that was valid at the time of settlement; there is still one
  row per version and time, each of a recorded version; and a sweep that raises leaves the database untouched.
\<close>

theorem funding_history_is_append_only:
  assumes "funding_ok db" and "list_all (\<lambda>b. list_all (\<lambda>e. dec_finite (fe_rate e)) (fb_events b)) batches"
    and "persist_funding_sweep sha ok run clock secs started batches failures db = (res, db')"
  shows "funding_ok db' \<and> t_versions (fd_catalog db') = t_versions (fd_catalog db)
    \<and> (\<exists>new. fd_events db' = fd_events db @ new \<and> list_all (bound_row run (fd_catalog db) batches) new)
    \<and> (is_ok res \<or> db' = db)"
proof (cases res)
  case (Inl e)
  then show ?thesis using persist_Inl assms(1,3) by fastforce
next
  case (Inr r)
  obtain s where s: "swept run (fd_catalog db) batches (first_state db) s" "fd_events db' = sw_rows s"
      "t_versions (fd_catalog db') = t_versions (fd_catalog db)"
    using persist_swept[OF assms(3)[unfolded Inr] assms(1,2)] by metis
  obtain new where new: "fd_events db' = fd_events db @ new"
      "\<And>x. x \<in> set new \<Longrightarrow> \<exists>b\<in>set batches. \<exists>e\<in>set (fb_events b). \<exists>v.
         version_covering (instant (fe_at e)) (versions_for (fd_catalog db) (batch_key b)) = Inr (Some v)
         \<and> x = funding_row_of run v e"
    using s(1,2) by (auto simp: swept_def first_state_def list_all_iff)
  have bound: "bound_row run (fd_catalog db) batches x" if "x \<in> set new" for x
    using new(2)[OF that] version_covering_Some unfolding bound_row_def by (metis versions_for_set)
  then have "fr_version ` set new \<subseteq> vr_id ` set (t_versions (fd_catalog db))"
    by (fastforce simp: bound_row_def)
  moreover have "distinct (map row_place (fd_events db'))" using s(1,2) by (simp add: swept_def)
  ultimately have "funding_ok db'" using assms(1) s(3) new(1) by (auto simp: funding_ok_def)
  with new(1) bound s(3) Inr show ?thesis by (auto simp: list_all_iff)
qed

text \<open>
  C10. A sweep that succeeds agrees with the settled history.  Every event it received is written, unchanged or rejected,
  and the counts say so; an event is rejected exactly when no version of its listing covers its time, and otherwise a
  single version does and the one row of that version and time has its rate, a row that was there before included.
\<close>

theorem settled_funding_agrees:
  assumes "funding_ok db" and "list_all (\<lambda>b. list_all (\<lambda>e. dec_finite (fe_rate e)) (fb_events b)) batches"
    and "persist_funding_sweep sha ok run clock secs started batches failures db = (Inr r, db')"
  shows "fs_received r = fs_written r + fs_unchanged r + fs_rejected r
    \<and> length (fd_events db') = length (fd_events db) + fs_written r
    \<and> fs_rejected r = length (filter (\<lambda>(key, e). \<not> list_ex (covers_event (instant (fe_at e))) (versions_for (fd_catalog db) key))
          (concat (map (\<lambda>b. map (Pair (fb_venue b, fb_symbol b)) (fb_events b)) batches)))
    \<and> list_all (\<lambda>b. list_all (\<lambda>e.
         case filter (covers_event (instant (fe_at e))) (versions_for (fd_catalog db) (fb_venue b, fb_symbol b)) of
           [] \<Rightarrow> True
         | [v] \<Rightarrow> (\<exists>row. filter (\<lambda>x. fr_version x = vr_id v \<and> fr_at x = instant (fe_at e)) (fd_events db') = [row]
                    \<and> dec_eq (fr_rate row) (fe_rate e))
         | _ \<Rightarrow> False) (fb_events b)) batches"
proof -
  obtain s where s: "swept run (fd_catalog db) batches (first_state db) s" "fd_events db' = sw_rows s"
      "fs_written r = sw_written s" "fs_unchanged r = sw_unchanged s" "fs_rejected r = sw_rejected s"
      "fs_received r = length (concat (map fb_events batches))"
    using persist_swept[OF assms(3,1,2)] by metis
  have none: "unadmitted (versions_for (fd_catalog db) k) e
      \<longleftrightarrow> \<not> list_ex (covers_event (instant (fe_at e))) (versions_for (fd_catalog db) k)" for k e
    by (simp add: list_ex_filter unadmitted_def version_covering_def funding_error_def split: list.split)
  have count: "(\<Sum>b\<leftarrow>bs. length (filter (unadmitted (versions_for (fd_catalog db) (batch_key b))) (fb_events b)))
      = length (filter (\<lambda>(k, e). \<not> list_ex (covers_event (instant (fe_at e))) (versions_for (fd_catalog db) k))
          (concat (map (\<lambda>b. map (Pair (batch_key b)) (fb_events b)) bs)))" for bs
    by (induction bs) (simp_all add: none filter_map comp_def)
  have each: "case filter (covers_event (instant (fe_at e))) (versions_for (fd_catalog db) (batch_key b)) of
           [] \<Rightarrow> True
         | [v] \<Rightarrow> (\<exists>row. filter (\<lambda>x. fr_version x = vr_id v \<and> fr_at x = instant (fe_at e)) (fd_events db') = [row]
                    \<and> dec_eq (fr_rate row) (fe_rate e))
         | _ \<Rightarrow> False" if "b \<in> set batches" "e \<in> set (fb_events b)" for b e
  proof -
    have settled: "settled_in (versions_for (fd_catalog db) (batch_key b)) (fd_events db') e"
      using s(1,2) that by (auto simp: swept_def list_all_iff)
    have "\<exists>row. filter (\<lambda>x. fr_version x = vr_id v \<and> fr_at x = instant (fe_at e)) (fd_events db') = [row]
             \<and> dec_eq (fr_rate row) (fe_rate e)" if row: "row \<in> set (fd_events db')" "agrees v e row" for v row
    proof -
      have "distinct (map row_place (fd_events db'))" using s(1,2) by (simp add: swept_def)
      then have inj: "inj_on row_place (set (fd_events db'))" and "distinct (fd_events db')"
        by (simp_all add: distinct_map)
      have "(fr_version x = vr_id v \<and> fr_at x = instant (fe_at e)) = (row = x)" if "x \<in> set (fd_events db')" for x
        using inj_onD[OF inj _ that row(1)] row(2) unfolding agrees_def row_place_def by auto
      then have "filter (\<lambda>x. fr_version x = vr_id v \<and> fr_at x = instant (fe_at e)) (fd_events db') = filter ((=) row) (fd_events db')"
        by (rule filter_cong[OF refl])
      also have "\<dots> = [row]" by (rule filter_eq_single[OF \<open>distinct (fd_events db')\<close> row(1)])
      finally show ?thesis using row(2) by (simp add: agrees_def)
    qed
    with settled show ?thesis
      by (auto simp: settled_in_def version_covering_def funding_error_def raise_exn_def split: list.splits)
  qed
  obtain new where "fd_events db' = fd_events db @ new" "sw_written s = length new"
    using s(1,2) by (auto simp: swept_def first_state_def)
  then have written: "length (fd_events db') = length (fd_events db) + fs_written r" using s(3) by simp
  have sum: "fs_received r = fs_written r + fs_unchanged r + fs_rejected r"
    and rejected: "fs_rejected r = (\<Sum>b\<leftarrow>batches. length (filter (unadmitted (versions_for (fd_catalog db) (batch_key b))) (fb_events b)))"
    using s by (simp_all add: swept_def first_state_def)
  have all: "list_all (\<lambda>b. list_all (\<lambda>e.
         case filter (covers_event (instant (fe_at e))) (versions_for (fd_catalog db) (batch_key b)) of
           [] \<Rightarrow> True
         | [v] \<Rightarrow> (\<exists>row. filter (\<lambda>x. fr_version x = vr_id v \<and> fr_at x = instant (fe_at e)) (fd_events db') = [row]
                    \<and> dec_eq (fr_rate row) (fe_rate e))
         | _ \<Rightarrow> False) (fb_events b)) batches"
    unfolding list_all_iff using each by (intro ballI)
  show ?thesis by (intro conjI sum written rejected[unfolded count[of batches]] all)
qed

section \<open>Sweeping again\<close>

lemma admit_settled:
  assumes "settled_in cands (sw_rows s) e" and "distinct (map row_place (sw_rows s))"
  shows "admit_event run cands e s =
    Inr (if unadmitted cands e then s\<lparr>sw_rejected := sw_rejected s + 1\<rparr> else s\<lparr>sw_unchanged := sw_unchanged s + 1\<rparr>)"
proof -
  obtain v where v: "version_covering (instant (fe_at e)) cands = Inr v"
    using assms(1) by (auto simp: settled_in_def split: sum.splits)
  show ?thesis
  proof (cases v)
    case None
    then show ?thesis using v by (simp add: admit_event_def unadmitted_def)
  next
    case (Some w)
    let ?P = "\<lambda>r. fr_version r = vr_id w \<and> fr_at r = instant (fe_at e)"
    obtain r where r: "r \<in> set (sw_rows s)" "agrees w e r" using assms(1) v Some by (auto simp: settled_in_def)
    have "find ?P (sw_rows s) \<noteq> None" using r by (auto simp: find_None_iff agrees_def row_place_def)
    then obtain q where q: "find ?P (sw_rows s) = Some q" by auto
    then have place: "q \<in> set (sw_rows s)" "row_place q = row_place r"
      using r(2) by (auto simp: find_Some_iff agrees_def row_place_def)
    have "inj_on row_place (set (sw_rows s))" using assms(2) by (simp add: distinct_map)
    then have "q = r" using place r(1) by (auto dest: inj_onD)
    then show ?thesis using v Some q r(2)
      by (auto simp: admit_event_def upsert_event_def Let_def agrees_def unadmitted_def)
  qed
qed

lemma admit_all_settled:
  assumes "list_all (settled_in cands (sw_rows s)) es" and "distinct (map row_place (sw_rows s))"
  shows "try_fold (admit_event run cands) es s =
    Inr (s\<lparr>sw_rejected := sw_rejected s + length (filter (unadmitted cands) es),
           sw_unchanged := sw_unchanged s + length (filter (\<lambda>e. \<not> unadmitted cands e) es)\<rparr>)"
  using assms
proof (induction es arbitrary: s)
  case Nil
  then show ?case by simp
next
  case (Cons e es)
  show ?case
    using admit_settled[of cands s e run] Cons.prems
    by (cases "unadmitted cands e") (simp_all add: Cons.IH)
qed

definition rejected_in :: "catalog_db \<Rightarrow> funding_batch list \<Rightarrow> nat" where
  "rejected_in cat bs = (\<Sum>b\<leftarrow>bs. length (filter (unadmitted (versions_for cat (batch_key b))) (fb_events b)))"

lemma store_all_settled:
  assumes "list_all (\<lambda>b. hex64 (fb_hash b)
      \<and> list_all (settled_in (versions_for cat (batch_key b)) (sw_rows s)) (fb_events b)) bs"
    and "distinct (map row_place (sw_rows s))"
  shows "\<exists>s'. try_fold (store_batch run cat) bs s = Inr s' \<and> sw_rows s' = sw_rows s \<and> sw_written s' = sw_written s
    \<and> sw_rejected s' = sw_rejected s + rejected_in cat bs"
  using assms
proof (induction bs arbitrary: s)
  case Nil
  then show ?case by (simp add: rejected_in_def)
next
  case (Cons b bs)
  obtain t where t: "store_batch run cat b s = Inr t" "sw_rows t = sw_rows s" "sw_written t = sw_written s"
      "sw_rejected t = sw_rejected s + length (filter (unadmitted (versions_for cat (batch_key b))) (fb_events b))"
    using Cons.prems by (simp add: store_batch_def Let_def admit_all_settled)
  obtain s' where "try_fold (store_batch run cat) bs t = Inr s'" "sw_rows s' = sw_rows t" "sw_written s' = sw_written t"
      "sw_rejected s' = sw_rejected t + rejected_in cat bs"
    using Cons.IH[of t] Cons.prems t(2) by auto
  with t show ?case by (simp add: rejected_in_def)
qed

lemma store_batches_hashes:
  "try_fold (store_batch run cat) bs s = Inr s' \<Longrightarrow> list_all (\<lambda>b. hex64 (fb_hash b)) bs"
  by (induction bs arbitrary: s)
    (auto simp: store_batch_def Let_def sweep_sql_failed_def funding_error_def split: sum.splits if_splits)

lemma versions_for_runs [simp]: "versions_for (cat\<lparr>t_runs := rs\<rparr>) key = versions_for cat key"
  by (simp add: versions_for_def)

lemma current_version_runs [simp]: "current_version (cat\<lparr>t_runs := rs\<rparr>) key = current_version cat key"
  by (simp add: current_version_def)

text \<open>
  C19. Sweeping is repeatable.  The batches of a sweep that succeeded can be stored again, as another run and at another
  time, over the same catalog: nothing is written, every event that had been admitted is found unchanged, the same ones
  are rejected, and the table of funding events stays as it was.
\<close>

theorem funding_sweep_is_repeatable:
  assumes "funding_ok db" and "list_all (\<lambda>b. list_all (\<lambda>e. dec_finite (fe_rate e)) (fb_events b)) batches"
    and "persist_funding_sweep sha True run clock secs started batches failures db = (Inr r, db')"
    and "is_aware started2" and "run2 \<notin> set (t_runs (fd_catalog db'))"
  shows "\<exists>r2 db2. persist_funding_sweep sha True run2 clock2 secs2 started2 batches failures db' = (Inr r2, db2)
    \<and> fd_events db2 = fd_events db' \<and> fs_written r2 = 0 \<and> fs_rejected r2 = fs_rejected r
    \<and> fs_unchanged r2 = fs_written r + fs_unchanged r \<and> fs_status r2 = fs_status r"
proof -
  obtain s where s: "validate_batches sha [] batches = Inr ()"
      "try_fold (store_batch run (fd_catalog db)) batches (first_state db) = Inr s" "fd_events db' = sw_rows s"
      "fs_written r = sw_written s" "fs_unchanged r = sw_unchanged s" "fs_rejected r = sw_rejected s"
      "fs_received r = length (concat (map fb_events batches))" "fs_status r = status_of_sweep batches failures (sw_rejected s)"
      "fd_catalog db' = (fd_catalog db)\<lparr>t_runs := t_runs (fd_catalog db) @ [run]\<rparr>"
    by (rule persist_Inr[OF assms(3)])
  have "distinct (map row_place (sw_rows (first_state db)))" using assms(1) by (simp add: funding_ok_def first_state_def)
  from store_batches_swept[OF s(2) this assms(2)] have sw: "swept run (fd_catalog db) batches (first_state db) s" .
  have rows: "sw_rows (first_state db') = sw_rows s" using s(3) by (simp add: first_state_def)
  have settled: "list_all (\<lambda>b. hex64 (fb_hash b) \<and> list_all (settled_in (versions_for (fd_catalog db') (batch_key b))
      (sw_rows (first_state db'))) (fb_events b)) batches"
    using sw store_batches_hashes[OF s(2)] unfolding rows s(9) versions_for_runs
    by (simp add: swept_def list_all_iff)
  have dist: "distinct (map row_place (sw_rows (first_state db')))" using sw unfolding rows by (simp add: swept_def)
  obtain s2 where s2: "try_fold (store_batch run2 (fd_catalog db')) batches (first_state db') = Inr s2"
      "sw_rows s2 = sw_rows (first_state db')" "sw_written s2 = sw_written (first_state db')"
      "sw_rejected s2 = sw_rejected (first_state db') + rejected_in (fd_catalog db') batches"
    using store_all_settled[OF settled dist] by blast
  have same: "rejected_in (fd_catalog db') batches = sw_rejected s"
    using sw by (simp add: swept_def rejected_in_def s(9) first_state_def)
  have "swept run2 (fd_catalog db') batches (first_state db') s2"
    using store_batches_swept[OF s2(1) dist assms(2)] .
  then have sum: "sw_written s2 + sw_unchanged s2 + sw_rejected s2 = length (concat (map fb_events batches))"
    by (simp add: swept_def first_state_def)
  have sum1: "sw_written s + sw_unchanged s + sw_rejected s = length (concat (map fb_events batches))"
    using sw by (simp add: swept_def first_state_def)
  obtain r2 db2 where p: "persist_funding_sweep sha True run2 clock2 secs2 started2 batches failures db' = (Inr r2, db2)"
    using s(1) s2(1)[unfolded first_state_def] assms(4,5)
    by (simp add: persist_funding_sweep_def sweep_body_def Let_def first_error.simps(2) require_aware_def)
  obtain s3 where s3: "try_fold (store_batch run2 (fd_catalog db')) batches (first_state db') = Inr s3"
      "fd_events db2 = sw_rows s3" "fs_written r2 = sw_written s3" "fs_unchanged r2 = sw_unchanged s3"
      "fs_rejected r2 = sw_rejected s3" "fs_status r2 = status_of_sweep batches failures (sw_rejected s3)"
    by (rule persist_Inr[OF p])
  have "s3 = s2" using s3(1) s2(1) by simp
  then show ?thesis using p s3 s2 s same sum sum1 by (auto simp: first_state_def)
qed

section \<open>A sweep over one version\<close>

definition funding_sample_db :: funding_db where
  "funding_sample_db =
     \<lparr>fd_catalog = empty_catalog\<lparr>t_versions := [\<lparr>vr_id = 1, vr_instrument = sample_instrument\<lparr>ci_funding_interval := None\<rparr>, vr_hash = [], vr_from = 1000,
         vr_to = None, vr_payload_id = 1, vr_run = None\<rparr>], seq_version := 2\<rparr>,
      fd_runs = [], fd_raw = [], fd_events = []\<rparr>"

definition funding_sample_event :: "int \<Rightarrow> funding_event" where
  "funding_sample_event t = \<lparr>fe_venue = Mexc, fe_symbol = ''BTC_USDT'', fe_at = utc t, fe_rate = DFin False 1 (-4),
     fe_observed = utc 9000, fe_raw = []\<rparr>"

definition funding_sample_batch :: funding_batch where
  "funding_sample_batch = \<lparr>fb_venue = Mexc, fb_symbol = ''BTC_USDT'', fb_endpoint = ''/history'', fb_observed = utc 9000,
     fb_hash = replicate 64 (CHR ''a''), fb_events = [funding_sample_event 500, funding_sample_event 2000], fb_raw = JNull\<rparr>"

definition funding_sample_sweep :: "funding_result result \<times> funding_db" where
  "funding_sample_sweep = persist_funding_sweep sample_sha True ''run'' 0 (FFin 0) (utc 0) [funding_sample_batch] []
     funding_sample_db"

lemma funding_sample_ok: "funding_ok funding_sample_db"
  by (simp add: funding_ok_def funding_sample_db_def)

lemma funding_sample_finite:
  "list_all (\<lambda>b. list_all (\<lambda>e. dec_finite (fe_rate e)) (fb_events b)) [funding_sample_batch]"
  by code_simp

lemma funding_sample_result:
  "map_sum id (\<lambda>r. (fs_written r, fs_rejected r)) (fst funding_sample_sweep) = Inr (1, 1)"
  by code_simp

lemma funding_sample_Inr:
  obtains r where "persist_funding_sweep sample_sha True ''run'' 0 (FFin 0) (utc 0) [funding_sample_batch] []
     funding_sample_db = (Inr r, snd funding_sample_sweep)" and "fs_written r = 1" and "fs_rejected r = 1"
proof -
  obtain x where x: "fst funding_sample_sweep = Inr x" "fs_written x = 1" "fs_rejected x = 1"
    using funding_sample_result by (cases "fst funding_sample_sweep") auto
  have "funding_sample_sweep = (Inr x, snd funding_sample_sweep)" using x(1) by (metis prod.collapse)
  then show thesis using that x(2,3) unfolding funding_sample_sweep_def by simp
qed

lemma funding_history_is_append_only_witness:
  "funding_ok (snd funding_sample_sweep)"
proof -
  obtain r where "persist_funding_sweep sample_sha True ''run'' 0 (FFin 0) (utc 0) [funding_sample_batch] []
     funding_sample_db = (Inr r, snd funding_sample_sweep)"
    by (rule funding_sample_Inr)
  from funding_history_is_append_only[OF funding_sample_ok funding_sample_finite this] show ?thesis by simp
qed

lemma settled_funding_agrees_witness:
  "length (fd_events (snd funding_sample_sweep)) = 1"
proof -
  obtain r where r: "persist_funding_sweep sample_sha True ''run'' 0 (FFin 0) (utc 0) [funding_sample_batch] []
     funding_sample_db = (Inr r, snd funding_sample_sweep)" "fs_written r = 1"
    by (rule funding_sample_Inr)
  have "fd_events funding_sample_db = []" by (simp add: funding_sample_db_def)
  with settled_funding_agrees[OF funding_sample_ok funding_sample_finite r(1)] r(2) show ?thesis by simp
qed

lemma funding_sweep_is_repeatable_witness:
  "\<exists>r2 db2. persist_funding_sweep sample_sha True ''again'' 0 (FFin 0) (utc 5) [funding_sample_batch] []
      (snd funding_sample_sweep) = (Inr r2, db2)
    \<and> fd_events db2 = fd_events (snd funding_sample_sweep) \<and> fs_written r2 = 0 \<and> fs_rejected r2 = 1"
proof -
  obtain r where r: "persist_funding_sweep sample_sha True ''run'' 0 (FFin 0) (utc 0) [funding_sample_batch] []
     funding_sample_db = (Inr r, snd funding_sample_sweep)" "fs_rejected r = 1"
    by (rule funding_sample_Inr)
  have fresh: "''again'' \<notin> set (t_runs (fd_catalog (snd funding_sample_sweep)))" by code_simp
  have aware: "is_aware (utc 5)" by simp
  show ?thesis
    using funding_sweep_is_repeatable[OF funding_sample_ok funding_sample_finite r(1) aware fresh, of 0 "FFin 0"] r(2)
    by fastforce
qed

end
