(* ===== verification/Funding_Runtime.thy ===== *)
theory Funding_Runtime
  imports Funding_Store "HOL-Library.Product_Lexorder" "HOL-Library.Sublist" "HOL-Library.Multiset"
begin

text \<open>
  The collection of settled funding (\<open>funding_runtime.py\<close>): when an instrument is due, which window is asked for,
  one sweep over the four venues, and the isolated sync.  What the outside decides is an argument: how each request
  ends, and at which instrument of a venue the stop event is found set, before the request or in the wait after it.
  The log line of a sweep and the pace of the requests are not modelled.
\<close>

section \<open>The request window\<close>

definition lookback_us :: int where "lookback_us = 48 * 60 * minute_us"
definition publication_grace_us :: int where "publication_grace_us = 5 * minute_us"

text \<open>\<open>t + timedelta\<close> of an aware datetime.\<close>

fun shift :: "pydt \<Rightarrow> int \<Rightarrow> pydt" where
  "shift (Aware t off) d = Aware (t + d) off"
| "shift (Naive t) d = Naive (t + d)"

text \<open>\<open>max\<close> keeps the first of the latest.\<close>

fun latest_of :: "pydt \<Rightarrow> pydt list \<Rightarrow> pydt" where
  "latest_of t [] = t"
| "latest_of t (u # us) = latest_of (if instant t < instant u then u else t) us"

record request_window =
  rw_start :: pydt
  rw_end :: pydt

definition funding_request_window ::
    "instrument \<Rightarrow> pydt \<Rightarrow> pydt option \<Rightarrow> pydt \<Rightarrow> request_window option result" where
  "funding_request_window i version_start latest now =
     and_then (first_error ([require_aware version_start ''version_start'', require_aware now ''now'']
         @ (case latest of None \<Rightarrow> [] | Some t \<Rightarrow> [require_aware t ''latest_funding_at'']))) (\<lambda>_.
       if \<not> linear_perpetual i then Inr None
       else if (case (latest, ci_funding_interval i) of
                  (Some t, Some n) \<Rightarrow> instant now < instant t + n * second_us + publication_grace_us
                | _ \<Rightarrow> False)
       then Inr None
       else let start_at = latest_of version_start (shift now (- lookback_us)
                  # (case latest of None \<Rightarrow> [] | Some t \<Rightarrow> [shift t 1000]))
            in if instant now < instant start_at then Inr None
               else Inr (Some \<lparr>rw_start = start_at, rw_end = now\<rparr>))"

section \<open>One venue\<close>

record sweep_world =
  wd_reading :: json_reading
  wd_sha :: "json \<Rightarrow> string"
  wd_network :: "instrument \<Rightarrow> network"
  wd_stopped :: "instrument \<Rightarrow> bool"
  wd_waited :: "instrument \<Rightarrow> bool"

record venue_sweep =
  vs_batches :: "funding_batch list"
  vs_failures :: "funding_failure list"
  vs_attempted :: nat
  vs_not_due :: nat

definition empty_sweep :: venue_sweep where
  "empty_sweep = \<lparr>vs_batches = [], vs_failures = [], vs_attempted = 0, vs_not_due = 0\<rparr>"

definition join_sweeps :: "venue_sweep \<Rightarrow> venue_sweep \<Rightarrow> venue_sweep" where
  "join_sweeps a b =
     \<lparr>vs_batches = vs_batches a @ vs_batches b, vs_failures = vs_failures a @ vs_failures b,
      vs_attempted = vs_attempted a + vs_attempted b, vs_not_due = vs_not_due a + vs_not_due b\<rparr>"

definition failed_sweep :: "instrument \<Rightarrow> string \<Rightarrow> nat \<Rightarrow> venue_sweep" where
  "failed_sweep i code attempted =
     \<lparr>vs_batches = [], vs_failures = [\<lparr>ff_venue = ci_venue i, ff_symbol = ci_symbol i, ff_code = code\<rparr>],
      vs_attempted = attempted, vs_not_due = 0\<rparr>"

text \<open>What one request contributes.\<close>

definition request_sweep :: "sweep_world \<Rightarrow> instrument \<Rightarrow> request_window \<Rightarrow> venue_sweep result" where
  "request_sweep w i win =
     and_then (fetch_funding_history (wd_reading w) (wd_sha w) (wd_network w i) i (rw_start win) (rw_end win)) (\<lambda>r.
       Inr (case r of
              Inl code \<Rightarrow> failed_sweep i code 1
            | Inr b \<Rightarrow> \<lparr>vs_batches = [b], vs_failures = [], vs_attempted = 1, vs_not_due = 0\<rparr>))"

fun fetch_venue ::
    "sweep_world \<Rightarrow> (string \<Rightarrow> pydt option) \<Rightarrow> (string \<Rightarrow> pydt option) \<Rightarrow> pydt \<Rightarrow> instrument list \<Rightarrow> venue_sweep result" where
  "fetch_venue w starts latest sweep_at [] = Inr empty_sweep"
| "fetch_venue w starts latest sweep_at (i # is) =
     (if wd_stopped w i then Inr empty_sweep
      else case starts (instrument_id i) of
             None \<Rightarrow> and_then (fetch_venue w starts latest sweep_at is) (\<lambda>rest.
                 Inr (join_sweeps (failed_sweep i ''missing_catalog_version'' 0) rest))
           | Some version_start \<Rightarrow>
               and_then (funding_request_window i version_start (latest (instrument_id i)) sweep_at) (\<lambda>win.
                 case win of
                   None \<Rightarrow> and_then (fetch_venue w starts latest sweep_at is) (\<lambda>rest.
                       Inr (join_sweeps (empty_sweep\<lparr>vs_not_due := 1\<rparr>) rest))
                 | Some x \<Rightarrow> and_then (request_sweep w i x) (\<lambda>one.
                       if wd_waited w i then Inr one
                       else and_then (fetch_venue w starts latest sweep_at is) (\<lambda>rest. Inr (join_sweeps one rest)))))"

section \<open>One sweep\<close>

record sweep_summary =
  sm_attempted :: nat
  sm_succeeded :: nat
  sm_not_due :: nat
  sm_failures :: nat
  sm_store :: "funding_result option"

record store_call =
  st_read_ok :: bool
  st_write_ok :: bool
  st_run :: string
  st_clock :: int
  st_seconds :: pyfloat

definition sweep_instruments :: "instrument list \<Rightarrow> instrument list" where
  "sweep_instruments is = sort_key (\<lambda>i. (ci_venue i, ci_symbol i)) (filter linear_perpetual is)"

definition fetch_all ::
    "sweep_world \<Rightarrow> (string \<Rightarrow> pydt option) \<Rightarrow> (string \<Rightarrow> pydt option) \<Rightarrow> pydt \<Rightarrow> instrument list \<Rightarrow> venue_sweep result" where
  "fetch_all w starts latest sweep_at is =
     and_then (map_ok (\<lambda>v. fetch_venue w starts latest sweep_at (filter (\<lambda>i. ci_venue i = v) is))
         [Bitget, Hyperliquid, Aster, Mexc])
       (\<lambda>parts. Inr (foldr join_sweeps parts empty_sweep))"

definition sweep_summary_of :: "venue_sweep \<Rightarrow> funding_result option \<Rightarrow> sweep_summary" where
  "sweep_summary_of s store =
     \<lparr>sm_attempted = vs_attempted s, sm_succeeded = length (vs_batches s), sm_not_due = vs_not_due s,
      sm_failures = length (vs_failures s), sm_store = store\<rparr>"

text \<open>
  \<open>stopped\<close> is the stop event after the gather.  The database may have changed between the reading of the latest times
  (\<open>db\<close>) and the storage of the sweep (\<open>db'\<close>).
\<close>

definition run_once ::
    "sweep_world \<Rightarrow> store_call \<Rightarrow> bool \<Rightarrow> instrument list \<Rightarrow> (string \<Rightarrow> pydt option) \<Rightarrow> pydt \<Rightarrow> funding_db \<Rightarrow> funding_db
       \<Rightarrow> sweep_summary result \<times> funding_db" where
  "run_once w st stopped supplied starts sweep_at db db' =
     (case and_then (require_aware sweep_at ''funding sweep started_at'') (\<lambda>_.
           and_then (load_latest_funding_times (st_read_ok st) db) (\<lambda>latest.
             fetch_all w starts latest sweep_at (sweep_instruments supplied))) of
        Inl e \<Rightarrow> (Inl e, db')
      | Inr s \<Rightarrow>
          if stopped \<or> vs_batches s = [] \<and> vs_failures s = [] then (Inr (sweep_summary_of s None), db')
          else (case persist_funding_sweep (wd_sha w) (st_write_ok st) (st_run st) (st_clock st) (st_seconds st)
                       sweep_at (vs_batches s) (vs_failures s) db' of
                  (Inl e, d) \<Rightarrow> (Inl e, d)
                | (Inr r, d) \<Rightarrow> (Inr (sweep_summary_of s (Some r)), d)))"

definition run_funding_sync_once ::
    "sweep_world \<Rightarrow> store_call \<Rightarrow> bool \<Rightarrow> ((string \<times> json) list \<Rightarrow> (string \<times> json) list) \<Rightarrow> bool \<Rightarrow> pydt
       \<Rightarrow> funding_db \<Rightarrow> funding_db \<Rightarrow> funding_db \<Rightarrow> sweep_summary result \<times> funding_db" where
  "run_funding_sync_once w st mexc_enabled load catalog_ok now db0 db db' =
     (case load_funding_catalog catalog_ok load (fd_catalog db0) of
        Inl e \<Rightarrow> (Inl e, db')
      | Inr snapshot \<Rightarrow>
          run_once w st False (filter (\<lambda>i. mexc_enabled \<or> ci_venue i \<noteq> Mexc) (fc_instruments snapshot))
            (fc_starts snapshot) now db db')"

section \<open>What a window is\<close>

lemma shift_aware [simp]: "is_aware (shift t d) = is_aware t"
  by (cases t) simp_all

lemma instant_shift [simp]: "is_aware t \<Longrightarrow> instant (shift t d) = instant t + d"
  by (cases t) simp_all

lemma latest_of_in: "latest_of t us \<in> set (t # us)"
  by (induction us arbitrary: t) fastforce+

lemma require_aware_Inr [simp]: "require_aware t field = Inr () \<longleftrightarrow> is_aware t"
  by (simp add: require_aware_def)

definition all_aware :: "pydt \<Rightarrow> pydt option \<Rightarrow> pydt \<Rightarrow> bool" where
  "all_aware version_start latest now \<longleftrightarrow> is_aware version_start \<and> is_aware now \<and> (\<forall>t\<in>set_option latest. is_aware t)"

definition not_yet_published :: "instrument \<Rightarrow> pydt option \<Rightarrow> pydt \<Rightarrow> bool" where
  "not_yet_published i latest now \<longleftrightarrow>
     (\<exists>t n. latest = Some t \<and> ci_funding_interval i = Some n
        \<and> instant now < instant t + n * second_us + publication_grace_us)"

lemma window_aware:
  assumes "all_aware version_start latest now"
  shows "funding_request_window i version_start latest now =
    (let start_at = latest_of version_start (shift now (- lookback_us) # (case latest of None \<Rightarrow> [] | Some t \<Rightarrow> [shift t 1000]))
     in if \<not> linear_perpetual i \<or> not_yet_published i latest now \<or> instant now < instant start_at then Inr None
        else Inr (Some \<lparr>rw_start = start_at, rw_end = now\<rparr>))"
proof -
  have "first_error ([require_aware version_start ''version_start'', require_aware now ''now'']
         @ (case latest of None \<Rightarrow> [] | Some t \<Rightarrow> [require_aware t ''latest_funding_at''])) = Inr ()"
    using assms by (auto simp: first_error_Inr_all all_aware_def split: option.split)
  then show ?thesis
    by (auto simp: funding_request_window_def not_yet_published_def Let_def split: option.split)
qed

lemma window_total:
  "all_aware version_start latest now \<Longrightarrow> \<exists>answer. funding_request_window i version_start latest now = Inr answer"
  by (simp only: window_aware Let_def) (simp del: latest_of.simps)

text \<open>
  C21. The history that is asked for is bounded.  With aware times a request is made unless the instrument is not an
  active linear perpetual, its next settlement is not yet published, or its version or its last settlement lies in the
  future.  The window then ends now and begins at the latest of the start of the version, 48 hours ago and one
  millisecond after the last stored settlement.
\<close>

theorem funding_window_is_bounded:
  assumes "is_aware version_start" and "is_aware now" and "\<forall>t. latest = Some t \<longrightarrow> is_aware t"
  shows "\<exists>answer. funding_request_window i version_start latest now = Inr answer
    \<and> (answer = None \<longleftrightarrow>
         \<not> (ci_active i \<and> ci_market_type i = ''linear_perpetual'') \<or> instant now < instant version_start
         \<or> (\<exists>t. latest = Some t \<and> (instant now < instant t + 1000
              \<or> (\<exists>n. ci_funding_interval i = Some n \<and> instant now < instant t + (n + 300) * second_us))))
    \<and> (\<forall>w. answer = Some w \<longrightarrow>
         rw_end w = now \<and> is_aware (rw_start w) \<and> instant version_start \<le> instant (rw_start w)
         \<and> instant now - 48 * 3600 * second_us \<le> instant (rw_start w) \<and> instant (rw_start w) \<le> instant now
         \<and> (\<forall>t. latest = Some t \<longrightarrow> instant t < instant (rw_start w))
         \<and> (instant (rw_start w) \<in> {instant version_start, instant now - 48 * 3600 * second_us}
            \<or> (\<exists>t. latest = Some t \<and> instant (rw_start w) = instant t + 1000)))"
proof -
  define s0 where "s0 = latest_of version_start (shift now (- lookback_us) # (case latest of None \<Rightarrow> [] | Some t \<Rightarrow> [shift t 1000]))"
  define answer where "answer = (if \<not> linear_perpetual i \<or> not_yet_published i latest now \<or> instant now < instant s0 then None
     else Some \<lparr>rw_start = s0, rw_end = now\<rparr>)"
  have aware: "all_aware version_start latest now" using assms by (cases latest) (simp_all add: all_aware_def)
  have window: "funding_request_window i version_start latest now = Inr answer"
    by (simp add: window_aware[OF aware] Let_def answer_def s0_def)
  have "s0 \<in> set (version_start # shift now (- lookback_us) # (case latest of None \<Rightarrow> [] | Some t \<Rightarrow> [shift t 1000]))"
    unfolding s0_def by (rule latest_of_in)
  then have s_aware: "is_aware s0" using assms by (auto split: option.splits)
  have units: "lookback_us = 48 * 3600 * second_us" "publication_grace_us = 300 * second_us"
    by (simp_all add: lookback_us_def publication_grace_us_def minute_us_def)
  have pos: "0 < second_us" "\<not> second_us < 0" by (simp_all add: second_us_def)
  have none: "answer = None \<longleftrightarrow> \<not> linear_perpetual i \<or> not_yet_published i latest now \<or> instant now < instant s0"
    and some: "answer = Some w \<Longrightarrow> w = \<lparr>rw_start = s0, rw_end = now\<rparr> \<and> instant s0 \<le> instant now" for w
    by (auto simp: answer_def split: if_splits)
  show ?thesis
  proof (cases latest)
    case None
    have top: "instant s0 = max (instant version_start) (instant now - 48 * 3600 * second_us)"
      using assms(2) None by (simp add: units max_def s0_def)
    have "answer = None \<longleftrightarrow> \<not> linear_perpetual i \<or> instant now < instant version_start"
      unfolding none top None not_yet_published_def less_max_iff_disj using pos by auto
    then show ?thesis using window some s_aware top None
      by (intro exI[of _ answer]) (auto simp: linear_perpetual_def)
  next
    case (Some t)
    have t: "is_aware t" using assms(3) Some by simp
    have top: "instant s0 = max (instant version_start) (max (instant now - 48 * 3600 * second_us) (instant t + 1000))"
      using assms(2) t Some by (simp add: units max_def s0_def)
    have "answer = None \<longleftrightarrow> \<not> linear_perpetual i \<or> instant now < instant version_start \<or> instant now < instant t + 1000
        \<or> (\<exists>n. ci_funding_interval i = Some n \<and> instant now < instant t + (n + 300) * second_us)"
      unfolding none top Some not_yet_published_def units less_max_iff_disj using pos by (auto simp: algebra_simps)
    moreover have "instant version_start \<le> instant s0" "instant now - 48 * 3600 * second_us \<le> instant s0" "instant t < instant s0"
      unfolding top by simp_all
    moreover have "instant s0 \<in> {instant version_start, instant now - 48 * 3600 * second_us} \<or> instant s0 = instant t + 1000"
      unfolding top max_def by simp
    ultimately show ?thesis using window some s_aware Some
      by (intro exI[of _ answer]) (auto simp: linear_perpetual_def)
  qed
qed

section \<open>What a sweep fetches\<close>

text \<open>A world in which nothing is stopped, receipts have aware times, and SHA-256 gives digests.\<close>

definition undisturbed :: "sweep_world \<Rightarrow> bool" where
  "undisturbed w \<longleftrightarrow> (\<forall>i. \<not> wd_stopped w i \<and> \<not> wd_waited w i)
     \<and> (\<forall>i payload t. wd_network w i = Answered payload t \<longrightarrow> is_aware t) \<and> (\<forall>j. hex64 (wd_sha w j))"

text \<open>A batch answers a request for an instrument: a history within a window that was due.\<close>

definition answers ::
    "sweep_world \<Rightarrow> (string \<Rightarrow> pydt option) \<Rightarrow> (string \<Rightarrow> pydt option) \<Rightarrow> pydt \<Rightarrow> instrument \<Rightarrow> funding_batch \<Rightarrow> bool" where
  "answers w starts latest now i b \<longleftrightarrow>
     (\<exists>version_start win. starts (instrument_id i) = Some version_start
        \<and> funding_request_window i version_start (latest (instrument_id i)) now = Inr (Some win)
        \<and> history_of (wd_sha w) i (rw_start win) (rw_end win) b \<and> is_aware (fb_observed b))"

definition accounts :: "sweep_world \<Rightarrow> (string \<Rightarrow> pydt option) \<Rightarrow> (string \<Rightarrow> pydt option) \<Rightarrow> pydt \<Rightarrow> instrument list \<Rightarrow> venue_sweep \<Rightarrow> bool" where
  "accounts w starts latest now is s \<longleftrightarrow>
     vs_attempted s + vs_not_due s = length is
     \<and> length (vs_batches s) + length (vs_failures s) = vs_attempted s
     \<and> (\<exists>js. subseq js is \<and> list_all2 (answers w starts latest now) js (vs_batches s))"

lemma accounts_join:
  assumes "accounts w starts latest now is s" and "accounts w starts latest now js t"
  shows "accounts w starts latest now (is @ js) (join_sweeps s t)"
proof -
  obtain as bs where "subseq as is" "list_all2 (answers w starts latest now) as (vs_batches s)"
      "subseq bs js" "list_all2 (answers w starts latest now) bs (vs_batches t)"
    using assms by (auto simp: accounts_def)
  then have "subseq (as @ bs) (is @ js) \<and> list_all2 (answers w starts latest now) (as @ bs) (vs_batches s @ vs_batches t)"
    by (simp add: list_emb_append_mono list_all2_appendI)
  then show ?thesis using assms unfolding accounts_def join_sweeps_def by auto
qed

lemma accounts_empty [simp]: "accounts w starts latest now [] empty_sweep"
  by (simp add: accounts_def empty_sweep_def)

lemma request_accounts:
  assumes "undisturbed w" and "starts (instrument_id i) = Some version_start"
    and "funding_request_window i version_start (latest (instrument_id i)) now = Inr (Some win)"
    and "all_aware version_start (latest (instrument_id i)) now"
  shows "\<exists>one. request_sweep w i win = Inr one \<and> accounts w starts latest now [i] one"
proof -
  have win: "linear_perpetual i" "is_aware (rw_start win)" "is_aware (rw_end win)" "instant (rw_start win) \<le> instant (rw_end win)"
    using assms(3,4) latest_of_in[of version_start "shift now (- lookback_us) # (case latest (instrument_id i) of None \<Rightarrow> [] | Some t \<Rightarrow> [shift t 1000])"]
    unfolding window_aware[OF assms(4)] Let_def
    by (auto simp: all_aware_def split: if_splits option.splits)
  then have "validate_request i (rw_start win) (rw_end win) = Inr ()"
    by (simp add: validate_request_def first_error_Inr_all)
  then obtain r where r: "fetch_funding_history (wd_reading w) (wd_sha w) (wd_network w i) i (rw_start win) (rw_end win) = Inr r"
    by (simp add: fetch_funding_history_def)
  show ?thesis
  proof (cases r)
    case (Inl code)
    then show ?thesis using r by (simp add: request_sweep_def failed_sweep_def accounts_def)
  next
    case (Inr b)
    note h = fetched_history[OF r[unfolded Inr]]
    have "answers w starts latest now i b"
      using assms(1-3) h unfolding answers_def undisturbed_def by blast
    then show ?thesis using r Inr
      by (auto simp: request_sweep_def accounts_def intro!: exI[of _ "[i]"])
  qed
qed

lemma fetch_venue_accounts:
  assumes "undisturbed w" and "is_aware now" and "\<forall>k t. latest k = Some t \<longrightarrow> is_aware t"
    and "\<forall>i\<in>set is. \<exists>t. starts (instrument_id i) = Some t \<and> is_aware t"
  shows "\<exists>s. fetch_venue w starts latest now is = Inr s \<and> accounts w starts latest now is s"
  using assms(4)
proof (induction "is")
  case (Cons i "is")
  obtain s where s: "fetch_venue w starts latest now is = Inr s" "accounts w starts latest now is s"
    using Cons by auto
  obtain t where t: "starts (instrument_id i) = Some t" "is_aware t" using Cons.prems by auto
  have aware: "all_aware t (latest (instrument_id i)) now" using assms(2,3) t by (auto simp: all_aware_def)
  obtain answer where win: "funding_request_window i t (latest (instrument_id i)) now = Inr answer"
    using window_total[OF aware] by blast
  have quiet: "\<not> wd_stopped w i" "\<not> wd_waited w i" using assms(1) by (auto simp: undisturbed_def)
  show ?case
  proof (cases answer)
    case None
    have "accounts w starts latest now [i] (empty_sweep\<lparr>vs_not_due := 1\<rparr>)"
      by (simp add: accounts_def empty_sweep_def)
    from accounts_join[OF this s(2)] show ?thesis using None win t s(1) quiet by simp
  next
    case (Some x)
    obtain one where "request_sweep w i x = Inr one" "accounts w starts latest now [i] one"
      using request_accounts[where starts = starts and latest = latest, OF assms(1) t(1) win[unfolded Some] aware] by blast
    with accounts_join[OF this(2) s(2)] show ?thesis using Some win t s(1) quiet by simp
  qed
qed simp

definition by_venue :: "instrument list \<Rightarrow> instrument list" where
  "by_venue is = concat (map (\<lambda>v. filter (\<lambda>i. ci_venue i = v) is) [Bitget, Hyperliquid, Aster, Mexc])"

lemma mset_by_venue: "mset (by_venue is) = mset is"
proof (induction "is")
  case (Cons i "is")
  then show ?case by (cases "ci_venue i") (simp_all add: by_venue_def)
qed (simp add: by_venue_def)

lemma fetch_all_accounts:
  assumes "undisturbed w" and "is_aware now" and "\<forall>k t. latest k = Some t \<longrightarrow> is_aware t"
    and "\<forall>i\<in>set is. \<exists>t. starts (instrument_id i) = Some t \<and> is_aware t"
  shows "\<exists>s. fetch_all w starts latest now is = Inr s \<and> accounts w starts latest now (by_venue is) s"
proof -
  let ?f = "\<lambda>v. filter (\<lambda>i. ci_venue i = v) is"
  have "\<exists>s. fetch_venue w starts latest now (?f v) = Inr s \<and> accounts w starts latest now (?f v) s" for v
    by (rule fetch_venue_accounts[OF assms(1-3)]) (use assms(4) in auto)
  then obtain g where g: "\<And>v. fetch_venue w starts latest now (?f v) = Inr (g v)" "\<And>v. accounts w starts latest now (?f v) (g v)"
    by metis
  have "accounts w starts latest now (concat (map ?f vs)) (foldr join_sweeps (map g vs) empty_sweep)" for vs
    by (induction vs) (simp_all add: accounts_join[OF g(2)])
  from this[of "[Bitget, Hyperliquid, Aster, Mexc]"] show ?thesis by (simp add: fetch_all_def g(1) by_venue_def)
qed

section \<open>What a sweep stores\<close>

lemma covers_apart: "covers_event t v \<Longrightarrow> covers_event t r \<Longrightarrow> \<not> before v r"
  by (auto simp: covers_event_def before_def split: option.splits)

lemma version_covering_single:
  assumes "disjoint_history cat" and "distinct (map vr_id (t_versions cat))" and "v \<in> set (t_versions cat)"
    and "covers_event t v"
  shows "version_covering t (versions_for cat (listing v)) = Inr (Some v)"
proof -
  have "distinct (versions_for cat (listing v))" using assms(2) by (simp add: versions_for_def distinct_map)
  have v: "v \<in> set (versions_for cat (listing v))" using assms(3) by (simp add: versions_for_set)
  have "covers_event t r = (v = r)" if "r \<in> set (versions_for cat (listing v))" for r
  proof
    assume "covers_event t r"
    then have "\<not> before v r" "\<not> before r v" using covers_apart assms(4) by blast+
    moreover have "r \<in> set (t_versions cat)" "listing r = listing v" using that by (simp_all add: versions_for_set)
    ultimately show "v = r" using assms(1,3) unfolding disjoint_history_def by metis
  qed (use assms(4) in simp)
  then have "filter (covers_event t) (versions_for cat (listing v)) = filter ((=) v) (versions_for cat (listing v))"
    by (rule filter_cong[OF refl])
  also have "\<dots> = [v]" by (rule filter_eq_single) fact+
  finally show ?thesis by (simp add: version_covering_def)
qed

lemma admit_fresh:
  assumes "version_covering (instant (fe_at e)) cands = Inr (Some v)"
    and "(vr_id v, instant (fe_at e)) \<notin> row_place ` set (sw_rows s)"
  shows "admit_event run cands e s =
    Inr (s\<lparr>sw_rows := sw_rows s @ [funding_row_of run v e], sw_written := sw_written s + 1\<rparr>)"
proof -
  have "row_place r \<noteq> (vr_id v, instant (fe_at e))" if "r \<in> set (sw_rows s)" for r
    using assms(2) that by (metis imageI)
  then have "find (\<lambda>r. fr_version r = vr_id v \<and> fr_at r = instant (fe_at e)) (sw_rows s) = None"
    by (auto simp: find_None_iff row_place_def)
  then show ?thesis using assms(1) by (simp add: admit_event_def upsert_event_def Let_def)
qed

lemma admit_all_fresh:
  assumes "\<forall>e\<in>set es. version_covering (instant (fe_at e)) cands = Inr (Some v)
      \<and> (vr_id v, instant (fe_at e)) \<notin> row_place ` set (sw_rows s)"
    and "distinct (map (\<lambda>e. instant (fe_at e)) es)"
  shows "try_fold (admit_event run cands) es s =
    Inr (s\<lparr>sw_rows := sw_rows s @ map (funding_row_of run v) es, sw_written := sw_written s + length es\<rparr>)"
  using assms
proof (induction es arbitrary: s)
  case Nil
  then show ?case by simp
next
  case (Cons e es)
  let ?s = "s\<lparr>sw_rows := sw_rows s @ [funding_row_of run v e], sw_written := sw_written s + 1\<rparr>"
  have "\<forall>x\<in>set es. version_covering (instant (fe_at x)) cands = Inr (Some v)
      \<and> (vr_id v, instant (fe_at x)) \<notin> row_place ` set (sw_rows ?s)"
    using Cons.prems by (auto simp: image_iff)
  then have "try_fold (admit_event run cands) es ?s =
      Inr (?s\<lparr>sw_rows := sw_rows ?s @ map (funding_row_of run v) es, sw_written := sw_written ?s + length es\<rparr>)"
    using Cons.IH[of ?s] Cons.prems(2) by simp
  then show ?case using admit_fresh[of e cands v s run] Cons.prems(1) by simp
qed

definition fresh_batch :: "catalog_db \<Rightarrow> funding_row list \<Rightarrow> funding_batch \<Rightarrow> version_row \<Rightarrow> bool" where
  "fresh_batch cat rows b v \<longleftrightarrow> hex64 (fb_hash b) \<and> distinct (map (\<lambda>e. instant (fe_at e)) (fb_events b))
     \<and> (\<forall>e\<in>set (fb_events b). version_covering (instant (fe_at e)) (versions_for cat (batch_key b)) = Inr (Some v)
          \<and> (vr_id v, instant (fe_at e)) \<notin> row_place ` set rows)"

lemma store_all_fresh:
  assumes "list_all2 (fresh_batch cat (sw_rows s)) bs vs" and "distinct (map vr_id vs)"
  shows "\<exists>s' new. try_fold (store_batch run cat) bs s = Inr s' \<and> sw_rows s' = sw_rows s @ new
    \<and> sw_written s' = sw_written s + length (concat (map fb_events bs))
    \<and> sw_unchanged s' = sw_unchanged s \<and> sw_rejected s' = sw_rejected s"
  using assms
proof (induction bs arbitrary: s vs rule: list.induct)
  case Nil
  then show ?case by simp
next
  case (Cons b bs)
  obtain v us where vs: "vs = v # us" "fresh_batch cat (sw_rows s) b v" "list_all2 (fresh_batch cat (sw_rows s)) bs us"
    using Cons.prems(1) by (auto simp: list_all2_Cons1)
  obtain t where t: "store_batch run cat b s = Inr t" "sw_rows t = sw_rows s @ map (funding_row_of run v) (fb_events b)"
      "sw_written t = sw_written s + length (fb_events b)" "sw_unchanged t = sw_unchanged s" "sw_rejected t = sw_rejected s"
    using vs(2) by (simp add: fresh_batch_def store_batch_def Let_def admit_all_fresh[where v = v])
  have "fresh_batch cat (sw_rows t) c u" if "fresh_batch cat (sw_rows s) c u" "u \<in> set us" for c u
  proof -
    have "vr_id u \<noteq> vr_id v" using that(2) Cons.prems(2) by (auto simp: vs(1) image_iff)
    then show ?thesis using that(1) by (auto simp: fresh_batch_def t(2))
  qed
  with vs(3) have "list_all2 (fresh_batch cat (sw_rows t)) bs us"
    by (auto intro: list.rel_mono_strong)
  then obtain s' new where "try_fold (store_batch run cat) bs t = Inr s'" "sw_rows s' = sw_rows t @ new"
      "sw_written s' = sw_written t + length (concat (map fb_events bs))"
      "sw_unchanged s' = sw_unchanged t" "sw_rejected s' = sw_rejected t"
    using Cons.IH[of t us] Cons.prems(2) vs(1) by auto
  with t show ?case by auto
qed

lemma validate_event_ok:
  "event_of i start_at end_at (fb_observed b) e \<Longrightarrow> fb_venue b = ci_venue i \<Longrightarrow> fb_symbol b = ci_symbol i
    \<Longrightarrow> is_aware (fb_observed b) \<Longrightarrow> validate_event b e = Inr ()"
  by (cases "fe_at e") (auto simp: event_of_def validate_event_def first_error_Inr_all)

lemma validate_batches_ok:
  assumes "list_all2 (answers w starts latest now) js bs" and "distinct (map (\<lambda>i. (ci_venue i, ci_symbol i)) js)"
    and "\<forall>i\<in>set js. (ci_venue i, ci_symbol i) \<notin> set keys"
  shows "validate_batches (wd_sha w) keys bs = Inr ()"
  using assms
proof (induction bs arbitrary: js keys rule: list.induct)
  case Nil
  then show ?case by simp
next
  case (Cons b bs)
  obtain i rest where js: "js = i # rest" "answers w starts latest now i b" "list_all2 (answers w starts latest now) rest bs"
    using Cons.prems(1) by (auto simp: list_all2_Cons2)
  obtain win :: request_window where b: "history_of (wd_sha w) i (rw_start win) (rw_end win) b" "is_aware (fb_observed b)"
    using js(2) unfolding answers_def by blast
  have key: "(fb_venue b, fb_symbol b) = (ci_venue i, ci_symbol i)" using b(1) by (simp add: history_of_def)
  have "first_error (map (validate_event b) (fb_events b)) = Inr ()"
    using b validate_event_ok unfolding first_error_Inr_all by (fastforce simp: history_of_def list_all_iff)
  moreover have "validate_batches (wd_sha w) ((ci_venue i, ci_symbol i) # keys) bs = Inr ()"
    by (rule Cons.IH[OF js(3)]) (use Cons.prems(2,3) js(1) in \<open>fastforce simp: image_iff\<close>)+
  moreover have "require_aware (fb_observed b) ''batch observed_at'' = Inr ()"
    "canonical_json_sha256 (wd_sha w) (fb_raw b) = Inr (fb_hash b)" "(ci_venue i, ci_symbol i) \<notin> set keys"
    using b Cons.prems(3) js(1) by (simp_all add: history_of_def)
  ultimately show ?case using key by (simp add: require_aware_def)
qed

section \<open>A sync over one database\<close>

lemma window_start:
  assumes "all_aware version_start latest now" and "funding_request_window i version_start latest now = Inr (Some win)"
  shows "instant version_start \<le> instant (rw_start win)" and "latest = Some t \<Longrightarrow> instant t < instant (rw_start win)"
  using assms(2) assms(1) unfolding window_aware[OF assms(1)] Let_def
  by (auto simp: all_aware_def split: if_splits option.splits)

lemma distinct_subseq: "subseq xs ys \<Longrightarrow> distinct ys \<Longrightarrow> distinct xs"
  by (metis subseq_conv_nths distinct_nthsI)

abbreviation instrument_key :: "instrument \<Rightarrow> venue \<times> string" where
  "instrument_key i \<equiv> (ci_venue i, ci_symbol i)"

text \<open>The instruments of the snapshot, each with its open version and the start of it.\<close>

definition snapshot_of :: "((string \<times> json) list \<Rightarrow> (string \<times> json) list) \<Rightarrow> bool \<Rightarrow> catalog_db \<Rightarrow> instrument list" where
  "snapshot_of load mexc_enabled cat =
     filter (\<lambda>i. mexc_enabled \<or> ci_venue i \<noteq> Mexc) (map (stored_instrument load) (funding_versions cat))"

definition snapshot_starts :: "catalog_db \<Rightarrow> string \<Rightarrow> pydt option" where
  "snapshot_starts cat =
     map_of (rev (map (\<lambda>r. (instrument_id (vr_instrument r), utc (vr_from r))) (funding_versions cat)))"

lemma stored_key [simp]: "ci_symbol (stored_instrument load r) = ci_symbol (vr_instrument r)"
  "instrument_id (stored_instrument load r) = instrument_id (vr_instrument r)"
  "linear_perpetual (stored_instrument load r) = linear_perpetual (vr_instrument r)"
  "ci_venue (stored_instrument load r) = ci_venue (vr_instrument r)"
  by (simp_all add: stored_instrument_def Let_def listing_def instrument_id_def linear_perpetual_def)

lemma id_of_listing: "instrument_id (vr_instrument r) = venue_instrument_id (fst (listing r)) (snd (listing r))"
  by (simp add: instrument_id_def listing_def)

lemma same_id: "instrument_id (vr_instrument r) = instrument_id (vr_instrument q) \<longleftrightarrow> listing r = listing q"
  by (simp add: id_of_listing prod_eq_iff)

lemma funding_versions_distinct:
  assumes "versions_inv cat"
  shows "distinct (map listing (funding_versions cat))"
proof -
  have "distinct (map listing (filter (\<lambda>r. linear_perpetual (vr_instrument r)) (open_rows (t_versions cat))))"
    using assms by (auto simp: versions_inv_def distinct_map intro: inj_on_subset)
  moreover have "filter (\<lambda>r. linear_perpetual (vr_instrument r)) (open_rows (t_versions cat))
      = filter (\<lambda>r. vr_to r = None \<and> linear_perpetual (vr_instrument r)) (t_versions cat)"
    by (simp add: open_rows_def conj_commute)
  ultimately show ?thesis by (auto simp: funding_versions_def distinct_map)
qed

lemma snapshot_start:
  assumes "versions_inv cat" and "r \<in> set (funding_versions cat)"
  shows "snapshot_starts cat (instrument_id (vr_instrument r)) = Some (utc (vr_from r))"
proof -
  let ?kvs = "map (\<lambda>r. (instrument_id (vr_instrument r), utc (vr_from r))) (funding_versions cat)"
  have "distinct (map (\<lambda>r. instrument_id (vr_instrument r)) (funding_versions cat))"
    using funding_versions_distinct[OF assms(1)] same_id by (auto simp: distinct_map inj_on_def)
  then have "distinct (map fst (rev ?kvs))" by (simp add: comp_def flip: rev_map)
  moreover have "(instrument_id (vr_instrument r), utc (vr_from r)) \<in> set (rev ?kvs)" using assms(2) by auto
  ultimately show ?thesis unfolding snapshot_starts_def by (rule map_of_is_SomeI)
qed

lemma snapshot_instrument:
  assumes "versions_inv cat" and "i \<in> set (snapshot_of load mexc_enabled cat)"
  shows "\<exists>v\<in>set (t_versions cat). vr_to v = None \<and> listing v = instrument_key i \<and> linear_perpetual i
    \<and> instrument_id (vr_instrument v) = instrument_id i \<and> snapshot_starts cat (instrument_id i) = Some (utc (vr_from v))"
proof -
  obtain r where r: "r \<in> set (funding_versions cat)" "i = stored_instrument load r"
    using assms(2) by (auto simp: snapshot_of_def)
  then show ?thesis using snapshot_start[OF assms(1) r(1)] by (auto simp: funding_versions_def listing_def intro!: bexI[of _ r])
qed

lemma snapshot_distinct:
  assumes "versions_inv cat"
  shows "distinct (map instrument_key (snapshot_of load mexc_enabled cat))"
proof -
  have "map instrument_key (map (stored_instrument load) (funding_versions cat)) = map listing (funding_versions cat)"
    by (simp add: listing_def)
  then have "distinct (map instrument_key (map (stored_instrument load) (funding_versions cat)))"
    using funding_versions_distinct[OF assms] by (simp only:)
  then show ?thesis unfolding snapshot_of_def by (rule distinct_map_filter)
qed

definition latest_times :: "funding_db \<Rightarrow> string \<Rightarrow> pydt option" where
  "latest_times db key = (if funding_times db key = [] then None else Some (utc (Max (set (funding_times db key)))))"

lemma stored_before_latest:
  assumes "v \<in> set (t_versions (fd_catalog db))" and "row \<in> set (fd_events db)" and "fr_version row = vr_id v"
  shows "\<exists>t. latest_times db (instrument_id (vr_instrument v)) = Some t \<and> fr_at row \<le> instant t"
proof -
  have "fr_at row \<in> set (funding_times db (instrument_id (vr_instrument v)))"
    using assms by (auto simp: funding_times_def)
  then show ?thesis by (auto simp: latest_times_def)
qed

text \<open>A batch that answers a due request is fresh: its version covers it alone and nothing of it is stored.\<close>

lemma answer_is_fresh:
  assumes "disjoint_history (fd_catalog db)" and "versions_inv (fd_catalog db)" and "undisturbed w" and "is_aware now"
    and "v \<in> set (t_versions (fd_catalog db))" and "vr_to v = None" and "listing v = instrument_key i"
    and "starts (instrument_id i) = Some (utc (vr_from v))" and "instrument_id (vr_instrument v) = instrument_id i"
    and "answers w starts (latest_times db) now i b"
  shows "fresh_batch (fd_catalog db) (fd_events db) b v"
proof -
  obtain win :: request_window where win:
      "funding_request_window i (utc (vr_from v)) (latest_times db (instrument_id i)) now = Inr (Some win)"
      "history_of (wd_sha w) i (rw_start win) (rw_end win) b"
    using assms(8,10) unfolding answers_def by auto
  have aware: "all_aware (utc (vr_from v)) (latest_times db (instrument_id i)) now"
    using assms(4) by (auto simp: all_aware_def latest_times_def)
  have begins: "vr_from v \<le> instant (rw_start win)" using window_start(1)[OF aware win(1)] by simp
  have key: "batch_key b = listing v" using win(2) assms(7) by (simp add: history_of_def)
  have "fb_hash b = wd_sha w (sort_keys (fb_raw b))"
    using win(2) by (auto simp: history_of_def canonical_json_sha256_def split: if_splits)
  then have "hex64 (fb_hash b)" using assms(3) by (simp add: undisturbed_def)
  moreover have "distinct (map (\<lambda>e. instant (fe_at e)) (fb_events b))"
    using win(2) by (simp add: history_of_def strict_sorted_iff)
  moreover have "version_covering (instant (fe_at e)) (versions_for (fd_catalog db) (batch_key b)) = Inr (Some v)
      \<and> (vr_id v, instant (fe_at e)) \<notin> row_place ` set (fd_events db)" if "e \<in> set (fb_events b)" for e
  proof
    have start: "instant (rw_start win) \<le> instant (fe_at e)"
      using win(2) that by (auto simp: history_of_def list_all_iff event_of_def)
    then have "covers_event (instant (fe_at e)) v" using begins assms(6) by (simp add: covers_event_def)
    then show "version_covering (instant (fe_at e)) (versions_for (fd_catalog db) (batch_key b)) = Inr (Some v)"
      unfolding key using version_covering_single[OF assms(1) _ assms(5)] assms(2) by (simp add: versions_inv_def)
    show "(vr_id v, instant (fe_at e)) \<notin> row_place ` set (fd_events db)"
    proof
      assume "(vr_id v, instant (fe_at e)) \<in> row_place ` set (fd_events db)"
      then obtain row where "row \<in> set (fd_events db)" "fr_version row = vr_id v" "fr_at row = instant (fe_at e)"
        by (auto simp: row_place_def)
      then obtain t where "latest_times db (instrument_id i) = Some t" "instant (fe_at e) \<le> instant t"
        using stored_before_latest[OF assms(5)] assms(9) by metis
      with window_start(2)[OF aware win(1)] start show False by fastforce
    qed
  qed
  ultimately show ?thesis by (simp add: fresh_batch_def)
qed

lemma list_all2_choose:
  assumes "list_all2 Q xs ys" and "\<forall>x y. x \<in> set xs \<longrightarrow> Q x y \<longrightarrow> R (f x) y"
  shows "list_all2 (\<lambda>y z. R z y) ys (map f xs)"
  using assms by (simp add: list_all2_conv_all_nth)

text \<open>Everything that answered is written, and nothing else is.\<close>

lemma answered_sweep_is_stored:
  assumes "disjoint_history (fd_catalog db)" and "versions_inv (fd_catalog db)" and "undisturbed w" and "is_aware now"
    and "run \<notin> set (t_runs (fd_catalog db))"
    and "list_all2 (answers w (snapshot_starts (fd_catalog db)) (latest_times db) now) js bs"
    and "set js \<subseteq> set (snapshot_of load mexc_enabled (fd_catalog db))" and "distinct (map instrument_key js)"
  shows "\<exists>r db'. persist_funding_sweep (wd_sha w) True run clock secs now bs fs db = (Inr r, db')
    \<and> fs_rejected r = 0 \<and> fs_unchanged r = 0 \<and> fs_written r = fs_received r \<and> fs_status r = status_of_sweep bs fs 0
    \<and> fs_received r = length (concat (map fb_events bs))
    \<and> (\<exists>new. fd_events db' = fd_events db @ new)"
proof -
  let ?cat = "fd_catalog db"
  have "\<forall>i\<in>set js. \<exists>v. v \<in> set (t_versions ?cat) \<and> vr_to v = None \<and> listing v = instrument_key i
      \<and> instrument_id (vr_instrument v) = instrument_id i \<and> snapshot_starts ?cat (instrument_id i) = Some (utc (vr_from v))"
    using snapshot_instrument[OF assms(2)] assms(7) by blast
  then obtain ver where ver: "\<And>i. i \<in> set js \<Longrightarrow> ver i \<in> set (t_versions ?cat) \<and> vr_to (ver i) = None
      \<and> listing (ver i) = instrument_key i \<and> instrument_id (vr_instrument (ver i)) = instrument_id i
      \<and> snapshot_starts ?cat (instrument_id i) = Some (utc (vr_from (ver i)))"
    using bchoice[of "set js"] by metis
  have fresh: "fresh_batch ?cat (fd_events db) b (ver i)"
    if "i \<in> set js" "answers w (snapshot_starts ?cat) (latest_times db) now i b" for i b
    using answer_is_fresh[OF assms(1-4), where i = i and v = "ver i"] ver[OF that(1)] that(2) by blast
  have all: "list_all2 (fresh_batch ?cat (sw_rows (first_state db))) bs (map ver js)"
    using list_all2_choose[OF assms(6), of "\<lambda>v b. fresh_batch ?cat (fd_events db) b v" ver] fresh
    by (simp add: first_state_def)
  have "map listing (map ver js) = map instrument_key js" using ver by simp
  then have "distinct (map ver js)" using assms(8) by (metis distinct_map)
  moreover have "inj_on vr_id (set (map ver js))"
    using assms(2) ver by (auto simp: versions_inv_def distinct_map intro: inj_on_subset)
  ultimately have ids: "distinct (map vr_id (map ver js))" by (simp only: distinct_map)
  obtain s new where s: "try_fold (store_batch run ?cat) bs (first_state db) = Inr s"
      "sw_rows s = sw_rows (first_state db) @ new"
      "sw_written s = sw_written (first_state db) + length (concat (map fb_events bs))"
      "sw_unchanged s = sw_unchanged (first_state db)" "sw_rejected s = sw_rejected (first_state db)"
    using store_all_fresh[OF all ids] by blast
  have valid: "validate_batches (wd_sha w) [] bs = Inr ()"
    by (rule validate_batches_ok[OF assms(6)]) (use assms(8) in simp_all)
  obtain r db' where p: "persist_funding_sweep (wd_sha w) True run clock secs now bs fs db = (Inr r, db')"
    using valid s(1)[unfolded first_state_def] assms(4,5)
    by (simp add: persist_funding_sweep_def sweep_body_def Let_def first_error.simps(2) require_aware_def)
  obtain s2 where "try_fold (store_batch run ?cat) bs (first_state db) = Inr s2"
      "fd_events db' = sw_rows s2" "fs_written r = sw_written s2" "fs_unchanged r = sw_unchanged s2"
      "fs_rejected r = sw_rejected s2" "fs_received r = length (concat (map fb_events bs))"
      "fs_status r = status_of_sweep bs fs (sw_rejected s2)"
    by (rule persist_Inr[OF p])
  with s p show ?thesis by (auto simp: first_state_def)
qed

text \<open>
  C9. What a sync asks for can be stored.  Over a catalog whose versions do not overlap, with no stop and a fresh run,
  every active linear perpetual is either not due or asked for once; the histories that arrive are all written, none of
  their events is rejected or found to conflict, and the sweep is a success exactly when no request failed.
\<close>

theorem funding_sync_is_admitted:
  assumes "disjoint_history (fd_catalog db)" and "versions_inv (fd_catalog db)" and "undisturbed w" and "is_aware now"
    and "st_read_ok st" and "st_write_ok st" and "st_run st \<notin> set (t_runs (fd_catalog db))"
  shows "\<exists>sm db'. run_funding_sync_once w st mexc_enabled load True now db db db = (Inr sm, db')
    \<and> sm_attempted sm + sm_not_due sm
        = length (filter (\<lambda>v. vr_to v = None \<and> linear_perpetual (vr_instrument v)
            \<and> (mexc_enabled \<or> ci_venue (vr_instrument v) \<noteq> Mexc)) (t_versions (fd_catalog db)))
    \<and> sm_succeeded sm + sm_failures sm = sm_attempted sm
    \<and> (\<exists>new. fd_events db' = fd_events db @ new)
    \<and> (case sm_store sm of
         None \<Rightarrow> sm_attempted sm = 0 \<and> db' = db
       | Some r \<Rightarrow> fs_rejected r = 0 \<and> fs_unchanged r = 0 \<and> fs_written r = fs_received r
           \<and> (fs_status r = SweepSucceeded \<longleftrightarrow> sm_failures sm = 0))"
proof -
  let ?cat = "fd_catalog db"
  define insts where "insts = snapshot_of load mexc_enabled ?cat"
  have linear: "filter linear_perpetual insts = insts"
    using snapshot_instrument[OF assms(2)] unfolding insts_def by (intro filter_True) blast
  have msets: "mset (by_venue (sweep_instruments insts)) = mset insts"
    by (simp add: mset_by_venue sweep_instruments_def linear)
  have "\<forall>i\<in>set (sweep_instruments insts). \<exists>t. snapshot_starts ?cat (instrument_id i) = Some t \<and> is_aware t"
    using snapshot_instrument[OF assms(2)] linear unfolding insts_def sweep_instruments_def by fastforce
  moreover have "\<forall>k t. latest_times db k = Some t \<longrightarrow> is_aware t" by (auto simp: latest_times_def)
  ultimately obtain s where s: "fetch_all w (snapshot_starts ?cat) (latest_times db) now (sweep_instruments insts) = Inr s"
      "accounts w (snapshot_starts ?cat) (latest_times db) now (by_venue (sweep_instruments insts)) s"
    using fetch_all_accounts[OF assms(3,4)] by blast
  obtain js where js: "subseq js (by_venue (sweep_instruments insts))"
      "list_all2 (answers w (snapshot_starts ?cat) (latest_times db) now) js (vs_batches s)"
    using s(2) by (auto simp: accounts_def)
  have "distinct (map instrument_key (by_venue (sweep_instruments insts)))"
    using snapshot_distinct[OF assms(2), of load mexc_enabled] msets unfolding insts_def
    by (metis mset_eq_imp_distinct_iff mset_map)
  then have dist: "distinct (map instrument_key js)" using distinct_subseq[OF subseq_map[OF js(1)]] by blast
  have sub: "set js \<subseteq> set (snapshot_of load mexc_enabled ?cat)"
    using list_emb_set[OF js(1)] mset_eq_setD[OF msets] unfolding insts_def by auto
  have len: "vs_attempted s + vs_not_due s = length insts" "length (vs_batches s) + length (vs_failures s) = vs_attempted s"
    using s(2) mset_eq_length[OF msets] by (simp_all add: accounts_def)
  have count: "length insts = length (filter (\<lambda>v. vr_to v = None \<and> linear_perpetual (vr_instrument v)
            \<and> (mexc_enabled \<or> ci_venue (vr_instrument v) \<noteq> Mexc)) (t_versions ?cat))"
    by (simp add: insts_def snapshot_of_def filter_map comp_def funding_versions_def filter_sort conj_ac flip: filter_filter)
  have once: "run_funding_sync_once w st mexc_enabled load True now db db db
      = run_once w st False insts (snapshot_starts ?cat) now db db"
    by (simp add: run_funding_sync_once_def load_funding_catalog_def insts_def snapshot_of_def snapshot_starts_def)
  have latest: "load_latest_funding_times (st_read_ok st) db = Inr (latest_times db)"
    using assms(5) by (auto simp: load_latest_funding_times_def latest_times_def)
  show ?thesis
  proof (cases "vs_batches s = [] \<and> vs_failures s = []")
    case True
    then have "run_once w st False insts (snapshot_starts ?cat) now db db = (Inr (sweep_summary_of s None), db)"
      using s(1) latest assms(4) by (simp add: run_once_def require_aware_def)
    then show ?thesis using once len count True by (auto simp: sweep_summary_of_def)
  next
    case False
    obtain r db' where r: "persist_funding_sweep (wd_sha w) True (st_run st) (st_clock st) (st_seconds st) now
          (vs_batches s) (vs_failures s) db = (Inr r, db')"
        "fs_rejected r = 0" "fs_unchanged r = 0" "fs_written r = fs_received r"
        "fs_status r = status_of_sweep (vs_batches s) (vs_failures s) 0" "\<exists>new. fd_events db' = fd_events db @ new"
      using answered_sweep_is_stored[OF assms(1-4,7) js(2) sub dist] by blast
    have "run_once w st False insts (snapshot_starts ?cat) now db db = (Inr (sweep_summary_of s (Some r)), db')"
      using s(1) latest assms(4,6) r(1) False by (auto simp add: run_once_def require_aware_def)
    then show ?thesis using once len count r False by (auto simp: sweep_summary_of_def status_of_sweep_def)
  qed
qed

section \<open>Witnesses\<close>

text \<open>Two hours after a settlement of an instrument that is paid every hour.\<close>

lemma funding_window_is_bounded_witness:
  "\<exists>w. funding_request_window (sample_instrument\<lparr>ci_funding_interval := Some 3600\<rparr>) (utc 0) (Some (utc (1000 * second_us)))
      (utc (8200 * second_us)) = Inr (Some w)
    \<and> instant (rw_start w) = 1000 * second_us + 1000 \<and> rw_end w = utc (8200 * second_us)"
proof -
  let ?i = "sample_instrument\<lparr>ci_funding_interval := Some 3600\<rparr>"
  obtain answer where a: "funding_request_window ?i (utc 0) (Some (utc (1000 * second_us))) (utc (8200 * second_us)) = Inr answer"
      "answer = None \<longleftrightarrow> \<not> (ci_active ?i \<and> ci_market_type ?i = ''linear_perpetual'')
         \<or> instant (utc (8200 * second_us)) < instant (utc 0)
         \<or> (\<exists>t. Some (utc (1000 * second_us)) = Some t \<and> (instant (utc (8200 * second_us)) < instant t + 1000
              \<or> (\<exists>n. ci_funding_interval ?i = Some n \<and> instant (utc (8200 * second_us)) < instant t + (n + 300) * second_us)))"
      "\<forall>w. answer = Some w \<longrightarrow> rw_end w = utc (8200 * second_us) \<and> instant (utc 0) \<le> instant (rw_start w)
         \<and> (\<forall>t. Some (utc (1000 * second_us)) = Some t \<longrightarrow> instant t < instant (rw_start w))
         \<and> (instant (rw_start w) \<in> {instant (utc 0), instant (utc (8200 * second_us)) - 48 * 3600 * second_us}
            \<or> (\<exists>t. Some (utc (1000 * second_us)) = Some t \<and> instant (rw_start w) = instant t + 1000))"
    using funding_window_is_bounded[of "utc 0" "utc (8200 * second_us)" "Some (utc (1000 * second_us))" ?i] by auto
  have "answer \<noteq> None" using a(2) by (simp add: sample_instrument_def second_us_def)
  then obtain w where w: "answer = Some w" by auto
  with a(3) have "rw_end w = utc (8200 * second_us)" "1000 * second_us < instant (rw_start w)"
    "instant (rw_start w) \<in> {0, 8200 * second_us - 48 * 3600 * second_us} \<or> instant (rw_start w) = 1000 * second_us + 1000"
    by simp_all
  with a(1) w show ?thesis by (auto simp: second_us_def)
qed

definition funding_sample_world :: sweep_world where
  "funding_sample_world =
     \<lparr>wd_reading = \<lparr>rd_int = (\<lambda>j. case j of JInt n \<Rightarrow> Some n | _ \<Rightarrow> None),
                    rd_decimal = (\<lambda>j. case j of JInt n \<Rightarrow> Some (dec_int n) | _ \<Rightarrow> None)\<rparr>,
      wd_sha = sample_sha,
      wd_network = (\<lambda>_. Answered (JObj [(''success'', JBool True), (''code'', JInt 0), (''data'', JObj [(''resultList'', JList
         [JObj [(''symbol'', JStr ''BTC_USDT''), (''fundingRate'', JInt 0), (''settleTime'', JInt 7200000)]])])]) (utc 9000)),
      wd_stopped = (\<lambda>_. False), wd_waited = (\<lambda>_. False)\<rparr>"

definition funding_sample_store :: store_call where
  "funding_sample_store = \<lparr>st_read_ok = True, st_write_ok = True, st_run = ''run'', st_clock = 0, st_seconds = FFin 0\<rparr>"

lemma funding_sync_is_admitted_witness:
  "\<exists>sm db'. run_funding_sync_once funding_sample_world funding_sample_store True id True (utc (8200 * second_us))
      funding_sample_db funding_sample_db funding_sample_db = (Inr sm, db')
    \<and> sm_attempted sm + sm_not_due sm = 1 \<and> sm_succeeded sm + sm_failures sm = sm_attempted sm"
proof -
  have "disjoint_history (fd_catalog funding_sample_db)"
    by (simp add: disjoint_history_def funding_sample_db_def)
  moreover have "versions_inv (fd_catalog funding_sample_db)"
    by (simp add: versions_inv_def open_rows_def funding_sample_db_def)
  moreover have "undisturbed funding_sample_world"
    by (simp add: undisturbed_def funding_sample_world_def hex64_def sample_sha_def list_all_iff)
  moreover have "is_aware (utc (8200 * second_us))" "st_read_ok funding_sample_store" "st_write_ok funding_sample_store"
    "st_run funding_sample_store \<notin> set (t_runs (fd_catalog funding_sample_db))"
    by (simp_all add: funding_sample_store_def funding_sample_db_def empty_catalog_def)
  moreover have "length (filter (\<lambda>v. vr_to v = None \<and> linear_perpetual (vr_instrument v)
            \<and> (True \<or> ci_venue (vr_instrument v) \<noteq> Mexc)) (t_versions (fd_catalog funding_sample_db))) = 1"
    by (simp add: funding_sample_db_def linear_perpetual_def sample_instrument_def)
  ultimately show ?thesis
    using funding_sync_is_admitted[of funding_sample_db funding_sample_world "utc (8200 * second_us)" funding_sample_store True id]
    by fastforce
qed

end
