(* ===== verification/Spec2Isabelle.thy ===== *)
theory Spec2Isabelle
  imports Watch_Prelude Py_Decimal Py_Float Market_Models Market_Identity Candle_Preference Candles
    Candle_Writer Mexc_Budget Selection Book_Walk Catalog_Store Ranking_Store Ranking_Series
    Ranking_Map Ranking_Generation
    Attention_Models Attention_Percentiles Attention_Scoring Attention_Allocation Cycle_Scheduler
    Attention_Store Outcome_Inputs Outcome_Settlement
    Funding_Source Funding_Store Funding_Runtime
begin

text \<open>
  A verification development for prep-watchdeck, a local market intelligence workspace for public
  perpetual contracts.

  \<^bold>\<open>The program.\<close>  Three Python packages run side by side.  The market core
  (\<open>src/apps/market-core\<close>) collects catalogs, one-minute cycles and candles from four venues into
  PostgreSQL, shares one request budget for MEXC, and serves the depth of a selected group.  The ranking
  core (\<open>src/apps/ranking-core\<close>) keeps minute bars of reference symbols and answers day-trade rankings.
  The attention core (\<open>src/apps/attention-core\<close>) turns feature snapshots into scores, ranks and
  recommended slots, saves each evidence generation once, and later settles what became of it from archived minute
  bars; it reads the mapping and the cutoff that the ranking core published.  The market core's
  catalog gives the versions under which its candles are stored and the groups that selection subscribes to.

  \<^bold>\<open>Theories and sources.\<close>
  \<^item> \<open>Watch_Prelude\<close>, \<open>Py_Decimal\<close>, \<open>Py_Float\<close>: exceptions as values of a sum, aware
    datetimes as instants with an offset, Python's indexing and ranges; \<open>decimal\<close>; binary64 with
    rounding, its monotonicity and its exact cases.
  \<^item> \<open>Market_Models\<close>, \<open>Market_Identity\<close> (\<open>models.py\<close>, \<open>identity.py\<close>): venues, JSON
    payloads, definition hashes; conservative grouping of instruments.
  \<^item> \<open>Candle_Preference\<close>, \<open>Candles\<close>, \<open>Candle_Writer\<close> (\<open>candles.py\<close>,
    \<open>candle_store.py\<close>, \<open>candle_runtime.py\<close>): the contract of keeping the better record (a locale,
    interpreted for the table and for the pending map), storage under covering versions, the batch writer.
  \<^item> \<open>Catalog_Store\<close> (\<open>catalog_store.py\<close>): \<open>persist_catalog\<close> statement by statement on
    the temporal tables, with their constraints and the rollback of a failed transaction.
  \<^item> \<open>Funding_Source\<close>, \<open>Funding_Store\<close>, \<open>Funding_Runtime\<close>
    (\<open>sources/funding.py\<close>, \<open>funding_store.py\<close>, \<open>funding_runtime.py\<close>): the four settled histories
    parsed from JSON, the sweep stored under the versions of \<open>Catalog_Store\<close>, the request window and the loop.
  \<^item> \<open>Mexc_Budget\<close> (\<open>mexc_budget.py\<close>): the budget transaction, and the acquire loop proved over
    the interface \<open>admission_port\<close>, which the transaction implements.
  \<^item> \<open>Selection\<close>, \<open>Book_Walk\<close> (\<open>selection.py\<close>, \<open>selected_market.py\<close>): the
    selection controller as a step relation between its suspension points; depth contracts and book walks.
  \<^item> \<open>Cycle_Scheduler\<close> (\<open>scheduler.py\<close>, parts of \<open>sources/common.py\<close>,
    \<open>market_state.py\<close>, \<open>market_store.py\<close>): the UTC grid, one cycle over every outcome of its tasks, the
    loop with its catch-up.
  \<^item> \<open>Ranking_Store\<close>, \<open>Ranking_Series\<close>, \<open>Ranking_Map\<close>, \<open>Ranking_Generation\<close>
    (\<open>storage.py\<close>, \<open>ranking.py\<close>, \<open>models.py\<close>, \<open>mapping.py\<close>, \<open>roster.py\<close>): bars,
    series with prefix sums, the reviewed mapping, generations with caches, ranks and rank changes.
  \<^item> \<open>Attention_Models\<close>, \<open>Attention_Percentiles\<close>, \<open>Attention_Scoring\<close>,
    \<open>Attention_Allocation\<close> (\<open>models.py\<close>, \<open>percentiles.py\<close>, \<open>components.py\<close>,
    \<open>allocation.py\<close>): the contracts with their validators, midrank percentiles, the scoring of a
    generation, the three allocation policies.
  \<^item> \<open>Attention_Store\<close> (\<open>storage.py\<close>, the outcome and evaluation contracts of \<open>models.py\<close>):
    the tables and their keys, \<open>save_generation\<close> with its readback and its two files, outcome editions, frozen
    candidate families, evaluations.  What a table with a primary key promises is the locale \<open>keyed_table\<close>,
    interpreted for the rows of features, components and allocations; the databases that the operations reach are the
    inductive \<open>stored\<close>.
  \<^item> \<open>Outcome_Inputs\<close> (\<open>outcomes.py\<close>, the readers): one input, a bundle of fragments behind a cache of
    two, joined bundles.  What a window of a reader returns is the locale \<open>window_source\<close>, interpreted for the
    bars and the native points of a single input and of a bundle.
  \<^item> \<open>Outcome_Settlement\<close> (\<open>outcomes.py\<close>, \<open>_reference_outcome\<close> to
    \<open>settle_generation_outcomes\<close>): the outcomes of a generation, their top decile, and their storage.

  \<^bold>\<open>Conventions.\<close>  A record stands for a dataclass, a pydantic model or a table row; a function that may
  raise returns \<open>exn + 'a\<close>.  A pydantic model has a \<open>check_\<close> function: its field constraints, then its
  validator, both raising \<open>ValueError\<close>.  Dictionaries are maps, or association lists in insertion order
  where the order is observed.  Texts are lists of characters, ordered by code as Python orders them.  Times are
  integers in microseconds (market core) or milliseconds (ranking and attention).  What comes from outside the
  repository is an argument: SHA-256 of a canonical JSON text (\<open>sha\<close>), whether a statement fails
  (\<open>sql_ok\<close>), how awaited calls end, clock readings and the stop event, what a file holds (the record
  \<open>disk\<close>), the digest of a canonical content (\<open>dg\<close>), the file name of a generation, how a request ends, and how
  Python reads the text of a JSON number (\<open>json_reading\<close>).

  \<^bold>\<open>What the lemmas show.\<close>  Per component: an invariant and its preservation by every operation (catalog
  consistency, budget windows, controller states, generation caches, at most \<open>k\<close> slots, immutable generations and
  consecutive outcome editions, an append-only funding history); the result of each
  operation on every branch, with the exceptions it can raise; refinement of the optimised routine by the plain one
  (batching, caches, prefix sums, run-length percentiles, fragments of an input); bounds and exactness of the rounded arithmetic.  The
  properties C1 to C40 rest on them.

  \<^bold>\<open>Bounds and fuel.\<close>  No definition uses fuel.  The catch-up loop of the scheduler is a partial function and
  is proved to end; the acquire loop of the budget reads a list of clock values.  Percentiles assume at most
  \<open>2 ^ 40\<close> values, so that everything before their last division is exact in binary64; the top decile assumes at most
  \<open>2 ^ 40\<close> features, so that rounding the product with 0.1 does not change its ceiling.  Grid instants assume a
  clock below \<open>2 ^ 33\<close> seconds, where a float of microsecond resolution does not round up to the next second.

  \<^bold>\<open>Not modelled.\<close>  The web application (another language).  SQL that computes (market metrics, native
  activity, artifacts, retention, archive): the logic is in queries that run in PostgreSQL.  Files (finding the bundles of an archive and reading
  them stably included), locks, sockets, HTTP services, command lines and process start.  Adapters of provider payloads.  The log line of a cycle.  The
  features, the identity join, the export of outcomes and the statistical evaluation of the attention core (bootstrap
  with seeded random numbers), the research tools and the
  operation scripts.  The literal registries of reviewed data.

  \<^bold>\<open>Plan.\<close>  Next: the reconciliation of candle ledgers (\<open>candle_gap_reconciliation.py\<close>), and the
  runtime around the selection controller (\<open>selection_runtime.py\<close>).
\<close>

end
